(* ===== verification/Prelude.thy ===== *)
theory Prelude
  imports Main "HOL-Library.Word" "HOL-Library.AList" "HOL-Library.Sublist"
begin

text \<open>
  Shared vocabulary of the development.

  \<^item> Bytes and strings: a Rust \<^verbatim>\<open>u8\<close> is a \<^typ>\<open>char\<close> (256 values), so \<^verbatim>\<open>Vec<u8>\<close>,
    \<^verbatim>\<open>&[u8]\<close>, \<^verbatim>\<open>Bytes\<close>, \<^verbatim>\<open>BytesMut\<close> and the UTF-8 contents of \<^verbatim>\<open>String\<close>/\<^verbatim>\<open>&str\<close> are
    \<open>bytes\<close>, a list of characters.
  \<^item> Integers: \<^verbatim>\<open>u64\<close>, \<^verbatim>\<open>u32\<close> and \<^verbatim>\<open>u16\<close> are words of that width. \<^verbatim>\<open>usize\<close> values are
    natural numbers; where the code adds two of them and the sum can leave the 64-bit range,
    the addition is \<open>uadd\<close>, which wraps as a release build does.
  \<^item> Panics: an operation that can panic returns an \<open>outcome\<close>.
  \<^item> \<^verbatim>\<open>HashMap\<close>: an association list with distinct keys, with the lemmas about it that the
    components use.
\<close>

section \<open>Collections of rewrite rules\<close>

named_theorems rust_eval \<open>equations that evaluate library functions on concrete input\<close>
named_theorems hm_simps \<open>association lists as hash maps\<close>

section \<open>Types\<close>

type_synonym byte = char
type_synonym bytes = "char list"
type_synonym u16 = "16 word"
type_synonym u32 = "32 word"
type_synonym u64 = "64 word"

datatype 'a outcome = Returned 'a | Panicked

definition crlf :: bytes where
  "crlf = [CHR 0x0D, CHR 0x0A]"

lemma length_crlf [simp]: "length crlf = 2"
  by (simp add: crlf_def)

section \<open>Machine arithmetic on usize\<close>

definition usize_max :: nat where
  "usize_max = 2 ^ 64 - 1"

definition i64_max :: nat where
  "i64_max = 2 ^ 63 - 1"

text \<open>Addition of two \<^verbatim>\<open>usize\<close> values in a release build.\<close>

definition uadd :: "nat \<Rightarrow> nat \<Rightarrow> nat" where
  "uadd a b = (a + b) mod 2 ^ 64"

lemma uadd_no_wrap: "a + b < 2 ^ 64 \<Longrightarrow> uadd a b = a + b"
  by (simp add: uadd_def)

lemma uadd_le: "uadd a b \<le> a + b"
  by (simp add: uadd_def)

lemma uadd_wrap: "a < 2 ^ 64 \<Longrightarrow> b < 2 ^ 64 \<Longrightarrow> 2 ^ 64 \<le> a + b \<Longrightarrow> uadd a b = a + b - 2 ^ 64"
  by (simp add: uadd_def mod_if)

lemma unat_of_nat_u64: "n < 2 ^ 64 \<Longrightarrow> unat (of_nat n :: u64) = n"
  by (simp add: unat_of_nat)

section \<open>Slices\<close>

text \<open>\<^verbatim>\<open>&b[i..j]\<close>: a panic unless \<^verbatim>\<open>i <= j <= b.len()\<close>.\<close>

definition slice :: "nat \<Rightarrow> nat \<Rightarrow> 'a list \<Rightarrow> 'a list outcome" where
  "slice i j b = (if i \<le> j \<and> j \<le> length b then Returned (take (j - i) (drop i b)) else Panicked)"

lemma slice_ok: "i \<le> j \<Longrightarrow> j \<le> length b \<Longrightarrow> slice i j b = Returned (take (j - i) (drop i b))"
  by (simp add: slice_def)

text \<open>\<^verbatim>\<open>dst[i..i+src.len()].copy_from_slice(src)\<close> on a destination that is long enough.\<close>

definition blit :: "nat \<Rightarrow> 'a list \<Rightarrow> 'a list \<Rightarrow> 'a list" where
  "blit i src dst = take i dst @ src @ drop (i + length src) dst"

lemma length_blit: "i + length src \<le> length dst \<Longrightarrow> length (blit i src dst) = length dst"
  by (simp add: blit_def)

lemma take_blit_before: "n \<le> i \<Longrightarrow> i \<le> length dst \<Longrightarrow> take n (blit i src dst) = take n dst"
  by (simp add: blit_def min_def)

lemma take_blit_through:
  "i \<le> length dst \<Longrightarrow> take (i + length src) (blit i src dst) = take i dst @ src"
  by (simp add: blit_def)

lemma take_blit_0 [simp]: "take (length src) (blit 0 src dst) = src"
  by (simp add: blit_def)

lemma blit_append:
  "i \<le> length dst \<Longrightarrow> blit (i + length a) b (blit i a dst) = blit i (a @ b) dst"
  by (simp add: blit_def add_ac)

lemma blit_0: "blit 0 src dst = src @ drop (length src) dst"
  by (simp add: blit_def)

section \<open>Hash maps as association lists\<close>

definition hm_keys :: "('k \<times> 'v) list \<Rightarrow> 'k list" where
  "hm_keys m = map fst m"

definition hm_wf :: "('k \<times> 'v) list \<Rightarrow> bool" where
  "hm_wf m = distinct (map fst m)"

lemma hm_wf_Nil [simp]: "hm_wf []"
  by (simp add: hm_wf_def)

lemma hm_wf_update [simp]: "hm_wf m \<Longrightarrow> hm_wf (AList.update k v m)"
  by (simp add: hm_wf_def distinct_update)

lemma hm_wf_delete [simp]: "hm_wf m \<Longrightarrow> hm_wf (AList.delete k m)"
  by (simp add: hm_wf_def distinct_delete)

lemma set_hm_keys: "set (hm_keys m) = dom (map_of m)"
  by (simp add: hm_keys_def dom_map_of_conv_image_fst)

lemma map_of_update_hm [hm_simps]:
  "map_of (AList.update k v m) k' = (if k' = k then Some v else map_of m k')"
  by (simp add: update_conv')

lemma map_of_delete_hm [hm_simps]:
  "map_of (AList.delete k m) k' = (if k' = k then None else map_of m k')"
  by (simp add: delete_conv')

lemma dom_update_hm: "dom (map_of (AList.update k v m)) = insert k (dom (map_of m))"
  by (auto simp: hm_simps dom_def)

lemma dom_delete_hm: "dom (map_of (AList.delete k m)) = dom (map_of m) - {k}"
  by (auto simp: hm_simps dom_def)

lemma delete_absent: "map_of m k = None \<Longrightarrow> AList.delete k m = m"
  by (simp add: delete_idem map_of_eq_None_iff)

lemma length_delete_present: "map_of m k = Some v \<Longrightarrow> length (AList.delete k m) < length m"
proof -
  assume "map_of m k = Some v"
  then have "(k, v) \<in> set m" by (rule map_of_SomeD)
  then show ?thesis
    unfolding AList.delete_eq by (rule length_filter_less) auto
qed

subsection \<open>The weight of a map\<close>

text \<open>
  The sum of a measure over the entries. Replacing or removing an entry changes it by exactly
  that entry, which is what the storage's memory accounting relies on.
\<close>

definition hm_weight :: "('k \<times> 'v \<Rightarrow> nat) \<Rightarrow> ('k \<times> 'v) list \<Rightarrow> nat" where
  "hm_weight w m = sum_list (map w m)"

lemma hm_weight_simps [simp]:
  "hm_weight w [] = 0"
  "hm_weight w (e # m) = w e + hm_weight w m"
  by (simp_all add: hm_weight_def)

lemma hm_weight_delete:
  "hm_wf m \<Longrightarrow> map_of m k = Some v \<Longrightarrow> hm_weight w m = w (k, v) + hm_weight w (AList.delete k m)"
  by (induction m) (auto simp: hm_wf_def delete_idem split: if_splits)

lemma hm_weight_update_absent:
  "map_of m k = None \<Longrightarrow> hm_weight w (AList.update k v m) = hm_weight w m + w (k, v)"
  by (induction m) (auto split: if_splits)

lemma hm_weight_update_present:
  "map_of m k = Some u \<Longrightarrow> hm_weight w (AList.update k v m) + w (k, u) = hm_weight w m + w (k, v)"
  by (induction m) (auto split: if_splits)

lemma hm_weight_mem: "map_of m k = Some v \<Longrightarrow> w (k, v) \<le> hm_weight w m"
  by (induction m) (auto split: if_splits)

section \<open>Prefixes\<close>

lemma take_append_le [simp]: "n \<le> length xs \<Longrightarrow> take n (xs @ ys) = take n xs"
  by simp

lemma nth_append_less: "n < length xs \<Longrightarrow> (xs @ ys) ! n = xs ! n"
  by (simp add: nth_append)

section \<open>Runs of a component\<close>

text \<open>
  A component is a step function from an operation and a state to a state and a result. The
  definitions here run a sequence of operations; the two interfaces below say once what a
  property of single steps gives for whole runs.
\<close>

primrec run :: "('op \<Rightarrow> 's \<Rightarrow> 's \<times> 'r) \<Rightarrow> 'op list \<Rightarrow> 's \<Rightarrow> 's \<times> 'r list" where
  "run step [] s = (s, [])"
| "run step (op # ops) s =
     (let (s1, r) = step op s; (s2, rs) = run step ops s1 in (s2, r # rs))"

primrec admissible ::
  "('op \<Rightarrow> 's \<Rightarrow> 's \<times> 'r) \<Rightarrow> ('op \<Rightarrow> 's \<Rightarrow> bool) \<Rightarrow> 'op list \<Rightarrow> 's \<Rightarrow> bool" where
  "admissible step ok [] s = True"
| "admissible step ok (op # ops) s = (ok op s \<and> admissible step ok ops (fst (step op s)))"

primrec replay :: "('op \<Rightarrow> 'r \<Rightarrow> 'a \<Rightarrow> 'a) \<Rightarrow> ('op \<times> 'r) list \<Rightarrow> 'a \<Rightarrow> 'a" where
  "replay astep [] a = a"
| "replay astep (e # es) a = replay astep es (astep (fst e) (snd e) a)"

lemma run_Cons_fst: "fst (run step (op # ops) s) = fst (run step ops (fst (step op s)))"
  by (simp add: split_beta Let_def)

lemma run_Cons_snd:
  "snd (run step (op # ops) s) = snd (step op s) # snd (run step ops (fst (step op s)))"
  by (simp add: split_beta Let_def)

lemma length_run_results [simp]: "length (snd (run step ops s)) = length ops"
  by (induction ops arbitrary: s) (simp_all add: run_Cons_snd del: run.simps(2))

text \<open>A state property that every allowed step keeps.\<close>

locale stepwise_invariant =
  fixes step :: "'op \<Rightarrow> 's \<Rightarrow> 's \<times> 'r"
    and ok :: "'op \<Rightarrow> 's \<Rightarrow> bool"
    and inv :: "'s \<Rightarrow> bool"
  assumes inv_step: "inv s \<Longrightarrow> ok op s \<Longrightarrow> inv (fst (step op s))"
begin

lemma inv_run: "inv s \<Longrightarrow> admissible step ok ops s \<Longrightarrow> inv (fst (run step ops s))"
  by (induction ops arbitrary: s) (simp_all add: inv_step run_Cons_fst del: run.simps(2))

end

lemma admissible_always: "admissible step (\<lambda>_ _. True) ops s"
  by (induction ops arbitrary: s) auto

text \<open>The state of something that may have ended: a property of it while it lives.\<close>

fun alive :: "('s \<Rightarrow> bool) \<Rightarrow> 's option \<Rightarrow> bool" where
  "alive P None = True"
| "alive P (Some s) = P s"

text \<open>
  A component that implements an abstract one: every step is matched by the abstract step for
  the same operation and the result the component returned.
\<close>

locale simulation =
  fixes step :: "'op \<Rightarrow> 's \<Rightarrow> 's \<times> 'r"
    and astep :: "'op \<Rightarrow> 'r \<Rightarrow> 'a \<Rightarrow> 'a"
    and rel :: "'s \<Rightarrow> 'a \<Rightarrow> bool"
  assumes sim_step: "rel s a \<Longrightarrow> rel (fst (step op s)) (astep op (snd (step op s)) a)"
begin

lemma sim_run:
  "rel s a \<Longrightarrow>
    rel (fst (run step ops s)) (replay astep (zip ops (snd (run step ops s))) a)"
  by (induction ops arbitrary: s a)
    (simp_all add: sim_step run_Cons_fst run_Cons_snd del: run.simps(2))

end

end
