(* ===== verification/Rust_Std.thy ===== *)
theory Rust_Std
  imports Prelude
begin

text \<open>
  The parts of Rust's standard library that the server's logic is written with: ASCII case
  folding, UTF-8 validation and lossy decoding, splitting and trimming at white space, and
  reading and printing decimal integers. Strings are kept as their UTF-8 bytes.

  Case conversion of non-ASCII strings is driven by the Unicode tables, which are data outside
  the repository: it is a parameter, the record \<open>unicode\<close>. On ASCII strings the conversion is
  computed here.
\<close>

section \<open>ASCII\<close>

definition is_ascii :: "bytes \<Rightarrow> bool" where
  "is_ascii s = list_all (\<lambda>c. (of_char c :: nat) < 128) s"

definition ascii_lower :: "byte \<Rightarrow> byte" where
  "ascii_lower c =
     (if 65 \<le> (of_char c :: nat) \<and> (of_char c :: nat) \<le> 90
      then char_of ((of_char c :: nat) + 32) else c)"

definition ascii_upper :: "byte \<Rightarrow> byte" where
  "ascii_upper c =
     (if 97 \<le> (of_char c :: nat) \<and> (of_char c :: nat) \<le> 122
      then char_of ((of_char c :: nat) - 32) else c)"

definition eq_ignore_ascii_case :: "bytes \<Rightarrow> bytes \<Rightarrow> bool" where
  "eq_ignore_ascii_case a b = (map ascii_lower a = map ascii_lower b)"

lemmas [rust_eval] = is_ascii_def ascii_lower_def ascii_upper_def eq_ignore_ascii_case_def
  char_of_def bit_0

lemma eq_ignore_ascii_case_refl [simp]: "eq_ignore_ascii_case a a"
  by (simp add: eq_ignore_ascii_case_def)

lemma eq_ignore_ascii_case_length: "eq_ignore_ascii_case a b \<Longrightarrow> length a = length b"
  by (metis eq_ignore_ascii_case_def length_map)

lemma ascii_lower_upper: "ascii_lower (ascii_upper c) = ascii_lower c"
  by (auto simp: ascii_lower_def ascii_upper_def)

section \<open>Case conversion of strings\<close>

record unicode =
  uni_lower :: "bytes \<Rightarrow> bytes"
  uni_upper :: "bytes \<Rightarrow> bytes"

definition to_lowercase :: "unicode \<Rightarrow> bytes \<Rightarrow> bytes" where
  "to_lowercase U s = (if is_ascii s then map ascii_lower s else uni_lower U s)"

definition to_uppercase :: "unicode \<Rightarrow> bytes \<Rightarrow> bytes" where
  "to_uppercase U s = (if is_ascii s then map ascii_upper s else uni_upper U s)"

section \<open>UTF-8\<close>

text \<open>
  One step of the decoder at a non-empty input: whether a well-formed character starts here,
  and how many bytes the character, or the maximal ill-formed prefix that the lossy decoder
  replaces, takes. The byte ranges are those of \<^verbatim>\<open>core::str::lossy::Utf8Chunks\<close>; a byte past the
  end of the input reads as 0, as \<^verbatim>\<open>safe_get\<close> there does.
\<close>

definition byte_at :: "bytes \<Rightarrow> nat \<Rightarrow> nat" where
  "byte_at b i = (if i < length b then of_char (b ! i) else 0)"

definition is_cont :: "nat \<Rightarrow> bool" where
  "is_cont n = (128 \<le> n \<and> n \<le> 191)"

definition utf8_char_width :: "nat \<Rightarrow> nat" where
  "utf8_char_width n =
     (if n < 128 then 1 else if 194 \<le> n \<and> n \<le> 223 then 2
      else if 224 \<le> n \<and> n \<le> 239 then 3 else if 240 \<le> n \<and> n \<le> 244 then 4 else 0)"

definition second_ok :: "nat \<Rightarrow> nat \<Rightarrow> bool" where
  "second_ok a b =
     (if a = 224 then 160 \<le> b \<and> b \<le> 191
      else if a = 237 then 128 \<le> b \<and> b \<le> 159
      else if a = 240 then 144 \<le> b \<and> b \<le> 191
      else if a = 244 then 128 \<le> b \<and> b \<le> 143
      else is_cont b)"

definition utf8_step :: "bytes \<Rightarrow> bool \<times> nat" where
  "utf8_step b =
     (let a = byte_at b 0; w = utf8_char_width a in
      if w = 1 then (True, 1)
      else if w = 0 \<or> \<not> second_ok a (byte_at b 1) then (False, 1)
      else if w = 2 then (True, 2)
      else if \<not> is_cont (byte_at b 2) then (False, 2)
      else if w = 3 then (True, 3)
      else if \<not> is_cont (byte_at b 3) then (False, 3)
      else (True, 4))"

lemma utf8_step_pos: "0 < snd (utf8_step b)"
  by (simp add: utf8_step_def Let_def)

text \<open>The characters of an input, each as its bytes; \<open>None\<close> if it is not well-formed.\<close>

function utf8_chars :: "bytes \<Rightarrow> bytes list option" where
  "utf8_chars b =
     (if b = [] then Some []
      else (case utf8_step b of
              (True, n) \<Rightarrow> map_option (\<lambda>cs. take n b # cs) (utf8_chars (drop n b))
            | (False, n) \<Rightarrow> None))"
  by pat_completeness auto
termination
  by (relation "measure length") (use utf8_step_pos in \<open>fastforce simp: prod_eq_iff\<close>)+

declare utf8_chars.simps [simp del]

text \<open>\<^verbatim>\<open>std::str::from_utf8\<close>: the same bytes as a string, or an error.\<close>

definition from_utf8 :: "bytes \<Rightarrow> bytes option" where
  "from_utf8 b = (if utf8_chars b = None then None else Some b)"

text \<open>\<^verbatim>\<open>String::from_utf8_lossy\<close>: each maximal ill-formed prefix becomes U+FFFD.\<close>

function from_utf8_lossy :: "bytes \<Rightarrow> bytes" where
  "from_utf8_lossy b =
     (if b = [] then []
      else (case utf8_step b of
              (True, n) \<Rightarrow> take n b @ from_utf8_lossy (drop n b)
            | (False, n) \<Rightarrow> [CHR 0xEF, CHR 0xBF, CHR 0xBD] @ from_utf8_lossy (drop n b)))"
  by pat_completeness auto
termination
  by (relation "measure length") (use utf8_step_pos in \<open>fastforce simp: prod_eq_iff\<close>)+

declare from_utf8_lossy.simps [simp del]

section \<open>White space\<close>

text \<open>The UTF-8 encodings of the characters with the Unicode property \<^verbatim>\<open>White_Space\<close>.\<close>

definition is_whitespace :: "bytes \<Rightarrow> bool" where
  "is_whitespace c =
     (case map of_char c of
        [a] \<Rightarrow> (9 \<le> a \<and> a \<le> 13) \<or> a = (32 :: nat)
      | [a, b] \<Rightarrow> a = 0xC2 \<and> (b = 0x85 \<or> b = 0xA0)
      | [a, b, d] \<Rightarrow>
          (a = 0xE1 \<and> b = 0x9A \<and> d = 0x80) \<or>
          (a = 0xE2 \<and> b = 0x80 \<and> (0x80 \<le> d \<and> d \<le> 0x8A \<or> d = 0xA8 \<or> d = 0xA9 \<or> d = 0xAF)) \<or>
          (a = 0xE2 \<and> b = 0x81 \<and> d = 0x9F) \<or>
          (a = 0xE3 \<and> b = 0x80 \<and> d = 0x80)
      | _ \<Rightarrow> False)"

text \<open>The words of a sequence of characters; \<open>acc\<close> holds the bytes of the word being read.\<close>

fun split_words :: "bytes \<Rightarrow> bytes list \<Rightarrow> bytes list" where
  "split_words acc [] = (if acc = [] then [] else [acc])"
| "split_words acc (c # cs) =
     (if is_whitespace c
      then (if acc = [] then split_words [] cs else acc # split_words [] cs)
      else split_words (acc @ c) cs)"

text \<open>\<^verbatim>\<open>str::split_whitespace\<close> and \<^verbatim>\<open>str::trim\<close> on a string, which is well-formed UTF-8.\<close>

definition chars_of :: "bytes \<Rightarrow> bytes list" where
  "chars_of s = (case utf8_chars s of Some cs \<Rightarrow> cs | None \<Rightarrow> [])"

definition split_whitespace :: "bytes \<Rightarrow> bytes list" where
  "split_whitespace s = split_words [] (chars_of s)"

definition trim :: "bytes \<Rightarrow> bytes" where
  "trim s = concat (rev (dropWhile is_whitespace (rev (dropWhile is_whitespace (chars_of s)))))"

section \<open>Decimal integers\<close>

definition digit_char :: "nat \<Rightarrow> byte" where
  "digit_char d = ''0123456789'' ! d"

definition is_digit :: "byte \<Rightarrow> bool" where
  "is_digit c = (48 \<le> (of_char c :: nat) \<and> (of_char c :: nat) \<le> 57)"

definition digits_value :: "bytes \<Rightarrow> nat" where
  "digits_value ds = foldl (\<lambda>n c. 10 * n + (of_char c - 48)) 0 ds"

definition parse_digits :: "bytes \<Rightarrow> nat option" where
  "parse_digits s = (if s \<noteq> [] \<and> list_all is_digit s then Some (digits_value s) else None)"

text \<open>
  \<^verbatim>\<open>str::parse\<close> for an unsigned type with largest value \<open>m\<close>: an optional plus sign, then at
  least one digit, and a value in range. For a signed 64-bit integer also a minus sign.
\<close>

definition parse_unsigned :: "nat \<Rightarrow> bytes \<Rightarrow> nat option" where
  "parse_unsigned m s =
     (case parse_digits (case s of c # r \<Rightarrow> (if c = CHR ''+'' then r else s) | [] \<Rightarrow> []) of
        Some n \<Rightarrow> if n \<le> m then Some n else None
      | None \<Rightarrow> None)"

definition parse_i64 :: "bytes \<Rightarrow> int option" where
  "parse_i64 s =
     (case s of
        c # r \<Rightarrow>
          if c = CHR ''-''
          then (case parse_digits r of
                  Some n \<Rightarrow> if n \<le> 2 ^ 63 then Some (- int n) else None | None \<Rightarrow> None)
          else map_option int (parse_unsigned i64_max s)
      | [] \<Rightarrow> None)"

definition parse_usize :: "bytes \<Rightarrow> nat option" where
  "parse_usize s = parse_unsigned usize_max s"

definition parse_u64 :: "bytes \<Rightarrow> u64 option" where
  "parse_u64 s = map_option of_nat (parse_unsigned (2 ^ 64 - 1) s)"

definition parse_u32 :: "bytes \<Rightarrow> u32 option" where
  "parse_u32 s = map_option of_nat (parse_unsigned (2 ^ 32 - 1) s)"

definition parse_u16 :: "bytes \<Rightarrow> u16 option" where
  "parse_u16 s = map_option of_nat (parse_unsigned (2 ^ 16 - 1) s)"

text \<open>\<^verbatim>\<open>to_string\<close> and \<^verbatim>\<open>format!("{}")\<close> on integers.\<close>

function show_nat :: "nat \<Rightarrow> bytes" where
  "show_nat n =
     (if n < 10 then [digit_char n] else show_nat (n div 10) @ [digit_char (n mod 10)])"
  by pat_completeness auto
termination
  by (relation "measure id") auto

declare show_nat.simps [simp del]

definition show_int :: "int \<Rightarrow> bytes" where
  "show_int i = (if i < 0 then CHR ''-'' # show_nat (nat (- i)) else show_nat (nat i))"

lemmas [rust_eval] = byte_at_def is_cont_def utf8_char_width_def second_ok_def utf8_step_def
  utf8_chars.simps from_utf8_def from_utf8_lossy.simps is_whitespace_def chars_of_def
  split_whitespace_def trim_def digit_char_def is_digit_def digits_value_def parse_digits_def
  parse_unsigned_def parse_i64_def parse_usize_def parse_u64_def parse_u32_def parse_u16_def
  show_nat.simps show_int_def i64_max_def usize_max_def to_lowercase_def to_uppercase_def


section \<open>Facts about UTF-8\<close>

lemma utf8_step_within: "b \<noteq> [] \<Longrightarrow> utf8_step b = (True, n) \<Longrightarrow> 0 < n \<and> n \<le> length b"
  by (cases b rule: list.exhaust)
    (auto simp: utf8_step_def Let_def byte_at_def utf8_char_width_def second_ok_def is_cont_def
      Suc_le_eq split: if_splits)

lemma byte_at_append: "i < length b \<Longrightarrow> byte_at (b @ c) i = byte_at b i"
  by (simp add: byte_at_def nth_append)

lemma utf8_step_append:
  assumes "b \<noteq> []" "utf8_step b = (True, n)"
  shows "utf8_step (b @ c) = (True, n)"
proof -
  have "\<And>i. i < n \<Longrightarrow> byte_at (b @ c) i = byte_at b i"
    using utf8_step_within [OF assms] by (simp add: byte_at_append)
  then show ?thesis
    using assms utf8_step_within [OF assms]
    by (auto simp: utf8_step_def Let_def split: if_splits)
qed

lemma utf8_chars_Nil [simp]: "utf8_chars [] = Some []"
  by (simp add: utf8_chars.simps)

lemma utf8_chars_step:
  "b \<noteq> [] \<Longrightarrow> utf8_step b = (True, n) \<Longrightarrow>
    utf8_chars b = map_option (\<lambda>cs. take n b # cs) (utf8_chars (drop n b))"
  by (subst utf8_chars.simps) simp

lemma utf8_chars_SomeE:
  assumes "utf8_chars b = Some cs" "b \<noteq> []"
  obtains n cs' where "utf8_step b = (True, n)" "0 < n" "n \<le> length b"
    "cs = take n b # cs'" "utf8_chars (drop n b) = Some cs'"
proof -
  obtain v n where v: "utf8_step b = (v, n)" by fastforce
  with assms have "v" by (cases v) (simp_all add: utf8_chars.simps [of b])
  with v that assms utf8_step_within [of b n] show ?thesis
    by (auto simp: utf8_chars_step)
qed

lemma utf8_chars_induct [consumes 1, case_names Nil Char]:
  assumes "utf8_chars b = Some cs"
    and "P [] []"
    and "\<And>b n cs. \<lbrakk>b \<noteq> []; utf8_step b = (True, n); 0 < n; n \<le> length b;
           utf8_chars (drop n b) = Some cs; P (drop n b) cs\<rbrakk> \<Longrightarrow> P b (take n b # cs)"
  shows "P b cs"
  using assms(1)
proof (induction "length b" arbitrary: b cs rule: less_induct)
  case less
  show ?case
  proof (cases "b = []")
    case True
    with less.prems assms(2) show ?thesis by simp
  next
    case False
    obtain n cs' where n: "utf8_step b = (True, n)" "0 < n" "n \<le> length b"
      "cs = take n b # cs'" "utf8_chars (drop n b) = Some cs'"
      by (rule utf8_chars_SomeE [OF less.prems False])
    have "length (drop n b) < length b" using n False by simp
    from less.hyps [OF this n(5)] n False show ?thesis by (simp add: assms(3))
  qed
qed

lemma utf8_chars_concat: "utf8_chars b = Some cs \<Longrightarrow> concat cs = b"
  by (induction rule: utf8_chars_induct) auto

lemma utf8_chars_append:
  "utf8_chars a = Some cs \<Longrightarrow> utf8_chars (a @ b) = map_option ((@) cs) (utf8_chars b)"
proof (induction rule: utf8_chars_induct)
  case Nil
  show ?case by (cases "utf8_chars b") auto
next
  case (Char a n cs)
  then show ?case
    by (subst utf8_chars_step [of _ n])
      (cases "utf8_chars b"; simp add: utf8_step_append)+
qed

lemma utf8_chars_singleton: "(of_char c :: nat) < 128 \<Longrightarrow> utf8_chars [c] = Some [[c]]"
  by (simp add: utf8_chars.simps utf8_step_def byte_at_def utf8_char_width_def)

lemma utf8_chars_ascii: "is_ascii s \<Longrightarrow> utf8_chars s = Some (map (\<lambda>c. [c]) s)"
proof (induction s)
  case (Cons c s)
  then have "utf8_chars ([c] @ s) = map_option ((@) [[c]]) (utf8_chars s)"
    by (intro utf8_chars_append utf8_chars_singleton) (simp add: is_ascii_def)
  with Cons show ?case by (simp add: is_ascii_def)
qed simp

lemma utf8_step_take: "0 < n \<Longrightarrow> n \<le> length b \<Longrightarrow> utf8_step b = (True, n) \<Longrightarrow> utf8_step (take n b) = (True, n)"
proof -
  assume n: "0 < n" "n \<le> length b" "utf8_step b = (True, n)"
  then have "\<And>i. i < n \<Longrightarrow> byte_at (take n b) i = byte_at b i"
    by (simp add: byte_at_def)
  with n show "utf8_step (take n b) = (True, n)"
    by (auto simp: utf8_step_def Let_def split: if_splits)
qed

lemma utf8_chars_singletons: "utf8_chars b = Some cs \<Longrightarrow> \<forall>c\<in>set cs. utf8_chars c = Some [c]"
proof (induction rule: utf8_chars_induct)
  case (Char b n cs)
  then have "utf8_chars (take n b) = Some [take n b]"
    by (subst utf8_chars_step [of _ n]) (auto simp: utf8_step_take)
  with Char show ?case by simp
qed simp

lemma utf8_chars_concat_singletons:
  "\<forall>c\<in>set cs. utf8_chars c = Some [c] \<Longrightarrow> utf8_chars (concat cs) = Some cs"
  by (induction cs) (auto simp: utf8_chars_append)

lemma from_utf8_ascii: "is_ascii s \<Longrightarrow> from_utf8 s = Some s"
  by (simp add: from_utf8_def utf8_chars_ascii)

lemma from_utf8_Some: "from_utf8 b = Some s \<longleftrightarrow> s = b \<and> utf8_chars b \<noteq> None"
  by (auto simp: from_utf8_def)

text \<open>Lossy decoding leaves well-formed input alone.\<close>

lemma from_utf8_lossy_valid: "utf8_chars b = Some cs \<Longrightarrow> from_utf8_lossy b = b"
proof (induction rule: utf8_chars_induct)
  case Nil
  show ?case by (simp add: from_utf8_lossy.simps)
next
  case (Char b n cs)
  then show ?case by (subst from_utf8_lossy.simps) simp
qed

section \<open>Words\<close>

text \<open>A word is what \<^const>\<open>split_whitespace\<close> can return: not empty, no white space inside.\<close>

definition is_word :: "bytes \<Rightarrow> bool" where
  "is_word w = (w \<noteq> [] \<and> (case utf8_chars w of None \<Rightarrow> False
                            | Some cs \<Rightarrow> \<not> list_ex is_whitespace cs))"

fun unwords :: "bytes list \<Rightarrow> bytes" where
  "unwords [] = []"
| "unwords [w] = w"
| "unwords (w # ws) = w @ '' '' @ unwords ws"

lemma split_words_run:
  "\<not> list_ex is_whitespace cs \<Longrightarrow> split_words acc (cs @ ds) = split_words (acc @ concat cs) ds"
  by (induction cs arbitrary: acc) auto

lemma is_wordE:
  assumes "is_word w"
  obtains cs where "w \<noteq> []" "utf8_chars w = Some cs" "\<not> list_ex is_whitespace cs" "concat cs = w"
  using assms by (auto simp: is_word_def utf8_chars_concat split: option.splits)

lemma is_whitespace_space [simp]: "is_whitespace '' ''"
  by (simp add: is_whitespace_def)

lemma utf8_chars_space [simp]: "utf8_chars '' '' = Some ['' '']"
  by (rule utf8_chars_singleton) simp

lemma utf8_chars_Cons_space: "utf8_chars (CHR '' '' # s) = map_option ((#) '' '') (utf8_chars s)"
proof -
  have "utf8_chars ('' '' @ s) = map_option ((@) ['' '']) (utf8_chars s)"
    by (intro utf8_chars_append) simp
  then show ?thesis by (cases "utf8_chars s") auto
qed

lemma split_unwords:
  "list_all is_word ws \<Longrightarrow>
    \<exists>cs. utf8_chars (unwords ws) = Some cs \<and> split_words [] cs = ws"
proof (induction ws rule: unwords.induct)
  case (2 w)
  then obtain cs where "utf8_chars w = Some cs" "\<not> list_ex is_whitespace cs" "concat cs = w" "w \<noteq> []"
    by (auto elim: is_wordE)
  moreover from this have "split_words [] (cs @ []) = [w]"
    by (subst split_words_run) auto
  ultimately show ?case by auto
next
  case (3 w v vs)
  then obtain ds where ds: "utf8_chars (unwords (v # vs)) = Some ds" "split_words [] ds = v # vs"
    by auto
  from 3 obtain cs where cs: "utf8_chars w = Some cs" "\<not> list_ex is_whitespace cs" "concat cs = w"
    "w \<noteq> []"
    by (auto elim: is_wordE)
  have "utf8_chars (unwords (w # v # vs)) = Some (cs @ '' '' # ds)"
    using cs ds by (simp add: utf8_chars_append utf8_chars_Cons_space)
  moreover have "split_words [] (cs @ '' '' # ds) = w # v # vs"
    using cs ds by (simp add: split_words_run)
  ultimately show ?case by blast
qed auto

lemma split_whitespace_unwords: "list_all is_word ws \<Longrightarrow> split_whitespace (unwords ws) = ws"
  using split_unwords [of ws] by (auto simp: split_whitespace_def chars_of_def)

lemma from_utf8_unwords: "list_all is_word ws \<Longrightarrow> from_utf8 (unwords ws) = Some (unwords ws)"
  using split_unwords [of ws] by (auto simp: from_utf8_def)

lemma split_words_are_words:
  "\<lbrakk>\<forall>c\<in>set cs. utf8_chars c = Some [c]; acc = concat as; \<forall>c\<in>set as. utf8_chars c = Some [c];
     \<not> list_ex is_whitespace as; w \<in> set (split_words acc cs)\<rbrakk> \<Longrightarrow> is_word w"
proof (induction cs arbitrary: acc as)
  case Nil
  then show ?case by (auto simp: is_word_def utf8_chars_concat_singletons split: if_splits)
next
  case (Cons c cs)
  show ?case
  proof (cases "is_whitespace c")
    case True
    with Cons.prems consider "acc \<noteq> []" "w = acc" | "w \<in> set (split_words [] cs)"
      by (auto split: if_splits)
    then show ?thesis
    proof cases
      case 1
      with Cons.prems show ?thesis by (auto simp: is_word_def utf8_chars_concat_singletons)
    next
      case 2
      with Cons show ?thesis by (auto intro: Cons.IH [of "[]" "[]"])
    qed
  next
    case False
    with Cons.prems show ?thesis by (auto intro!: Cons.IH [of "acc @ c" "as @ [c]"])
  qed
qed

lemma split_whitespace_words: "w \<in> set (split_whitespace s) \<Longrightarrow> is_word w"
  unfolding split_whitespace_def chars_of_def
  by (rule split_words_are_words [where as = "[]"])
    (auto split: option.splits dest: utf8_chars_singletons)

section \<open>Printing and reading integers\<close>

lemma of_char_digit_char: "d < 10 \<Longrightarrow> (of_char (digit_char d) :: nat) = 48 + d"
proof -
  have "\<forall>d<10. (of_char (digit_char d) :: nat) = 48 + d" by code_simp
  then show "d < 10 \<Longrightarrow> (of_char (digit_char d) :: nat) = 48 + d" by blast
qed

lemma is_digit_digit_char: "d < 10 \<Longrightarrow> is_digit (digit_char d)"
  by (simp add: is_digit_def of_char_digit_char)

lemma digits_value_snoc: "digits_value (ds @ [c]) = 10 * digits_value ds + (of_char c - 48)"
  by (simp add: digits_value_def)

lemma show_nat_digits: "show_nat n \<noteq> [] \<and> list_all is_digit (show_nat n) \<and> digits_value (show_nat n) = n"
proof (induction n rule: show_nat.induct)
  case (1 n)
  show ?case
  proof (cases "n < 10")
    case True
    then show ?thesis
      by (subst show_nat.simps, subst (2) show_nat.simps, subst (3) show_nat.simps)
        (simp add: is_digit_digit_char digits_value_def of_char_digit_char)
  next
    case False
    with 1 have "show_nat n = show_nat (n div 10) @ [digit_char (n mod 10)]"
      by (subst show_nat.simps) simp
    with 1 False show ?thesis
      by (simp add: digits_value_snoc of_char_digit_char is_digit_digit_char)
  qed
qed

lemmas show_nat_nonempty [simp] = show_nat_digits [THEN conjunct1]
lemmas show_nat_all_digits = show_nat_digits [THEN conjunct2, THEN conjunct1]
lemmas show_nat_value [simp] = show_nat_digits [THEN conjunct2, THEN conjunct2]

lemma parse_digits_show_nat [simp]: "parse_digits (show_nat n) = Some n"
  by (simp add: parse_digits_def show_nat_all_digits)

lemma digits_no_sign: "list_all is_digit s \<Longrightarrow> s = c # r \<Longrightarrow> c \<noteq> CHR ''+'' \<and> c \<noteq> CHR ''-''"
  by (auto simp: is_digit_def)

lemma show_nat_hd: "show_nat n = c # r \<Longrightarrow> c \<noteq> CHR ''+'' \<and> c \<noteq> CHR ''-''"
  using digits_no_sign show_nat_all_digits by blast

lemma parse_unsigned_show_nat: "n \<le> m \<Longrightarrow> parse_unsigned m (show_nat n) = Some n"
proof -
  assume "n \<le> m"
  moreover have "(case show_nat n of [] \<Rightarrow> [] | c # r \<Rightarrow> if c = CHR ''+'' then r else show_nat n)
      = show_nat n"
    using show_nat_hd [of n] by (auto split: list.splits)
  ultimately show ?thesis by (simp add: parse_unsigned_def)
qed

lemma parse_usize_show_nat: "n \<le> usize_max \<Longrightarrow> parse_usize (show_nat n) = Some n"
  by (simp add: parse_usize_def parse_unsigned_show_nat)

lemma parse_u64_show_nat: "parse_u64 (show_nat (unat w)) = Some w"
proof -
  have "unat w \<le> 2 ^ 64 - 1" using unsigned_less [of w, where ?'a = nat] by simp
  then show ?thesis by (simp add: parse_u64_def parse_unsigned_show_nat del: One_nat_def)
qed

lemma parse_u32_show_nat: "parse_u32 (show_nat (unat w)) = Some w"
proof -
  have "unat w \<le> 2 ^ 32 - 1" using unsigned_less [of w, where ?'a = nat] by simp
  then show ?thesis by (simp add: parse_u32_def parse_unsigned_show_nat del: One_nat_def)
qed

lemma parse_i64_show_int:
  assumes "- (2 ^ 63) \<le> i" "i \<le> int i64_max"
  shows "parse_i64 (show_int i) = Some i"
proof (cases "i < 0")
  case True
  then have "nat (- i) \<le> 2 ^ 63" using assms by simp
  with True show ?thesis by (simp add: show_int_def parse_i64_def)
next
  case False
  then have "nat i \<le> i64_max" using assms by simp
  moreover have "\<exists>c r. show_nat (nat i) = c # r" by (cases "show_nat (nat i)") auto
  ultimately show ?thesis
    using False show_nat_hd [of "nat i"] parse_unsigned_show_nat [of "nat i" i64_max]
    by (auto simp: show_int_def parse_i64_def)
qed

lemma parse_usize_bound: "parse_usize s = Some n \<Longrightarrow> n \<le> usize_max"
  by (auto simp: parse_usize_def parse_unsigned_def split: option.splits if_splits)

lemma parse_i64_bound: "parse_i64 s = Some i \<Longrightarrow> i \<le> int i64_max"
  by (auto simp: parse_i64_def parse_unsigned_def split: option.splits if_splits list.splits)

lemma is_ascii_append [simp]: "is_ascii (a @ b) = (is_ascii a \<and> is_ascii b)"
  by (simp add: is_ascii_def)

lemma digit_is_ascii: "is_digit c \<Longrightarrow> (of_char c :: nat) < 128"
  by (simp add: is_digit_def)

lemma is_ascii_show_nat [simp]: "is_ascii (show_nat n)"
  using show_nat_all_digits [of n] by (auto simp: is_ascii_def list_all_iff digit_is_ascii)

lemma ascii_word:
  "s \<noteq> [] \<Longrightarrow> \<forall>c\<in>set s. 32 < (of_char c :: nat) \<and> (of_char c :: nat) < 128 \<Longrightarrow> is_word s"
  by (auto simp: is_word_def utf8_chars_ascii is_ascii_def list_all_iff list_ex_iff
      is_whitespace_def)

lemma is_word_show_nat [simp]: "is_word (show_nat n)"
  using show_nat_all_digits [of n] by (intro ascii_word) (auto simp: list_all_iff is_digit_def)

text \<open>An ASCII byte of a well-formed string is a character of its own.\<close>

lemma utf8_step_wide:
  assumes "utf8_step b = (True, n)" "1 < n" "i < n"
  shows "128 \<le> byte_at b i"
proof -
  have second: "second_ok a c \<Longrightarrow> 128 \<le> c" for a c
    by (auto simp: second_ok_def is_cont_def split: if_splits)
  have "utf8_char_width (byte_at b 0) \<noteq> 1" "second_ok (byte_at b 0) (byte_at b 1)"
    "2 < n \<Longrightarrow> is_cont (byte_at b 2)" "3 < n \<Longrightarrow> is_cont (byte_at b 3)" "n \<le> 4"
    using assms(1,2) unfolding utf8_step_def Let_def
    by (simp_all split: if_splits)
  then have "128 \<le> byte_at b 0" "128 \<le> byte_at b 1" "2 < n \<Longrightarrow> 128 \<le> byte_at b 2"
    "3 < n \<Longrightarrow> 128 \<le> byte_at b 3" "n \<le> 4"
    using second by (auto simp: utf8_char_width_def is_cont_def not_less split: if_splits)
  moreover have "i = 0 \<or> i = 1 \<or> i = 2 \<or> i = 3" using assms(3) \<open>n \<le> 4\<close> by linarith
  ultimately show ?thesis using assms(3) by auto
qed

lemma ascii_byte_is_char:
  "utf8_chars b = Some cs \<Longrightarrow> c \<in> set b \<Longrightarrow> (of_char c :: nat) < 128 \<Longrightarrow> [c] \<in> set cs"
proof (induction rule: utf8_chars_induct)
  case (Char b n cs)
  show ?case
  proof (cases "c \<in> set (take n b)")
    case True
    then obtain i where i: "i < n" "i < length b" "b ! i = c" by (auto simp: in_set_conv_nth)
    have "n = 1"
    proof (rule ccontr)
      assume "n \<noteq> 1"
      with Char(2,3) i utf8_step_wide [of b n i] have "128 \<le> byte_at b i" by simp
      with i Char.prems(2) show False by (simp add: byte_at_def)
    qed
    with i Char(4) have "take n b = [c]" by (cases b) auto
    then show ?thesis by simp
  next
    case False
    with Char.prems(1) have "c \<in> set (drop n b)"
      by (metis Un_iff append_take_drop_id set_append)
    with Char show ?thesis by simp
  qed
qed simp

lemma is_word_no_cr: "is_word w \<Longrightarrow> CHR 0x0D \<notin> set w"
proof
  assume "is_word w" "CHR 0x0D \<in> set w"
  then obtain cs where "utf8_chars w = Some cs" "\<not> list_ex is_whitespace cs" by (auto elim: is_wordE)
  with ascii_byte_is_char [of w cs "CHR 0x0D"] \<open>CHR 0x0D \<in> set w\<close> show False
    by (auto simp: list_ex_iff is_whitespace_def)
qed

lemma unwords_no_cr: "list_all is_word ws \<Longrightarrow> CHR 0x0D \<notin> set (unwords ws)"
  by (induction ws rule: unwords.induct) (auto dest: is_word_no_cr)

lemma trim_word:
  assumes "is_word w"
  shows "trim w = w"
proof -
  obtain cs where cs: "utf8_chars w = Some cs" "\<not> list_ex is_whitespace cs" "concat cs = w"
    using assms by (auto elim: is_wordE)
  have drop: "\<not> list_ex is_whitespace xs \<Longrightarrow> dropWhile is_whitespace xs = xs" for xs
    by (cases xs) auto
  have "\<not> list_ex is_whitespace (rev cs)" using cs(2) by (simp add: list_ex_iff)
  with cs drop show ?thesis by (simp add: trim_def chars_of_def)
qed

end
