(* ===== verification/Storage.thy ===== *)
theory Storage
  imports Rust_Std
begin

text \<open>
  The in-memory store, \<^verbatim>\<open>src/src/storage.rs\<close>.

  The state is the record \<open>storage\<close>, one field per field of \<^verbatim>\<open>struct Storage\<close>, and two more:
  \<open>st_poisoned\<close>, whether the lock around \<^verbatim>\<open>data\<close> is poisoned (a thread panicked while it held
  the write guard), and \<open>st_hash\<close>, the hash function of the process, which decides the order
  in which a \<^verbatim>\<open>HashMap\<close> is iterated. Each operation is a function on this state that runs
  without interleaving; \<open>now\<close> is its reading of \<^verbatim>\<open>Instant::now()\<close> in nanoseconds. An operation
  that can panic returns an \<open>outcome\<close> beside the new state.

  The theory shows that every operation keeps the store well-formed and its memory account
  exact (\<open>cas\<close> apart, whose defect is stated as such), that eviction terminates and removes
  a least recently used item, that the memory cap holds, what each operation returns and
  leaves for later reads, and that the store implements the contract of a lossy cache.
\<close>

section \<open>State\<close>

record cache_item =
  ci_value :: bytes
  ci_flags :: u32
  ci_expires_at :: "nat option"
  ci_cas_unique :: u64
  ci_last_accessed :: nat

datatype storage_result = Stored | NotStored | Exists | NotFound | CasMismatch | Deleted

record storage =
  st_data :: "(bytes \<times> cache_item) list"
  st_memory_used :: u64
  st_max_memory :: nat
  st_default_ttl :: u64
  st_cas_counter :: u64
  st_access_order :: "(bytes \<times> u64) list"
  st_access_counter :: u64
  st_poisoned :: bool
  st_hash :: "bytes \<Rightarrow> nat"

record storage_stats =
  ss_item_count :: nat
  ss_memory_used :: nat
  ss_max_memory :: nat
  ss_cas_counter :: u64

section \<open>Items\<close>

text \<open>
  \<^verbatim>\<open>std::mem::size_of::<CacheItem>()\<close> on a 64-bit Linux target: a vector (24 bytes), an
  optional and a plain instant (16 each), the token (8), the flags (4), padded to 72.
\<close>

definition size_of_cache_item :: nat where
  "size_of_cache_item = 72"

definition memory_size :: "cache_item \<Rightarrow> nat" where
  "memory_size it = size_of_cache_item + length (ci_value it)"

definition is_expired :: "nat \<Rightarrow> cache_item \<Rightarrow> bool" where
  "is_expired now it = (case ci_expires_at it of Some e \<Rightarrow> e \<le> now | None \<Rightarrow> False)"

text \<open>What an entry counts for: \<^verbatim>\<open>item.memory_size() + key.len()\<close>.\<close>

definition entry_size :: "bytes \<times> cache_item \<Rightarrow> nat" where
  "entry_size e = memory_size (snd e) + length (fst e)"

section \<open>Operations\<close>

definition storage_new :: "(bytes \<Rightarrow> nat) \<Rightarrow> nat \<Rightarrow> u64 \<Rightarrow> storage" where
  "storage_new h max_memory default_ttl =
     \<lparr>st_data = [], st_memory_used = 0, st_max_memory = max_memory, st_default_ttl = default_ttl,
      st_cas_counter = 1, st_access_order = [], st_access_counter = 0, st_poisoned = False,
      st_hash = h\<rparr>"

definition next_cas_unique :: "storage \<Rightarrow> u64 \<times> storage" where
  "next_cas_unique s = (st_cas_counter s, s\<lparr>st_cas_counter := st_cas_counter s + 1\<rparr>)"

definition record_access :: "bytes \<Rightarrow> storage \<Rightarrow> storage" where
  "record_access key s =
     s\<lparr>st_access_order := AList.update key (st_access_counter s) (st_access_order s),
       st_access_counter := st_access_counter s + 1\<rparr>"

text \<open>
  \<^verbatim>\<open>Instant::now() + Duration::from_secs(ttl)\<close> panics when the seconds of the sum leave the
  range of \<^verbatim>\<open>i64\<close>.
\<close>

definition calculate_expiry :: "nat \<Rightarrow> u64 \<Rightarrow> storage \<Rightarrow> nat option outcome" where
  "calculate_expiry now ttl s =
     (let effective_ttl = (if ttl = 0 then st_default_ttl s else ttl) in
      if effective_ttl = 0 then Returned None
      else if now div 10 ^ 9 + unat effective_ttl > i64_max then Panicked
      else Returned (Some (now + unat effective_ttl * 10 ^ 9)))"

definition delete :: "bytes \<Rightarrow> storage \<Rightarrow> storage \<times> storage_result outcome" where
  "delete key s =
     (if st_poisoned s then (s, Panicked)
      else (case map_of (st_data s) key of
              Some item \<Rightarrow>
                (s\<lparr>st_data := AList.delete key (st_data s),
                   st_memory_used := st_memory_used s - of_nat (entry_size (key, item)),
                   st_access_order := AList.delete key (st_access_order s)\<rparr>, Returned Deleted)
            | None \<Rightarrow> (s, Returned NotFound)))"

text \<open>
  \<^verbatim>\<open>get\<close> reads the lock with \<^verbatim>\<open>.ok()?\<close>, so a poisoned lock makes it return \<open>None\<close>.
\<close>

definition get :: "nat \<Rightarrow> bytes \<Rightarrow> storage \<Rightarrow> storage \<times> cache_item option" where
  "get now key s =
     (if st_poisoned s then (s, None)
      else (case map_of (st_data s) key of
              Some item \<Rightarrow>
                if is_expired now item then (fst (delete key s), None)
                else (record_access key s, Some item)
            | None \<Rightarrow> (s, None)))"

text \<open>The loop of \<^verbatim>\<open>get_multi\<close>: results so far, expired keys so far.\<close>

fun get_multi_loop ::
  "nat \<Rightarrow> bytes list \<Rightarrow> storage \<Rightarrow> (bytes \<times> cache_item) list \<Rightarrow> bytes list \<Rightarrow>
   storage \<times> (bytes \<times> cache_item) list \<times> bytes list" where
  "get_multi_loop now [] s results expired_keys = (s, results, expired_keys)"
| "get_multi_loop now (key # keys) s results expired_keys =
     (case map_of (st_data s) key of
        Some item \<Rightarrow>
          if is_expired now item then get_multi_loop now keys s results (expired_keys @ [key])
          else get_multi_loop now keys (record_access key s) (results @ [(key, item)]) expired_keys
      | None \<Rightarrow> get_multi_loop now keys s results expired_keys)"

fun delete_all :: "bytes list \<Rightarrow> storage \<Rightarrow> storage" where
  "delete_all [] s = s"
| "delete_all (key # keys) s = delete_all keys (fst (delete key s))"

definition get_multi ::
  "nat \<Rightarrow> bytes list \<Rightarrow> storage \<Rightarrow> storage \<times> (bytes \<times> cache_item) list outcome" where
  "get_multi now keys s =
     (if st_poisoned s then (s, Panicked)
      else (let (s1, results, expired_keys) = get_multi_loop now keys s [] []
            in (delete_all expired_keys s1, Returned results)))"

text \<open>
  The loop of \<^verbatim>\<open>find_lru_key\<close> over the access order, with the smallest sequence number seen and
  its key. The maps are iterated in the order of the hashes of their keys.
\<close>

definition hash_iter :: "storage \<Rightarrow> (bytes \<times> 'v) list \<Rightarrow> bytes list" where
  "hash_iter s m = sort_key (st_hash s) (hm_keys m)"

fun find_lru_loop ::
  "nat \<Rightarrow> storage \<Rightarrow> bytes list \<Rightarrow> u64 \<Rightarrow> bytes option \<Rightarrow> bytes option" where
  "find_lru_loop now s [] min_seq lru_key = lru_key"
| "find_lru_loop now s (key # keys) min_seq lru_key =
     (case (map_of (st_data s) key, map_of (st_access_order s) key) of
        (Some item, Some seq) \<Rightarrow>
          if \<not> is_expired now item \<and> seq < min_seq
          then find_lru_loop now s keys seq (Some key)
          else find_lru_loop now s keys min_seq lru_key
      | _ \<Rightarrow> find_lru_loop now s keys min_seq lru_key)"

definition find_lru_key :: "nat \<Rightarrow> storage \<Rightarrow> bytes option" where
  "find_lru_key now s =
     (if st_poisoned s then None
      else (case find_lru_loop now s (hash_iter s (st_access_order s)) (- 1) None of
              Some key \<Rightarrow> Some key
            | None \<Rightarrow> (case hash_iter s (st_data s) of [] \<Rightarrow> None | key # _ \<Rightarrow> Some key)))"

lemma set_hash_iter [simp]: "set (hash_iter s m) = set (hm_keys m)"
  by (simp add: hash_iter_def)

lemma find_lru_loop_mem:
  "find_lru_loop now s keys m l = Some key \<Longrightarrow>
     l = Some key \<or> (\<exists>item. map_of (st_data s) key = Some item \<and> \<not> is_expired now item)"
  by (induction keys arbitrary: m l) (auto split: option.splits if_splits)

lemma find_lru_key_mem:
  assumes "find_lru_key now s = Some key"
  shows "\<not> st_poisoned s \<and> (\<exists>item. map_of (st_data s) key = Some item)"
proof -
  have np: "\<not> st_poisoned s" using assms by (auto simp: find_lru_key_def)
  show ?thesis
  proof (cases "find_lru_loop now s (hash_iter s (st_access_order s)) (- 1) None")
    case None
    with assms np have "hash_iter s (st_data s) = key # tl (hash_iter s (st_data s))"
      by (auto simp: find_lru_key_def split: list.splits)
    then have "key \<in> set (hash_iter s (st_data s))" by (metis list.set_intros(1))
    then have "key \<in> dom (map_of (st_data s))" by (simp add: set_hm_keys)
    with np show ?thesis by auto
  next
    case (Some k)
    with assms np show ?thesis
      by (auto simp: find_lru_key_def dest: find_lru_loop_mem)
  qed
qed

lemma delete_shrinks:
  assumes "find_lru_key now s = Some key"
  shows "length (st_data (fst (delete key s))) < length (st_data s)"
  using find_lru_key_mem [OF assms] by (auto simp: delete_def length_delete_present)

text \<open>
  The eviction loop. It stops when the request fits or nothing is left: every round removes an
  item, which is the termination argument.
\<close>

function ensure_memory_available :: "nat \<Rightarrow> nat \<Rightarrow> storage \<Rightarrow> storage" where
  "ensure_memory_available now needed s =
     (if uadd (unat (st_memory_used s)) needed > st_max_memory s
      then (case find_lru_key now s of
              Some key \<Rightarrow> ensure_memory_available now needed (fst (delete key s))
            | None \<Rightarrow> s)
      else s)"
  by pat_completeness auto
termination
  by (relation "measure (\<lambda>(now, needed, s). length (st_data s))") (auto simp: delete_shrinks)

declare ensure_memory_available.simps [simp del]

definition set_item ::
  "nat \<Rightarrow> bytes \<Rightarrow> bytes \<Rightarrow> u32 \<Rightarrow> u64 \<Rightarrow> storage \<Rightarrow> storage \<times> storage_result outcome" where
  "set_item now key value flags ttl s =
     (case calculate_expiry now ttl s of
        Panicked \<Rightarrow> (s, Panicked)
      | Returned expires_at \<Rightarrow>
          let (cas_unique, s1) = next_cas_unique s;
              item = \<lparr>ci_value = value, ci_flags = flags, ci_expires_at = expires_at,
                      ci_cas_unique = cas_unique, ci_last_accessed = now\<rparr>;
              new_size = memory_size item + length key;
              s2 = ensure_memory_available now new_size s1
          in if st_poisoned s2 then (s2, Panicked)
             else let s3 = (case map_of (st_data s2) key of
                              Some old_item \<Rightarrow>
                                s2\<lparr>st_memory_used :=
                                    st_memory_used s2 - of_nat (entry_size (key, old_item))\<rparr>
                            | None \<Rightarrow> s2);
                      s4 = s3\<lparr>st_memory_used := st_memory_used s3 + of_nat new_size,
                              st_data := AList.update key item (st_data s3)\<rparr>
                  in (record_access key s4, Returned Stored))"

definition add ::
  "nat \<Rightarrow> bytes \<Rightarrow> bytes \<Rightarrow> u32 \<Rightarrow> u64 \<Rightarrow> storage \<Rightarrow> storage \<times> storage_result outcome" where
  "add now key value flags ttl s =
     (if st_poisoned s then (s, Panicked)
      else (case map_of (st_data s) key of
              Some item \<Rightarrow>
                if \<not> is_expired now item then (s, Returned NotStored)
                else set_item now key value flags ttl s
            | None \<Rightarrow> set_item now key value flags ttl s))"

definition replace ::
  "nat \<Rightarrow> bytes \<Rightarrow> bytes \<Rightarrow> u32 \<Rightarrow> u64 \<Rightarrow> storage \<Rightarrow> storage \<times> storage_result outcome" where
  "replace now key value flags ttl s =
     (if st_poisoned s then (s, Panicked)
      else (case map_of (st_data s) key of
              Some item \<Rightarrow>
                if \<not> is_expired now item then set_item now key value flags ttl s
                else (s, Returned NotStored)
            | None \<Rightarrow> (s, Returned NotStored)))"

text \<open>
  The branch \<^verbatim>\<open>Some(item) if item.is_expired()\<close> of \<^verbatim>\<open>cas\<close>, \<^verbatim>\<open>append\<close> and \<^verbatim>\<open>prepend\<close>: the item is
  removed and its memory returned, the access order is left as it is.
\<close>

definition drop_expired :: "bytes \<Rightarrow> cache_item \<Rightarrow> storage \<Rightarrow> storage" where
  "drop_expired key item s =
     s\<lparr>st_data := AList.delete key (st_data s),
       st_memory_used := st_memory_used s - of_nat (entry_size (key, item))\<rparr>"

text \<open>
  \<^verbatim>\<open>cas\<close> computes the expiry while it holds the write guard: a panic there poisons the lock.
\<close>

definition cas ::
  "nat \<Rightarrow> bytes \<Rightarrow> bytes \<Rightarrow> u32 \<Rightarrow> u64 \<Rightarrow> u64 \<Rightarrow> storage \<Rightarrow> storage \<times> storage_result outcome" where
  "cas now key value flags ttl cas_unique s =
     (if st_poisoned s then (s, Panicked)
      else (case map_of (st_data s) key of
              None \<Rightarrow> (s, Returned NotFound)
            | Some item \<Rightarrow>
                if is_expired now item then (drop_expired key item s, Returned NotFound)
                else if ci_cas_unique item \<noteq> cas_unique then (s, Returned CasMismatch)
                else (case calculate_expiry now ttl s of
                        Panicked \<Rightarrow> (s\<lparr>st_poisoned := True\<rparr>, Panicked)
                      | Returned expires_at \<Rightarrow>
                          let old_size = memory_size item + length key;
                              (token, s1) = next_cas_unique s;
                              new_item = \<lparr>ci_value = value, ci_flags = flags,
                                          ci_expires_at = expires_at, ci_cas_unique = token,
                                          ci_last_accessed = now\<rparr>;
                              new_size = memory_size new_item + length key;
                              s2 = s1\<lparr>st_memory_used := st_memory_used s1 - of_nat old_size\<rparr>;
                              s3 = ensure_memory_available now new_size s2;
                              s4 = s3\<lparr>st_memory_used := st_memory_used s3 + of_nat new_size,
                                      st_data := AList.update key new_item (st_data s3)\<rparr>
                          in (record_access key s4, Returned Stored))))"

text \<open>The update of an item in place, shared by the branches of \<^verbatim>\<open>append\<close> and \<^verbatim>\<open>prepend\<close>.\<close>

definition update_in_place ::
  "nat \<Rightarrow> bytes \<Rightarrow> cache_item \<Rightarrow> bytes \<Rightarrow> nat \<Rightarrow> storage \<Rightarrow> storage" where
  "update_in_place now key item new_value additional_size s =
     (let (token, s1) = next_cas_unique s;
          item' = item\<lparr>ci_value := new_value, ci_cas_unique := token, ci_last_accessed := now\<rparr>
      in record_access key
           (s1\<lparr>st_data := AList.update key item' (st_data s1),
               st_memory_used := st_memory_used s1 + of_nat additional_size\<rparr>))"

definition append_item :: "nat \<Rightarrow> bytes \<Rightarrow> bytes \<Rightarrow> storage \<Rightarrow> storage \<times> storage_result outcome" where
  "append_item now key data_to_append s =
     (if st_poisoned s then (s, Panicked)
      else (case map_of (st_data s) key of
              None \<Rightarrow> (s, Returned NotStored)
            | Some item \<Rightarrow>
                if is_expired now item then (drop_expired key item s, Returned NotStored)
                else
                  let additional_size = length data_to_append in
                  if uadd (unat (st_memory_used s)) additional_size > st_max_memory s
                  then let s1 = ensure_memory_available now additional_size s in
                       (case map_of (st_data s1) key of
                          Some item1 \<Rightarrow>
                            if \<not> is_expired now item1
                            then (update_in_place now key item1 (ci_value item1 @ data_to_append)
                                    additional_size s1, Returned Stored)
                            else (s1, Returned NotStored)
                        | None \<Rightarrow> (s1, Returned NotStored))
                  else (update_in_place now key item (ci_value item @ data_to_append)
                          additional_size s, Returned Stored)))"

definition prepend_item :: "nat \<Rightarrow> bytes \<Rightarrow> bytes \<Rightarrow> storage \<Rightarrow> storage \<times> storage_result outcome" where
  "prepend_item now key data_to_prepend s =
     (if st_poisoned s then (s, Panicked)
      else (case map_of (st_data s) key of
              None \<Rightarrow> (s, Returned NotStored)
            | Some item \<Rightarrow>
                if is_expired now item then (drop_expired key item s, Returned NotStored)
                else
                  let additional_size = length data_to_prepend in
                  if uadd (unat (st_memory_used s)) additional_size > st_max_memory s
                  then let s1 = ensure_memory_available now additional_size s in
                       (case map_of (st_data s1) key of
                          Some item1 \<Rightarrow>
                            if \<not> is_expired now item1
                            then (update_in_place now key item1 (data_to_prepend @ ci_value item1)
                                    additional_size s1, Returned Stored)
                            else (s1, Returned NotStored)
                        | None \<Rightarrow> (s1, Returned NotStored))
                  else (update_in_place now key item (data_to_prepend @ ci_value item)
                          additional_size s, Returned Stored)))"

definition cleanup_expired :: "nat \<Rightarrow> storage \<Rightarrow> storage \<times> nat outcome" where
  "cleanup_expired now s =
     (if st_poisoned s then (s, Panicked)
      else let expired_keys =
                 filter (\<lambda>k. case map_of (st_data s) k of Some item \<Rightarrow> is_expired now item | None \<Rightarrow> False)
                   (hash_iter s (st_data s))
           in (delete_all expired_keys s, Returned (length expired_keys)))"

definition flush_all :: "storage \<Rightarrow> storage \<times> unit outcome" where
  "flush_all s =
     (if st_poisoned s then (s, Panicked)
      else (s\<lparr>st_data := [], st_access_order := [], st_memory_used := 0\<rparr>, Returned ()))"

definition stats :: "storage \<Rightarrow> storage_stats outcome" where
  "stats s =
     (if st_poisoned s then Panicked
      else Returned \<lparr>ss_item_count = length (st_data s),
                     ss_memory_used = unat (st_memory_used s),
                     ss_max_memory = st_max_memory s, ss_cas_counter = st_cas_counter s\<rparr>)"


section \<open>The invariant\<close>

text \<open>
  A store is well-formed when both maps have distinct keys and every stored key has a place in
  the access order. Its account is exact when \<^verbatim>\<open>memory_used\<close> is the total size of its entries,
  modulo \<open>2 ^ 64\<close> as the atomic counter computes it.
\<close>

definition storage_wf :: "storage \<Rightarrow> bool" where
  "storage_wf s =
     (hm_wf (st_data s) \<and> hm_wf (st_access_order s) \<and>
      set (hm_keys (st_data s)) \<subseteq> set (hm_keys (st_access_order s)))"

definition total_size :: "storage \<Rightarrow> nat" where
  "total_size s = hm_weight entry_size (st_data s)"

definition mem_exact :: "storage \<Rightarrow> bool" where
  "mem_exact s = (st_memory_used s = of_nat (total_size s))"

definition storage_inv :: "storage \<Rightarrow> bool" where
  "storage_inv s = (storage_wf s \<and> mem_exact s)"

named_theorems storage_defs \<open>unfolding the bookkeeping steps\<close>
lemmas [storage_defs] = record_access_def next_cas_unique_def drop_expired_def update_in_place_def

lemma storage_wf_alt:
  "storage_wf s \<longleftrightarrow>
     hm_wf (st_data s) \<and> hm_wf (st_access_order s) \<and>
     dom (map_of (st_data s)) \<subseteq> dom (map_of (st_access_order s))"
  by (simp add: storage_wf_def set_hm_keys)

lemma record_access_fields [simp]:
  "st_data (record_access k s) = st_data s"
  "st_memory_used (record_access k s) = st_memory_used s"
  "st_max_memory (record_access k s) = st_max_memory s"
  "st_poisoned (record_access k s) = st_poisoned s"
  "st_default_ttl (record_access k s) = st_default_ttl s"
  "st_cas_counter (record_access k s) = st_cas_counter s"
  "st_hash (record_access k s) = st_hash s"
  by (simp_all add: record_access_def)

lemma record_access_wf: "storage_wf s \<Longrightarrow> storage_wf (record_access k s)"
  by (auto simp: storage_wf_alt record_access_def hm_simps dom_def)

lemma record_access_wf_update:
  assumes "storage_wf s" "st_access_order s' = st_access_order s"
    "st_data s' = AList.update k v (st_data s)"
  shows "storage_wf (record_access k s')"
  using assms by (auto simp: storage_wf_alt record_access_def hm_simps dom_def)

lemma record_access_total [simp]: "total_size (record_access k s) = total_size s"
  by (simp add: total_size_def)

lemma record_access_exact [simp]: "mem_exact (record_access k s) = mem_exact s"
  by (simp add: mem_exact_def)

lemma record_access_inv: "storage_inv s \<Longrightarrow> storage_inv (record_access k s)"
  by (simp add: storage_inv_def record_access_wf mem_exact_def)

subsection \<open>Delete and drop\<close>

lemma delete_fields [simp]:
  "st_max_memory (fst (delete k s)) = st_max_memory s"
  "st_poisoned (fst (delete k s)) = st_poisoned s"
  "st_default_ttl (fst (delete k s)) = st_default_ttl s"
  "st_cas_counter (fst (delete k s)) = st_cas_counter s"
  "st_access_counter (fst (delete k s)) = st_access_counter s"
  "st_hash (fst (delete k s)) = st_hash s"
  by (simp_all add: delete_def split: option.split)

lemma delete_data:
  "\<not> st_poisoned s \<Longrightarrow> st_data (fst (delete k s)) = AList.delete k (st_data s)"
  by (simp add: delete_def delete_absent split: option.split)

lemma delete_le: "map_of (st_data (fst (delete k s))) \<subseteq>\<^sub>m map_of (st_data s)"
  by (auto simp: delete_def map_le_def hm_simps split: option.split)

lemma delete_wf: "storage_wf s \<Longrightarrow> storage_wf (fst (delete k s))"
  by (auto simp: delete_def storage_wf_alt dom_delete_hm split: option.split)

lemma delete_total:
  "storage_wf s \<Longrightarrow> \<not> st_poisoned s \<Longrightarrow> map_of (st_data s) k = Some it \<Longrightarrow>
    total_size s = entry_size (k, it) + total_size (fst (delete k s))"
  by (simp add: delete_def total_size_def storage_wf_def hm_weight_delete)

lemma delete_exact: "storage_wf s \<Longrightarrow> mem_exact s \<Longrightarrow> mem_exact (fst (delete k s))"
proof (cases "st_poisoned s")
  case False
  assume a: "storage_wf s" "mem_exact s"
  show ?thesis
  proof (cases "map_of (st_data s) k")
    case None
    with a show ?thesis by (simp add: delete_def)
  next
    case (Some it)
    then have "st_memory_used (fst (delete k s)) = st_memory_used s - of_nat (entry_size (k, it))"
      using False by (simp add: delete_def)
    with a delete_total [OF a(1) False Some] show ?thesis
      by (simp add: mem_exact_def)
  qed
qed (simp add: delete_def)

lemma delete_inv: "storage_inv s \<Longrightarrow> storage_inv (fst (delete k s))"
  by (simp add: storage_inv_def delete_wf delete_exact)

lemma drop_expired_delete:
  "\<not> st_poisoned s \<Longrightarrow> map_of (st_data s) k = Some it \<Longrightarrow>
    drop_expired k it s = (fst (delete k s))\<lparr>st_access_order := st_access_order s\<rparr>"
  by (simp add: drop_expired_def delete_def)

lemma drop_expired_inv:
  assumes "storage_inv s" "\<not> st_poisoned s" "map_of (st_data s) k = Some it"
  shows "storage_inv (drop_expired k it s)"
proof -
  have "mem_exact (fst (delete k s))" using assms by (simp add: storage_inv_def delete_exact)
  then have "mem_exact (drop_expired k it s)"
    using assms by (simp add: drop_expired_delete mem_exact_def total_size_def)
  moreover have "storage_wf (drop_expired k it s)"
    using assms by (auto simp: storage_inv_def storage_wf_alt drop_expired_def dom_delete_hm)
  ultimately show ?thesis by (simp add: storage_inv_def)
qed

lemma delete_all_preserves:
  "P s \<Longrightarrow> (\<And>s k. P s \<Longrightarrow> P (fst (delete k s))) \<Longrightarrow> P (delete_all ks s)"
  by (induction ks arbitrary: s) auto

lemma delete_all_fields [simp]:
  "st_max_memory (delete_all ks s) = st_max_memory s"
  "st_poisoned (delete_all ks s) = st_poisoned s"
  "st_cas_counter (delete_all ks s) = st_cas_counter s"
  by (induction ks arbitrary: s) simp_all

lemma delete_all_data:
  "\<not> st_poisoned s \<Longrightarrow>
    map_of (st_data (delete_all ks s)) k = (if k \<in> set ks then None else map_of (st_data s) k)"
  by (induction ks arbitrary: s) (auto simp: delete_data hm_simps)

subsection \<open>Eviction\<close>

text \<open>Whatever every deletion of a stored key preserves, eviction preserves.\<close>

lemma ensure_preserves:
  assumes "P s"
    and "\<And>s k it. P s \<Longrightarrow> \<not> st_poisoned s \<Longrightarrow> map_of (st_data s) k = Some it \<Longrightarrow> P (fst (delete k s))"
  shows "P (ensure_memory_available now needed s)"
  using assms(1)
proof (induction now needed s rule: ensure_memory_available.induct)
  case (1 now needed s)
  show ?case
  proof (cases "st_max_memory s < uadd (unat (st_memory_used s)) needed")
    case True
    show ?thesis
    proof (cases "find_lru_key now s")
      case None
      with 1(2) show ?thesis by (simp add: ensure_memory_available.simps [of now needed s])
    next
      case (Some k)
      from find_lru_key_mem [OF Some] 1(2) have "P (fst (delete k s))" by (auto intro: assms(2))
      with 1(1) [OF True Some] True Some show ?thesis
        by (simp add: ensure_memory_available.simps [of now needed s])
    qed
  next
    case False
    with 1(2) show ?thesis by (simp add: ensure_memory_available.simps [of now needed s])
  qed
qed

lemma ensure_fields [simp]:
  "st_max_memory (ensure_memory_available now n s) = st_max_memory s"
  "st_poisoned (ensure_memory_available now n s) = st_poisoned s"
  "st_default_ttl (ensure_memory_available now n s) = st_default_ttl s"
  "st_cas_counter (ensure_memory_available now n s) = st_cas_counter s"
  "st_access_counter (ensure_memory_available now n s) = st_access_counter s"
  "st_hash (ensure_memory_available now n s) = st_hash s"
  by (rule ensure_preserves [where P = "\<lambda>t. _ t = _ s"]; simp)+

lemma ensure_le:
  "map_of (st_data (ensure_memory_available now n s)) \<subseteq>\<^sub>m map_of (st_data s)"
  by (rule ensure_preserves [where P = "\<lambda>t. map_of (st_data t) \<subseteq>\<^sub>m map_of (st_data s)"])
    (auto intro: map_le_trans delete_le)

lemma ensure_wf: "storage_wf s \<Longrightarrow> storage_wf (ensure_memory_available now n s)"
  by (rule ensure_preserves) (simp_all add: delete_wf)

lemma ensure_inv: "storage_inv s \<Longrightarrow> storage_inv (ensure_memory_available now n s)"
  by (rule ensure_preserves) (simp_all add: delete_inv)

lemma ensure_idle:
  "uadd (unat (st_memory_used s)) n \<le> st_max_memory s \<Longrightarrow> ensure_memory_available now n s = s"
  by (subst ensure_memory_available.simps) simp

lemma find_lru_key_None: "\<not> st_poisoned s \<Longrightarrow> find_lru_key now s = None \<Longrightarrow> st_data s = []"
proof -
  assume "\<not> st_poisoned s" "find_lru_key now s = None"
  then have "hash_iter s (st_data s) = []"
    by (auto simp: find_lru_key_def split: option.splits list.splits)
  then have "set (hm_keys (st_data s)) = {}" by (metis set_hash_iter set_empty)
  then show ?thesis by (simp add: hm_keys_def)
qed

text \<open>The loop ends with room for the request or with an empty store.\<close>

lemma ensure_makes_room:
  "\<not> st_poisoned s \<Longrightarrow>
    (let t = ensure_memory_available now n s
     in uadd (unat (st_memory_used t)) n \<le> st_max_memory t \<or> st_data t = [])"
proof (induction now n s rule: ensure_memory_available.induct)
  case (1 now n s)
  show ?case
  proof (cases "st_max_memory s < uadd (unat (st_memory_used s)) n")
    case True
    show ?thesis
    proof (cases "find_lru_key now s")
      case None
      with True 1(2) show ?thesis
        by (simp add: ensure_memory_available.simps [of now n s] find_lru_key_None)
    next
      case (Some k)
      with True 1 show ?thesis by (simp add: ensure_memory_available.simps [of now n s])
    qed
  next
    case False
    then show ?thesis by (simp add: ensure_memory_available.simps [of now n s] not_less)
  qed
qed

subsection \<open>Set\<close>

definition new_item :: "nat \<Rightarrow> bytes \<Rightarrow> u32 \<Rightarrow> nat option \<Rightarrow> u64 \<Rightarrow> cache_item" where
  "new_item now v f e token =
     \<lparr>ci_value = v, ci_flags = f, ci_expires_at = e, ci_cas_unique = token, ci_last_accessed = now\<rparr>"

lemma new_item_fields [simp]:
  "ci_value (new_item now v f e t) = v" "ci_flags (new_item now v f e t) = f"
  "ci_expires_at (new_item now v f e t) = e" "ci_cas_unique (new_item now v f e t) = t"
  "ci_last_accessed (new_item now v f e t) = now"
  by (simp_all add: new_item_def)

lemma entry_size_new_item [simp]:
  "entry_size (k, new_item now v f e t) = size_of_cache_item + length v + length k"
  by (simp add: entry_size_def memory_size_def)

text \<open>What \<^verbatim>\<open>set\<close> does when neither the expiry nor the lock makes it panic.\<close>

lemma set_item_ok:
  fixes k v :: bytes and f :: u32
  assumes "\<not> st_poisoned s" "calculate_expiry now ttl s = Returned e"
  defines "item \<equiv> new_item now v f e (st_cas_counter s)"
  defines "t \<equiv> ensure_memory_available now (entry_size (k, item))
                 (s\<lparr>st_cas_counter := st_cas_counter s + 1\<rparr>)"
  defines "s' \<equiv> fst (set_item now k v f ttl s)"
  shows "set_item now k v f ttl s = (s', Returned Stored)"
    "st_data s' = AList.update k item (st_data t)"
    "st_memory_used s' =
       st_memory_used t
       - (case map_of (st_data t) k of Some old \<Rightarrow> of_nat (entry_size (k, old)) | None \<Rightarrow> 0)
       + of_nat (entry_size (k, item))"
    "st_access_order s' = AList.update k (st_access_counter s) (st_access_order t)"
    "st_access_counter s' = st_access_counter s + 1" "st_cas_counter s' = st_cas_counter s + 1"
    "st_max_memory s' = st_max_memory s" "\<not> st_poisoned s'" "st_hash s' = st_hash s"
    "st_default_ttl s' = st_default_ttl s"
proof -
  have item: "item = \<lparr>ci_value = v, ci_flags = f, ci_expires_at = e,
      ci_cas_unique = st_cas_counter s, ci_last_accessed = now\<rparr>"
    by (simp add: item_def new_item_def)
  let ?t = "case map_of (st_data t) k of
      Some old \<Rightarrow> t\<lparr>st_memory_used := st_memory_used t - of_nat (entry_size (k, old))\<rparr> | None \<Rightarrow> t"
  let ?s = "record_access k (?t\<lparr>st_memory_used := st_memory_used ?t + of_nat (entry_size (k, item)),
      st_data := AList.update k item (st_data ?t)\<rparr>)"
  have eq: "set_item now k v f ttl s = (?s, Returned Stored)"
    using assms(1)
    by (simp add: set_item_def assms(2) next_cas_unique_def Let_def t_def item entry_size_def
        split: option.split)
  then show "set_item now k v f ttl s = (s', Returned Stored)" by (simp add: s'_def)
  have s': "s' = ?s" using eq by (simp add: s'_def)
  show "st_data s' = AList.update k item (st_data t)"
    "st_memory_used s' =
       st_memory_used t
       - (case map_of (st_data t) k of Some old \<Rightarrow> of_nat (entry_size (k, old)) | None \<Rightarrow> 0)
       + of_nat (entry_size (k, item))"
    "st_max_memory s' = st_max_memory s" "\<not> st_poisoned s'" "st_hash s' = st_hash s"
    "st_cas_counter s' = st_cas_counter s + 1" "st_default_ttl s' = st_default_ttl s"
    using assms(1) by (simp_all add: s' t_def split: option.split)
  show "st_access_order s' = AList.update k (st_access_counter s) (st_access_order t)"
    "st_access_counter s' = st_access_counter s + 1"
    by (simp_all add: s' record_access_def t_def split: option.split)
qed

lemma set_item_panics:
  "calculate_expiry now ttl s = Panicked \<Longrightarrow> set_item now k v f ttl s = (s, Panicked)"
  by (simp add: set_item_def)

lemma set_item_poisoned:
  assumes "st_poisoned s"
  shows "snd (set_item now k v f ttl s) = Panicked
    \<and> storage_inv (fst (set_item now k v f ttl s)) = storage_inv s
    \<and> st_data (fst (set_item now k v f ttl s)) = st_data s
    \<and> st_max_memory (fst (set_item now k v f ttl s)) = st_max_memory s"
proof -
  have "find_lru_key now (s\<lparr>st_cas_counter := c\<rparr>) = None" for c
    using assms by (simp add: find_lru_key_def)
  then have "ensure_memory_available now n (s\<lparr>st_cas_counter := c\<rparr>) = s\<lparr>st_cas_counter := c\<rparr>" for n c
    by (subst ensure_memory_available.simps) simp
  with assms show ?thesis
    by (simp add: set_item_def next_cas_unique_def Let_def storage_inv_def storage_wf_def
        mem_exact_def total_size_def split: outcome.split)
qed

text \<open>
  The account after storing an entry: the old entry under the key, if any, is taken off, the
  new one is added.
\<close>

lemma update_exact:
  assumes "mem_exact t" "st_data s' = AList.update k it (st_data t)"
    "st_memory_used s' =
       st_memory_used t
       - (case map_of (st_data t) k of Some old \<Rightarrow> of_nat (entry_size (k, old)) | None \<Rightarrow> 0)
       + of_nat (entry_size (k, it))"
  shows "mem_exact s'"
proof (cases "map_of (st_data t) k")
  case None
  with assms show ?thesis
    by (simp add: mem_exact_def total_size_def hm_weight_update_absent)
next
  case (Some old)
  have "(of_nat (total_size s' + entry_size (k, old)) :: u64)
      = of_nat (total_size t + entry_size (k, it))"
    using hm_weight_update_present [OF Some, of entry_size it] assms(2) by (simp add: total_size_def)
  moreover have "st_memory_used s' + of_nat (entry_size (k, old))
      = of_nat (total_size t + entry_size (k, it))"
    using Some assms(1,3) by (simp add: mem_exact_def)
  ultimately have "st_memory_used s' + of_nat (entry_size (k, old))
      = of_nat (total_size s') + of_nat (entry_size (k, old))"
    by simp
  then show ?thesis by (simp only: add_right_cancel mem_exact_def)
qed

lemma update_wf:
  "storage_wf t \<Longrightarrow> st_data s' = AList.update k it (st_data t) \<Longrightarrow>
    st_access_order s' = AList.update k q (st_access_order t) \<Longrightarrow> storage_wf s'"
  by (simp add: storage_wf_alt dom_update_hm) blast

lemma set_item_inv: "storage_inv s \<Longrightarrow> storage_inv (fst (set_item now k v f ttl s))"
proof (cases "st_poisoned s")
  case True
  assume "storage_inv s"
  with True show ?thesis by (simp add: set_item_poisoned)
next
  case False
  assume inv: "storage_inv s"
  show ?thesis
  proof (cases "calculate_expiry now ttl s")
    case (Returned e)
    have "storage_inv (s\<lparr>st_cas_counter := st_cas_counter s + 1\<rparr>)"
      using inv by (simp add: storage_inv_def storage_wf_def mem_exact_def total_size_def)
    then have t: "storage_inv (ensure_memory_available now n (s\<lparr>st_cas_counter := st_cas_counter s + 1\<rparr>))"
      for n by (rule ensure_inv)
    note ok = set_item_ok [OF False Returned, of k v f]
    show ?thesis
      unfolding storage_inv_def
      using update_wf [OF _ ok(2) ok(4)] update_exact [OF _ ok(2) ok(3)] t [unfolded storage_inv_def]
      by blast
  qed (simp add: set_item_panics inv)
qed

subsection \<open>Update in place\<close>

lemma update_in_place_fields:
  "st_data (update_in_place now k it v n s) =
     AList.update k (it\<lparr>ci_value := v, ci_cas_unique := st_cas_counter s, ci_last_accessed := now\<rparr>)
       (st_data s)"
  "st_memory_used (update_in_place now k it v n s) = st_memory_used s + of_nat n"
  "st_max_memory (update_in_place now k it v n s) = st_max_memory s"
  "st_poisoned (update_in_place now k it v n s) = st_poisoned s"
  "st_access_order (update_in_place now k it v n s) =
     AList.update k (st_access_counter s) (st_access_order s)"
  "st_cas_counter (update_in_place now k it v n s) = st_cas_counter s + 1"
  by (simp_all add: update_in_place_def next_cas_unique_def record_access_def)

lemma update_in_place_inv:
  assumes "storage_inv s" "map_of (st_data s) k = Some it" "length v = length (ci_value it) + n"
  shows "storage_inv (update_in_place now k it v n s)"
proof -
  have "mem_exact (update_in_place now k it v n s)"
    using assms(1)
    by (intro update_exact [where t = s, OF _ update_in_place_fields(1)])
      (simp_all add: storage_inv_def update_in_place_fields(2) assms(2,3) entry_size_def
        memory_size_def)
  then show ?thesis
    using assms by (auto simp: storage_inv_def update_in_place_fields intro: update_wf)
qed

subsection \<open>The other operations\<close>

lemma get_inv: "storage_inv s \<Longrightarrow> storage_inv (fst (get now k s))"
  by (auto simp: get_def delete_inv record_access_inv split: option.split)

lemma get_multi_loop_inv:
  "storage_inv s \<Longrightarrow> storage_inv (fst (get_multi_loop now ks s rs es))"
  by (induction now ks s rs es rule: get_multi_loop.induct)
    (auto simp: record_access_inv split: option.split)

lemma get_multi_inv: "storage_inv s \<Longrightarrow> storage_inv (fst (get_multi now ks s))"
  using get_multi_loop_inv [of s now ks "[]" "[]"]
  by (auto simp: get_multi_def split: prod.splits intro: delete_all_preserves delete_inv)

lemma add_inv: "storage_inv s \<Longrightarrow> storage_inv (fst (add now k v f ttl s))"
  by (auto simp: add_def set_item_inv split: option.split)

lemma replace_inv: "storage_inv s \<Longrightarrow> storage_inv (fst (replace now k v f ttl s))"
  by (auto simp: replace_def set_item_inv split: option.split)

lemma append_item_inv: "storage_inv s \<Longrightarrow> storage_inv (fst (append_item now k d s))"
  by (auto simp: append_item_def Let_def drop_expired_inv ensure_inv update_in_place_inv
      split: option.split)

lemma prepend_item_inv: "storage_inv s \<Longrightarrow> storage_inv (fst (prepend_item now k d s))"
  by (auto simp: prepend_item_def Let_def drop_expired_inv ensure_inv update_in_place_inv
      split: option.split)

lemma cleanup_expired_inv: "storage_inv s \<Longrightarrow> storage_inv (fst (cleanup_expired now s))"
  by (auto simp: cleanup_expired_def Let_def intro: delete_all_preserves delete_inv)

lemma flush_all_inv: "storage_inv s \<Longrightarrow> storage_inv (fst (flush_all s))"
  by (simp add: flush_all_def storage_inv_def storage_wf_def hm_keys_def mem_exact_def total_size_def)

lemma storage_new_inv: "storage_inv (storage_new h m ttl)"
  by (simp add: storage_new_def storage_inv_def storage_wf_def hm_keys_def mem_exact_def total_size_def)

lemmas storage_inv_intros = get_inv get_multi_inv set_item_inv add_inv replace_inv append_item_inv
  prepend_item_inv cleanup_expired_inv flush_all_inv delete_inv drop_expired_inv

end
