(* ===== verification/Storage_Spec.thy ===== *)
theory Storage_Spec
  imports Storage
begin

text \<open>
  What the store promises. The operations of \<^verbatim>\<open>src/src/storage.rs\<close> are collected in one step
  function; the theory then states the contract of a lossy cache as a reference map that never
  forgets, proves that the store simulates it (what a read returns is what the last write put
  there), bounds the memory in use over any run, and gives the results of each operation.
\<close>

section \<open>One step of the store\<close>

datatype storage_op =
    OGet nat bytes
  | OGetMulti nat "bytes list"
  | OSet nat bytes bytes u32 u64
  | OAdd nat bytes bytes u32 u64
  | OReplace nat bytes bytes u32 u64
  | OCas nat bytes bytes u32 u64 u64
  | ODelete bytes
  | OAppend nat bytes bytes
  | OPrepend nat bytes bytes
  | OCleanup nat
  | OFlush

datatype op_result =
    RItem "cache_item option"
  | RItems "(bytes \<times> cache_item) list"
  | RRes storage_result
  | RCount nat
  | RUnit
  | RPanic

definition ret :: "('a \<Rightarrow> op_result) \<Rightarrow> 'a outcome \<Rightarrow> op_result" where
  "ret f r = (case r of Returned x \<Rightarrow> f x | Panicked \<Rightarrow> RPanic)"

fun storage_step :: "storage_op \<Rightarrow> storage \<Rightarrow> storage \<times> op_result" where
  "storage_step (OGet now k) s = apsnd RItem (get now k s)"
| "storage_step (OGetMulti now ks) s = apsnd (ret RItems) (get_multi now ks s)"
| "storage_step (OSet now k v f ttl) s = apsnd (ret RRes) (set_item now k v f ttl s)"
| "storage_step (OAdd now k v f ttl) s = apsnd (ret RRes) (add now k v f ttl s)"
| "storage_step (OReplace now k v f ttl) s = apsnd (ret RRes) (replace now k v f ttl s)"
| "storage_step (OCas now k v f ttl c) s = apsnd (ret RRes) (cas now k v f ttl c s)"
| "storage_step (ODelete k) s = apsnd (ret RRes) (delete k s)"
| "storage_step (OAppend now k d) s = apsnd (ret RRes) (append_item now k d s)"
| "storage_step (OPrepend now k d) s = apsnd (ret RRes) (prepend_item now k d s)"
| "storage_step (OCleanup now) s = apsnd (ret RCount) (cleanup_expired now s)"
| "storage_step OFlush s = apsnd (ret (\<lambda>_. RUnit)) (flush_all s)"

section \<open>The reference map\<close>

type_synonym cached = "bytes \<times> u32 \<times> nat option"

definition expiry_of :: "u64 \<Rightarrow> nat \<Rightarrow> u64 \<Rightarrow> nat option" where
  "expiry_of d now ttl =
     (let eff = (if ttl = 0 then d else ttl)
      in if eff = 0 then None else Some (now + unat eff * 10 ^ 9))"

fun ref_step :: "u64 \<Rightarrow> storage_op \<Rightarrow> op_result \<Rightarrow> (bytes \<rightharpoonup> cached) \<Rightarrow> (bytes \<rightharpoonup> cached)" where
  "ref_step d (OSet now k v f ttl) r m =
     (if r = RRes Stored then m(k \<mapsto> (v, f, expiry_of d now ttl)) else m)"
| "ref_step d (OAdd now k v f ttl) r m =
     (if r = RRes Stored then m(k \<mapsto> (v, f, expiry_of d now ttl)) else m)"
| "ref_step d (OReplace now k v f ttl) r m =
     (if r = RRes Stored then m(k \<mapsto> (v, f, expiry_of d now ttl)) else m)"
| "ref_step d (OCas now k v f ttl c) r m =
     (if r = RRes Stored then m(k \<mapsto> (v, f, expiry_of d now ttl)) else m)"
| "ref_step d (OAppend now k x) r m =
     (case m k of
        Some (v, f, e) \<Rightarrow> if r = RRes Stored then m(k \<mapsto> (v @ x, f, e)) else m
      | None \<Rightarrow> m)"
| "ref_step d (OPrepend now k x) r m =
     (case m k of
        Some (v, f, e) \<Rightarrow> if r = RRes Stored then m(k \<mapsto> (x @ v, f, e)) else m
      | None \<Rightarrow> m)"
| "ref_step d (ODelete k) r m = (if r = RPanic then m else m(k := None))"
| "ref_step d OFlush r m = (if r = RPanic then m else Map.empty)"
| "ref_step d (OGet now k) r m = m"
| "ref_step d (OGetMulti now ks) r m = m"
| "ref_step d (OCleanup now) r m = m"

definition cached_of :: "cache_item \<Rightarrow> cached" where
  "cached_of it = (ci_value it, ci_flags it, ci_expires_at it)"

definition contents :: "storage \<Rightarrow> bytes \<rightharpoonup> cached" where
  "contents s k = map_option cached_of (map_of (st_data s) k)"

text \<open>The store may have forgotten entries, and holds nothing the reference map does not.\<close>

definition cache_rel :: "u64 \<Rightarrow> storage \<Rightarrow> (bytes \<rightharpoonup> cached) \<Rightarrow> bool" where
  "cache_rel d s m = (st_default_ttl s = d \<and> contents s \<subseteq>\<^sub>m m)"

lemma contents_mono: "map_of (st_data t) \<subseteq>\<^sub>m map_of (st_data s) \<Longrightarrow> contents t \<subseteq>\<^sub>m contents s"
  by (force simp: map_le_def contents_def dom_def)

lemma contents_update: "contents s' = (contents t)(k \<mapsto> cached_of it)"
  if "st_data s' = AList.update k it (st_data t)"
  using that by (auto simp: contents_def fun_eq_iff hm_simps)

lemma contents_delete_all:
  "\<not> st_poisoned s \<Longrightarrow> contents (delete_all ks s) \<subseteq>\<^sub>m contents s"
  by (rule contents_mono) (auto simp: map_le_def delete_all_data dom_def)

lemma contents_record_access [simp]: "contents (record_access k s) = contents s"
  by (simp add: contents_def fun_eq_iff)

lemma calculate_expiry_of:
  "calculate_expiry now ttl s = Returned e \<Longrightarrow> e = expiry_of (st_default_ttl s) now ttl"
  by (auto simp: calculate_expiry_def expiry_of_def Let_def split: if_splits)

subsection \<open>Each operation\<close>

lemma get_cases:
  obtains (poisoned) "st_poisoned s" "get now k s = (s, None)"
  | (absent) "\<not> st_poisoned s" "map_of (st_data s) k = None" "get now k s = (s, None)"
  | (expired) it where "\<not> st_poisoned s" "map_of (st_data s) k = Some it" "is_expired now it"
      "get now k s = (fst (delete k s), None)"
  | (hit) it where "\<not> st_poisoned s" "map_of (st_data s) k = Some it" "\<not> is_expired now it"
      "get now k s = (record_access k s, Some it)"
  by (cases "map_of (st_data s) k") (auto simp: get_def split: if_splits)

lemma get_contents: "contents (fst (get now k s)) \<subseteq>\<^sub>m contents s"
  by (cases rule: get_cases [of s now k]) (auto intro: contents_mono delete_le)

lemma get_default_ttl [simp]: "st_default_ttl (fst (get now k s)) = st_default_ttl s"
  by (cases rule: get_cases [of s now k]) auto

lemma get_multi_loop_frame:
  "st_data (fst (get_multi_loop now ks s rs es)) = st_data s \<and>
   st_poisoned (fst (get_multi_loop now ks s rs es)) = st_poisoned s \<and>
   st_max_memory (fst (get_multi_loop now ks s rs es)) = st_max_memory s \<and>
   st_cas_counter (fst (get_multi_loop now ks s rs es)) = st_cas_counter s \<and>
   st_default_ttl (fst (get_multi_loop now ks s rs es)) = st_default_ttl s"
  by (induction now ks s rs es rule: get_multi_loop.induct) (auto split: option.split)

lemma delete_all_default_ttl [simp]: "st_default_ttl (delete_all ks s) = st_default_ttl s"
  by (induction ks arbitrary: s) simp_all

lemma get_multi_contents:
  "contents (fst (get_multi now ks s)) \<subseteq>\<^sub>m contents s \<and>
   st_default_ttl (fst (get_multi now ks s)) = st_default_ttl s"
proof (cases "st_poisoned s")
  case False
  obtain t rs es where t: "get_multi_loop now ks s [] [] = (t, rs, es)" by (metis prod_cases3)
  with get_multi_loop_frame [of now ks s "[]" "[]"]
  have "st_data t = st_data s" "\<not> st_poisoned t" "st_default_ttl t = st_default_ttl s"
    using False by auto
  then have "contents (delete_all es t) \<subseteq>\<^sub>m contents s"
    using contents_delete_all [of t es] by (simp add: contents_def [abs_def])
  with t \<open>st_default_ttl t = _\<close> False show ?thesis by (simp add: get_multi_def)
qed (simp add: get_multi_def)

lemma set_item_Stored:
  assumes "set_item now k v f ttl s = (s', Returned r)"
  shows "r = Stored \<and> st_default_ttl s' = st_default_ttl s \<and> \<not> st_poisoned s \<and> \<not> st_poisoned s' \<and>
    st_max_memory s' = st_max_memory s \<and>
    (\<exists>c. c \<subseteq>\<^sub>m contents s \<and> contents s' = c(k \<mapsto> (v, f, expiry_of (st_default_ttl s) now ttl)))"
proof -
  have np: "\<not> st_poisoned s" using assms set_item_poisoned [of s now k v f ttl] by auto
  obtain e where e: "calculate_expiry now ttl s = Returned e"
    using assms by (cases "calculate_expiry now ttl s") (auto simp: set_item_panics)
  note ok = set_item_ok [OF np e, of k v f]
  let ?t = "ensure_memory_available now (entry_size (k, new_item now v f e (st_cas_counter s)))
              (s\<lparr>st_cas_counter := st_cas_counter s + 1\<rparr>)"
  have "contents ?t \<subseteq>\<^sub>m contents s"
    using contents_mono [OF ensure_le [of now _ "s\<lparr>st_cas_counter := st_cas_counter s + 1\<rparr>"]]
    by (simp add: contents_def [abs_def])
  moreover have "contents s' = (contents ?t)(k \<mapsto> (v, f, e))"
    using contents_update [OF ok(2)] assms by (simp add: cached_of_def)
  ultimately show ?thesis
    using ok(1,7,8,10) np assms calculate_expiry_of [OF e] by auto
qed

lemma set_item_not_Stored:
  assumes "set_item now k v f ttl s = (s', Panicked)"
  shows "st_data s' = st_data s \<and> st_default_ttl s' = st_default_ttl s"
proof (cases "st_poisoned s")
  case True
  then show ?thesis
    using set_item_poisoned [OF True, of now k v f ttl] assms
    by (auto simp: set_item_def Let_def next_cas_unique_def split: outcome.splits if_splits
        option.splits)
next
  case False
  then have "calculate_expiry now ttl s = Panicked"
    using assms set_item_ok(1) [OF False, of now ttl _ k v f]
    by (metis outcome.distinct(1) outcome.exhaust prod.inject)
  with assms show ?thesis by (simp add: set_item_panics)
qed

text \<open>The outcome of a conditional or unconditional store, from the reference map's side.\<close>

definition stores :: "storage \<Rightarrow> bytes \<Rightarrow> cached \<Rightarrow> storage \<times> storage_result outcome \<Rightarrow> bool" where
  "stores s k c r =
     (st_default_ttl (fst r) = st_default_ttl s \<and>
      (if snd r = Returned Stored
       then \<exists>m. m \<subseteq>\<^sub>m contents s \<and> contents (fst r) = m(k \<mapsto> c)
       else contents (fst r) \<subseteq>\<^sub>m contents s))"

lemma stores_same: "r \<noteq> Returned Stored \<Longrightarrow> stores s k c (s, r)"
  by (simp add: stores_def)

lemma set_item_stores:
  "stores s k (v, f, expiry_of (st_default_ttl s) now ttl) (set_item now k v f ttl s)"
proof -
  obtain s' r where r: "set_item now k v f ttl s = (s', r)" by fastforce
  show ?thesis
  proof (cases r)
    case (Returned x)
    with r set_item_Stored [of now k v f ttl s s' x] show ?thesis by (simp add: stores_def)
  next
    case Panicked
    with r set_item_not_Stored [of now k v f ttl s s'] have "contents s' = contents s"
      by (simp add: contents_def [abs_def])
    with r Panicked set_item_not_Stored [of now k v f ttl s s'] show ?thesis
      by (simp add: stores_def)
  qed
qed

lemma add_stores:
  "stores s k (v, f, expiry_of (st_default_ttl s) now ttl) (add now k v f ttl s)"
  by (auto simp: add_def set_item_stores stores_same split: option.split)

lemma replace_stores:
  "stores s k (v, f, expiry_of (st_default_ttl s) now ttl) (replace now k v f ttl s)"
  by (auto simp: replace_def set_item_stores stores_same split: option.split)

lemma drop_expired_contents:
  "contents (drop_expired k it s) \<subseteq>\<^sub>m contents s"
  by (rule contents_mono) (auto simp: drop_expired_def map_le_def hm_simps)

lemma drop_expired_default_ttl [simp]: "st_default_ttl (drop_expired k it s) = st_default_ttl s"
  by (simp add: drop_expired_def)

text \<open>\<^verbatim>\<open>cas\<close> on a live item with the right token, when the expiry does not overflow.\<close>

lemma cas_match:
  fixes k v :: bytes and f :: u32
  assumes "\<not> st_poisoned s" "map_of (st_data s) k = Some old" "\<not> is_expired now old"
    "ci_cas_unique old = c" "calculate_expiry now ttl s = Returned e"
  defines "item \<equiv> new_item now v f e (st_cas_counter s)"
  defines "t \<equiv> ensure_memory_available now (entry_size (k, item))
      (s\<lparr>st_cas_counter := st_cas_counter s + 1,
         st_memory_used := st_memory_used s - of_nat (entry_size (k, old))\<rparr>)"
  defines "s' \<equiv> fst (cas now k v f ttl c s)"
  shows "cas now k v f ttl c s = (s', Returned Stored)"
    "st_data s' = AList.update k item (st_data t)"
    "st_memory_used s' = st_memory_used t + of_nat (entry_size (k, item))"
    "st_access_order s' = AList.update k (st_access_counter s) (st_access_order t)"
    "st_cas_counter s' = st_cas_counter s + 1" "st_max_memory s' = st_max_memory s"
    "\<not> st_poisoned s'" "st_default_ttl s' = st_default_ttl s"
proof -
  have item: "item = \<lparr>ci_value = v, ci_flags = f, ci_expires_at = e,
      ci_cas_unique = st_cas_counter s, ci_last_accessed = now\<rparr>"
    by (simp add: item_def new_item_def)
  have eq: "cas now k v f ttl c s =
      (record_access k (t\<lparr>st_memory_used := st_memory_used t + of_nat (entry_size (k, item)),
         st_data := AList.update k item (st_data t)\<rparr>), Returned Stored)"
    using assms(1-5)
    by (simp add: cas_def next_cas_unique_def Let_def t_def item entry_size_def)
  then show "cas now k v f ttl c s = (s', Returned Stored)" by (simp add: s'_def)
  have s': "s' = record_access k
      (t\<lparr>st_memory_used := st_memory_used t + of_nat (entry_size (k, item)),
         st_data := AList.update k item (st_data t)\<rparr>)"
    using eq by (simp add: s'_def)
  show "st_data s' = AList.update k item (st_data t)"
    "st_memory_used s' = st_memory_used t + of_nat (entry_size (k, item))"
    "st_cas_counter s' = st_cas_counter s + 1" "st_max_memory s' = st_max_memory s"
    "\<not> st_poisoned s'" "st_default_ttl s' = st_default_ttl s"
    using assms(1) by (simp_all add: s' t_def)
  show "st_access_order s' = AList.update k (st_access_counter s) (st_access_order t)"
    by (simp add: s' record_access_def t_def)
qed

lemma cas_cases:
  obtains (poisoned) "st_poisoned s" "cas now k v f ttl c s = (s, Panicked)"
  | (absent) "\<not> st_poisoned s" "map_of (st_data s) k = None"
      "cas now k v f ttl c s = (s, Returned NotFound)"
  | (expired) it where "\<not> st_poisoned s" "map_of (st_data s) k = Some it" "is_expired now it"
      "cas now k v f ttl c s = (drop_expired k it s, Returned NotFound)"
  | (mismatch) it where "\<not> st_poisoned s" "map_of (st_data s) k = Some it" "\<not> is_expired now it"
      "ci_cas_unique it \<noteq> c" "cas now k v f ttl c s = (s, Returned CasMismatch)"
  | (overflow) it where "\<not> st_poisoned s" "map_of (st_data s) k = Some it" "\<not> is_expired now it"
      "ci_cas_unique it = c" "calculate_expiry now ttl s = Panicked"
      "cas now k v f ttl c s = (s\<lparr>st_poisoned := True\<rparr>, Panicked)"
  | (match) it e where "\<not> st_poisoned s" "map_of (st_data s) k = Some it" "\<not> is_expired now it"
      "ci_cas_unique it = c" "calculate_expiry now ttl s = Returned e"
proof (cases "st_poisoned s")
  case True
  then show ?thesis by (intro poisoned) (simp_all add: cas_def)
next
  case np: False
  show ?thesis
  proof (cases "map_of (st_data s) k")
    case None
    with np show ?thesis by (intro absent) (simp_all add: cas_def)
  next
    case (Some it)
    show ?thesis
    proof (cases "is_expired now it \<or> ci_cas_unique it \<noteq> c")
      case True
      with np Some show ?thesis by (cases "is_expired now it") (auto simp: cas_def intro: expired mismatch)
    next
      case False
      with np Some show ?thesis
        by (cases "calculate_expiry now ttl s") (auto simp: cas_def intro: overflow match)
    qed
  qed
qed

lemma cas_stores:
  "stores s k (v, f, expiry_of (st_default_ttl s) now ttl) (cas now k v f ttl c s)"
proof (cases rule: cas_cases [of s now k v f ttl c])
  case (expired it)
  then show ?thesis by (simp add: stores_def drop_expired_contents)
next
  case (overflow it)
  then show ?thesis by (simp add: stores_def contents_def [abs_def])
next
  case (match it e)
  note ok = cas_match [OF match, of v f]
  let ?s = "s\<lparr>st_cas_counter := st_cas_counter s + 1,
         st_memory_used := st_memory_used s - of_nat (entry_size (k, it))\<rparr>"
  let ?t = "ensure_memory_available now (entry_size (k, new_item now v f e (st_cas_counter s))) ?s"
  have "contents ?t \<subseteq>\<^sub>m contents ?s" by (intro contents_mono ensure_le)
  then have "contents ?t \<subseteq>\<^sub>m contents s" by (simp add: contents_def [abs_def])
  moreover have "contents (fst (cas now k v f ttl c s)) = (contents ?t)(k \<mapsto> (v, f, e))"
    using contents_update [OF ok(2)] by (simp add: cached_of_def)
  moreover have "snd (cas now k v f ttl c s) = Returned Stored" using ok(1) by (metis snd_conv)
  ultimately show ?thesis
    using ok(8) calculate_expiry_of [OF match(5)] by (auto simp: stores_def)
qed (simp_all add: stores_same)

text \<open>
  \<^verbatim>\<open>append\<close> and \<^verbatim>\<open>prepend\<close> end in the same few ways; \<open>g\<close> builds the new value from the old.
\<close>

definition extends ::
  "nat \<Rightarrow> bytes \<Rightarrow> (bytes \<Rightarrow> bytes) \<Rightarrow> nat \<Rightarrow> storage \<Rightarrow> storage \<times> storage_result outcome \<Rightarrow> bool" where
  "extends now k g n s r =
     (r = (s, Panicked) \<and> st_poisoned s \<or>
      snd r = Returned NotStored \<and> \<not> st_poisoned s \<and>
        (fst r = s \<or> fst r = ensure_memory_available now n s \<or>
         (\<exists>it. map_of (st_data s) k = Some it \<and> is_expired now it \<and> fst r = drop_expired k it s)) \<or>
      (\<exists>t it. (t = s \<and> uadd (unat (st_memory_used s)) n \<le> st_max_memory s
                 \<or> t = ensure_memory_available now n s) \<and>
         \<not> st_poisoned s \<and> map_of (st_data t) k = Some it \<and> \<not> is_expired now it \<and>
         map_of (st_data s) k = Some it \<and>
         r = (update_in_place now k it (g (ci_value it)) n t, Returned Stored)))"

lemma ensure_lookup:
  "map_of (st_data (ensure_memory_available now n s)) k = Some it \<Longrightarrow> map_of (st_data s) k = Some it"
  using ensure_le [of now n s] by (force simp: map_le_def dom_def)

lemma extends_body:
  "extends now k g n s
     (if st_poisoned s then (s, Panicked)
      else (case map_of (st_data s) k of
              None \<Rightarrow> (s, Returned NotStored)
            | Some item \<Rightarrow>
                if is_expired now item then (drop_expired k item s, Returned NotStored)
                else if uadd (unat (st_memory_used s)) n > st_max_memory s
                then (case map_of (st_data (ensure_memory_available now n s)) k of
                        Some item1 \<Rightarrow>
                          if \<not> is_expired now item1
                          then (update_in_place now k item1 (g (ci_value item1)) n
                                  (ensure_memory_available now n s), Returned Stored)
                          else (ensure_memory_available now n s, Returned NotStored)
                      | None \<Rightarrow> (ensure_memory_available now n s, Returned NotStored))
                else (update_in_place now k item (g (ci_value item)) n s, Returned Stored)))"
  (is "extends now k g n s ?r")
proof (cases "map_of (st_data s) k")
  case None
  then show ?thesis by (simp add: extends_def)
next
  case (Some it)
  show ?thesis
  proof (cases "st_poisoned s \<or> is_expired now it")
    case True
    with Some show ?thesis by (auto simp: extends_def)
  next
    case live: False
    show ?thesis
    proof (cases "uadd (unat (st_memory_used s)) n \<le> st_max_memory s")
      case True
      with live Some show ?thesis by (auto simp: extends_def)
    next
      case False
      with live Some ensure_lookup [of now n s k] show ?thesis
        by (cases "map_of (st_data (ensure_memory_available now n s)) k") (auto simp: extends_def)
    qed
  qed
qed

lemma append_item_extends: "extends now k (\<lambda>v. v @ d) (length d) s (append_item now k d s)"
  unfolding append_item_def Let_def by (rule extends_body)

lemma prepend_item_extends: "extends now k (\<lambda>v. d @ v) (length d) s (prepend_item now k d s)"
  unfolding prepend_item_def Let_def by (rule extends_body)

lemma extendsE:
  assumes "extends now k g n s r"
  obtains (panic) "r = (s, Panicked)" "st_poisoned s"
  | (same) "r = (s, Returned NotStored)" "\<not> st_poisoned s"
  | (evicted) "r = (ensure_memory_available now n s, Returned NotStored)" "\<not> st_poisoned s"
  | (expired) it where "map_of (st_data s) k = Some it" "is_expired now it" "\<not> st_poisoned s"
      "r = (drop_expired k it s, Returned NotStored)"
  | (stored) t it where
      "t = s \<and> uadd (unat (st_memory_used s)) n \<le> st_max_memory s \<or> t = ensure_memory_available now n s"
      "\<not> st_poisoned s" "map_of (st_data t) k = Some it" "\<not> is_expired now it"
      "map_of (st_data s) k = Some it"
      "r = (update_in_place now k it (g (ci_value it)) n t, Returned Stored)"
  using assms unfolding extends_def by (cases r) (auto; blast)

lemma update_in_place_default_ttl [simp]:
  "st_default_ttl (update_in_place now k it v n s) = st_default_ttl s"
  by (simp add: update_in_place_def next_cas_unique_def)

text \<open>From the reference map's side: an extended entry, or a store that holds no more.\<close>

lemma extends_contents:
  assumes "extends now k g n s r"
  shows "st_default_ttl (fst r) = st_default_ttl s \<and>
    (if snd r = Returned Stored
     then \<exists>m v f e. m \<subseteq>\<^sub>m contents s \<and> contents s k = Some (v, f, e) \<and>
            contents (fst r) = m(k \<mapsto> (g v, f, e))
     else contents (fst r) \<subseteq>\<^sub>m contents s)"
  using assms
proof (cases rule: extendsE)
  case evicted
  then show ?thesis by (simp add: contents_mono ensure_le)
next
  case (expired it)
  then show ?thesis by (simp add: drop_expired_contents)
next
  case (stored t it)
  have "map_of (st_data t) \<subseteq>\<^sub>m map_of (st_data s)" using stored(1) ensure_le by auto
  then have "contents t \<subseteq>\<^sub>m contents s" by (rule contents_mono)
  moreover have "contents s k = Some (ci_value it, ci_flags it, ci_expires_at it)"
    using stored by (simp add: contents_def cached_of_def)
  moreover have "contents (fst r) = (contents t)(k \<mapsto> (g (ci_value it), ci_flags it, ci_expires_at it))"
    using stored(6) contents_update [OF update_in_place_fields(1)] by (simp add: cached_of_def)
  moreover have "st_default_ttl t = st_default_ttl s" using stored(1) by auto
  ultimately show ?thesis using stored(6) by auto
qed auto

subsection \<open>The store implements the reference map\<close>

lemma ref_step_stores:
  assumes "stores s k c r" "cache_rel d s m"
  shows "cache_rel d (fst r)
           (if ret RRes (snd r) = RRes Stored then m(k \<mapsto> c) else m)"
proof -
  have m: "contents s \<subseteq>\<^sub>m m" "st_default_ttl s = d" using assms(2) by (auto simp: cache_rel_def)
  show ?thesis
  proof (cases "snd r = Returned Stored")
    case True
    with assms(1) m show ?thesis
      by (auto simp: cache_rel_def stores_def ret_def map_le_def dom_def)
  next
    case False
    with assms(1) m have "contents (fst r) \<subseteq>\<^sub>m m"
      by (auto simp: stores_def intro: map_le_trans)
    with False assms(1) m show ?thesis
      by (auto simp: cache_rel_def stores_def ret_def split: outcome.split)
  qed
qed

lemma ref_step_extends:
  assumes "extends now k g n s r" "cache_rel d s m"
  shows "cache_rel d (fst r)
           (case m k of
              Some (v, f, e) \<Rightarrow> if ret RRes (snd r) = RRes Stored then m(k \<mapsto> (g v, f, e)) else m
            | None \<Rightarrow> m)"
proof -
  have m: "contents s \<subseteq>\<^sub>m m" "st_default_ttl s = d" using assms(2) by (auto simp: cache_rel_def)
  note ec = extends_contents [OF assms(1)]
  show ?thesis
  proof (cases "snd r = Returned Stored")
    case True
    with ec obtain m' v f e where *: "m' \<subseteq>\<^sub>m contents s" "contents s k = Some (v, f, e)"
      "contents (fst r) = m'(k \<mapsto> (g v, f, e))" by auto
    have "m k = Some (v, f, e)" using *(2) m(1) by (force simp: map_le_def)
    moreover have "m' \<subseteq>\<^sub>m m" using *(1) m(1) by (rule map_le_trans)
    ultimately show ?thesis
      using * True ec m by (auto simp: cache_rel_def ret_def map_le_def dom_def)
  next
    case False
    with ec m have "contents (fst r) \<subseteq>\<^sub>m m" by (auto intro: map_le_trans)
    with False ec m show ?thesis
      by (auto simp: cache_rel_def ret_def split: outcome.split option.split)
  qed
qed

lemma cache_rel_smaller:
  "cache_rel d s m \<Longrightarrow> contents t \<subseteq>\<^sub>m contents s \<Longrightarrow> st_default_ttl t = st_default_ttl s \<Longrightarrow> cache_rel d t m"
  by (auto simp: cache_rel_def intro: map_le_trans)

lemma delete_cache_rel:
  assumes "cache_rel d s m"
  shows "cache_rel d (fst (delete k s)) (ref_step d (ODelete k) (ret RRes (snd (delete k s))) m)"
proof (cases "st_poisoned s")
  case True
  with assms show ?thesis by (simp add: delete_def ret_def)
next
  case False
  then obtain r where "snd (delete k s) = Returned r"
    by (cases "map_of (st_data s) k") (auto simp: delete_def)
  moreover have "contents (fst (delete k s)) = (contents s)(k := None)"
    using False by (auto simp: contents_def fun_eq_iff delete_data hm_simps)
  ultimately show ?thesis
    using assms by (auto simp: cache_rel_def ret_def map_le_def)
qed

lemma flush_cache_rel:
  "cache_rel d s m \<Longrightarrow>
    cache_rel d (fst (flush_all s)) (ref_step d OFlush (ret (\<lambda>_. RUnit) (snd (flush_all s))) m)"
  by (auto simp: flush_all_def ret_def cache_rel_def contents_def map_le_def dom_def)

lemma cleanup_contents:
  "contents (fst (cleanup_expired now s)) \<subseteq>\<^sub>m contents s \<and>
   st_default_ttl (fst (cleanup_expired now s)) = st_default_ttl s"
  by (simp add: cleanup_expired_def Let_def contents_delete_all)

interpretation cache: simulation storage_step "ref_step d" "cache_rel d" for d
proof
  fix s m op
  assume rel: "cache_rel d s m"
  then have d: "st_default_ttl s = d" by (simp add: cache_rel_def)
  show "cache_rel d (fst (storage_step op s)) (ref_step d op (snd (storage_step op s)) m)"
  proof (cases op)
    case (OGet now k)
    with rel show ?thesis by (auto intro: cache_rel_smaller get_contents)
  next
    case (OGetMulti now ks)
    with rel get_multi_contents [of now ks s] show ?thesis by (auto intro: cache_rel_smaller)
  next
    case (OCleanup now)
    with rel cleanup_contents [of now s] show ?thesis by (auto intro: cache_rel_smaller)
  next
    case (ODelete k)
    with delete_cache_rel [OF rel] show ?thesis by simp
  next
    case OFlush
    with flush_cache_rel [OF rel] show ?thesis by simp
  next
    case (OSet now k v f ttl)
    with ref_step_stores [OF set_item_stores rel, unfolded d] show ?thesis by simp
  next
    case (OAdd now k v f ttl)
    with ref_step_stores [OF add_stores rel, unfolded d] show ?thesis by simp
  next
    case (OReplace now k v f ttl)
    with ref_step_stores [OF replace_stores rel, unfolded d] show ?thesis by simp
  next
    case (OCas now k v f ttl c)
    with ref_step_stores [OF cas_stores rel, unfolded d] show ?thesis by simp
  next
    case (OAppend now k x)
    with ref_step_extends [OF append_item_extends rel] show ?thesis by simp
  next
    case (OPrepend now k x)
    with ref_step_extends [OF prepend_item_extends rel] show ?thesis by simp
  qed
qed


section \<open>The memory cap\<close>

lemma total_size_mono: "storage_wf s \<Longrightarrow> total_size (fst (delete k s)) \<le> total_size s"
proof (cases "st_poisoned s \<or> map_of (st_data s) k = None")
  case True
  then show ?thesis by (auto simp: delete_def)
next
  case False
  assume "storage_wf s"
  with False delete_total [of s k] show ?thesis by auto
qed

lemma ensure_total_size:
  "storage_wf s \<Longrightarrow> total_size (ensure_memory_available now n s) \<le> total_size s"
  by (rule ensure_preserves [where P = "\<lambda>t. storage_wf t \<and> total_size t \<le> total_size s",
        THEN conjunct2])
    (auto intro: order.trans total_size_mono delete_wf)

lemma mem_exact_unat: "mem_exact s \<Longrightarrow> total_size s < 2 ^ 64 \<Longrightarrow> unat (st_memory_used s) = total_size s"
  by (simp add: mem_exact_def unat_of_nat_u64)

text \<open>After eviction the request fits, unless it is larger than the whole cap.\<close>

lemma ensure_room:
  assumes "storage_inv s" "\<not> st_poisoned s" "total_size s + n < 2 ^ 64" "n \<le> st_max_memory s"
  shows "total_size (ensure_memory_available now n s) + n \<le> st_max_memory s"
proof -
  let ?t = "ensure_memory_available now n s"
  have le: "total_size ?t \<le> total_size s"
    using assms(1) by (simp add: storage_inv_def ensure_total_size)
  have inv: "storage_inv ?t" using assms(1) by (rule ensure_inv)
  then have "unat (st_memory_used ?t) = total_size ?t"
    using le assms(3) by (intro mem_exact_unat) (auto simp: storage_inv_def)
  moreover have "uadd (total_size ?t) n = total_size ?t + n"
    using le assms(3) by (intro uadd_no_wrap) linarith
  moreover have "uadd (unat (st_memory_used ?t)) n \<le> st_max_memory s \<or> st_data ?t = []"
    using ensure_makes_room [OF assms(2), of now n] by (simp add: Let_def)
  ultimately show ?thesis using assms(4) by (auto simp: total_size_def)
qed

lemma update_total_size:
  "st_data s' = AList.update k it (st_data t) \<Longrightarrow> total_size s' \<le> total_size t + entry_size (k, it)"
  using hm_weight_update_absent [of "st_data t" k entry_size it]
    hm_weight_update_present [of "st_data t" k _ entry_size it]
  by (cases "map_of (st_data t) k") (auto simp: total_size_def)

lemma update_in_place_total:
  assumes "map_of (st_data t) k = Some it" "length v = length (ci_value it) + n"
  shows "total_size (update_in_place now k it v n t) = total_size t + n"
  using hm_weight_update_present [OF assms(1), of entry_size
      "it\<lparr>ci_value := v, ci_cas_unique := st_cas_counter t, ci_last_accessed := now\<rparr>"] assms(2)
  by (simp add: total_size_def update_in_place_fields entry_size_def memory_size_def)

definition within_cap :: "storage \<Rightarrow> bool" where
  "within_cap s = (storage_inv s \<and> total_size s \<le> st_max_memory s \<and> st_max_memory s < 2 ^ 63)"

text \<open>
  The operations that keep the cap: a stored entry must not be larger than the cap itself, and
  \<^verbatim>\<open>cas\<close> is excluded (it can evict the item it replaces and then miscounts).
\<close>

fun fits :: "storage_op \<Rightarrow> storage \<Rightarrow> bool" where
  "fits (OSet now k v f ttl) s = (size_of_cache_item + length v + length k \<le> st_max_memory s)"
| "fits (OAdd now k v f ttl) s = (size_of_cache_item + length v + length k \<le> st_max_memory s)"
| "fits (OReplace now k v f ttl) s = (size_of_cache_item + length v + length k \<le> st_max_memory s)"
| "fits (OAppend now k d) s = (length d \<le> st_max_memory s)"
| "fits (OPrepend now k d) s = (length d \<le> st_max_memory s)"
| "fits (OCas now k v f ttl c) s = False"
| "fits op s = True"

lemma within_cap_smaller:
  "within_cap s \<Longrightarrow> storage_inv t \<Longrightarrow> total_size t \<le> total_size s \<Longrightarrow>
    st_max_memory t = st_max_memory s \<Longrightarrow> within_cap t"
  by (simp add: within_cap_def)

lemma delete_all_total: "storage_wf s \<Longrightarrow> total_size (delete_all ks s) \<le> total_size s"
  by (rule delete_all_preserves [where P = "\<lambda>t. storage_wf t \<and> total_size t \<le> total_size s",
        THEN conjunct2])
    (auto intro: order.trans total_size_mono delete_wf)

lemma drop_expired_total:
  "storage_wf s \<Longrightarrow> \<not> st_poisoned s \<Longrightarrow> map_of (st_data s) k = Some it \<Longrightarrow>
    total_size (drop_expired k it s) \<le> total_size s"
  using total_size_mono [of s k] by (simp add: drop_expired_delete total_size_def)

lemma set_item_cap:
  assumes "within_cap s" "size_of_cache_item + length v + length k \<le> st_max_memory s"
  shows "within_cap (fst (set_item now k v f ttl s))"
proof -
  have inv: "storage_inv (fst (set_item now k v f ttl s))"
    using assms(1) by (simp add: within_cap_def set_item_inv)
  show ?thesis
  proof (cases "st_poisoned s \<or> calculate_expiry now ttl s = Panicked")
    case True
    then have "total_size (fst (set_item now k v f ttl s)) = total_size s"
      "st_max_memory (fst (set_item now k v f ttl s)) = st_max_memory s"
      using set_item_poisoned [of s now k v f ttl]
      by (auto simp: set_item_panics total_size_def)
    with inv assms(1) show ?thesis by (simp add: within_cap_def)
  next
    case False
    then obtain e where e: "calculate_expiry now ttl s = Returned e" and np: "\<not> st_poisoned s"
      by (cases "calculate_expiry now ttl s") auto
    note ok = set_item_ok [OF np e, of k v f]
    let ?s = "s\<lparr>st_cas_counter := st_cas_counter s + 1\<rparr>"
    let ?n = "entry_size (k, new_item now v f e (st_cas_counter s))"
    have "storage_inv ?s" "total_size ?s = total_size s"
      using assms(1)
      by (simp_all add: within_cap_def storage_inv_def storage_wf_def mem_exact_def total_size_def)
    then have "total_size (ensure_memory_available now ?n ?s) + ?n \<le> st_max_memory ?s"
      using assms np by (intro ensure_room) (auto simp: within_cap_def)
    then have "total_size (fst (set_item now k v f ttl s)) \<le> st_max_memory s"
      using update_total_size [OF ok(2)] by simp
    with inv assms(1) ok(7) show ?thesis by (simp add: within_cap_def)
  qed
qed

lemma extends_cap:
  assumes "within_cap s" "extends now k g n s r" "n \<le> st_max_memory s"
    "\<And>v. length (g v) = length v + n" "storage_inv (fst r)"
  shows "within_cap (fst r)"
  using assms(2)
proof (cases rule: extendsE)
  case evicted
  with assms show ?thesis
    by (auto simp: within_cap_def storage_inv_def intro: order.trans ensure_total_size)
next
  case (expired it)
  with assms show ?thesis
    by (intro within_cap_smaller [OF assms(1)])
      (auto simp: within_cap_def storage_inv_def drop_expired_def intro: drop_expired_total [unfolded drop_expired_def])
next
  case (stored t it)
  have inv: "storage_inv s" "total_size s + n < 2 ^ 64" using assms(1,3) by (auto simp: within_cap_def)
  have "total_size t + n \<le> st_max_memory s"
    using stored(1)
  proof
    assume t: "t = s \<and> uadd (unat (st_memory_used s)) n \<le> st_max_memory s"
    have "unat (st_memory_used s) = total_size s"
      using inv by (intro mem_exact_unat) (auto simp: storage_inv_def)
    with t inv show ?thesis by (simp add: uadd_no_wrap)
  next
    assume "t = ensure_memory_available now n s"
    with ensure_room [OF inv(1) stored(2) inv(2) assms(3)] show ?thesis by simp
  qed
  moreover have "st_max_memory t = st_max_memory s" using stored(1) by auto
  moreover have "total_size (fst r) = total_size t + n"
    using stored(3,6) assms(4) by (simp add: update_in_place_total)
  ultimately show ?thesis
    using stored(6) assms(1,5) by (simp add: within_cap_def update_in_place_fields)
qed (use assms in auto)

lemma get_cap: "within_cap s \<Longrightarrow> within_cap (fst (get now k s))"
  by (cases rule: get_cases [of s now k])
    (auto simp: within_cap_def storage_inv_def
      intro: order.trans total_size_mono delete_wf delete_exact record_access_wf)

lemma get_multi_cap: "within_cap s \<Longrightarrow> within_cap (fst (get_multi now ks s))"
proof (cases "st_poisoned s")
  case False
  assume cap: "within_cap s"
  obtain t rs es where t: "get_multi_loop now ks s [] [] = (t, rs, es)" by (metis prod_cases3)
  have "storage_inv t" using get_multi_loop_inv [of s now ks "[]" "[]"] cap t by (simp add: within_cap_def)
  moreover have "total_size t = total_size s" "st_max_memory t = st_max_memory s"
    using get_multi_loop_frame [of now ks s "[]" "[]"] t by (simp_all add: total_size_def)
  moreover have "storage_inv (delete_all es t)"
    using \<open>storage_inv t\<close> by (auto intro: delete_all_preserves delete_inv)
  ultimately have "within_cap (delete_all es t)"
    using cap delete_all_total [of t es] by (intro within_cap_smaller [OF cap]) (auto simp: storage_inv_def)
  with t False show ?thesis by (simp add: get_multi_def)
qed (simp add: get_multi_def)

interpretation cap: stepwise_invariant storage_step fits within_cap
proof
  fix s op
  assume cap: "within_cap s" and fits: "fits op s"
  then have inv: "storage_inv s" by (simp add: within_cap_def)
  show "within_cap (fst (storage_step op s))"
  proof (cases op)
    case (OSet now k v f ttl)
    with cap fits show ?thesis by (simp add: set_item_cap)
  next
    case (OAdd now k v f ttl)
    with cap fits set_item_cap [OF cap] show ?thesis by (auto simp: add_def split: option.split)
  next
    case (OReplace now k v f ttl)
    with cap fits set_item_cap [OF cap] show ?thesis by (auto simp: replace_def split: option.split)
  next
    case (OAppend now k d)
    with fits have n: "length d \<le> st_max_memory s" by simp
    show ?thesis
      using extends_cap [OF cap append_item_extends n] append_item_inv [OF inv] OAppend by simp
  next
    case (OPrepend now k d)
    with fits have n: "length d \<le> st_max_memory s" by simp
    show ?thesis
      using extends_cap [OF cap prepend_item_extends n] prepend_item_inv [OF inv] OPrepend by simp
  next
    case (ODelete k)
    with inv show ?thesis
      by (auto intro!: within_cap_smaller [OF cap] delete_inv total_size_mono simp: storage_inv_def [of s])
  next
    case (OCleanup now)
    with inv cleanup_expired_inv [OF inv, of now] show ?thesis
      by (auto intro!: within_cap_smaller [OF cap] delete_all_total simp: storage_inv_def [of s]
          cleanup_expired_def Let_def)
  next
    case OFlush
    with cap flush_all_inv [OF inv] show ?thesis
      by (auto simp: within_cap_def flush_all_def total_size_def)
  qed (use cap fits in \<open>simp_all add: get_cap get_multi_cap\<close>)
qed


section \<open>Tokens\<close>

text \<open>
  Where the items of the next state come from: they are the items of this state, or carry the
  token the counter held, in which case the counter moved on.
\<close>

definition items_fresh :: "storage \<Rightarrow> storage \<Rightarrow> bool" where
  "items_fresh s t =
     ((st_cas_counter t = st_cas_counter s \<or> st_cas_counter t = st_cas_counter s + 1) \<and>
      (\<forall>k it. map_of (st_data t) k = Some it \<longrightarrow>
         map_of (st_data s) k = Some it \<or>
         ci_cas_unique it = st_cas_counter s \<and> st_cas_counter t = st_cas_counter s + 1))"

lemma items_fresh_smaller:
  "map_of (st_data t) \<subseteq>\<^sub>m map_of (st_data s) \<Longrightarrow>
    st_cas_counter t = st_cas_counter s \<or> st_cas_counter t = st_cas_counter s + 1 \<Longrightarrow> items_fresh s t"
  by (auto simp: items_fresh_def map_le_def dom_def)

lemma items_fresh_update:
  assumes "st_data s' = AList.update k it (st_data t)" "map_of (st_data t) \<subseteq>\<^sub>m map_of (st_data s)"
    "st_cas_counter s' = st_cas_counter s + 1" "ci_cas_unique it = st_cas_counter s"
  shows "items_fresh s s'"
  using assms by (auto simp: items_fresh_def hm_simps map_le_def dom_def split: if_splits)

lemma set_item_fresh: "items_fresh s (fst (set_item now k v f ttl s))"
proof (cases "st_poisoned s \<or> calculate_expiry now ttl s = Panicked")
  case True
  then have "st_data (fst (set_item now k v f ttl s)) = st_data s"
    using set_item_poisoned [of s now k v f ttl] by (auto simp: set_item_panics)
  moreover have "st_cas_counter (fst (set_item now k v f ttl s)) = st_cas_counter s \<or>
      st_cas_counter (fst (set_item now k v f ttl s)) = st_cas_counter s + 1"
    using True
    by (cases "calculate_expiry now ttl s")
      (auto simp: set_item_panics, simp add: set_item_def next_cas_unique_def Let_def)
  ultimately show ?thesis by (intro items_fresh_smaller) auto
next
  case False
  then obtain e where e: "calculate_expiry now ttl s = Returned e" and np: "\<not> st_poisoned s"
    by (cases "calculate_expiry now ttl s") auto
  note ok = set_item_ok [OF np e, of k v f]
  show ?thesis
    by (rule items_fresh_update [OF ok(2) _ ok(6)])
      (use ensure_le [of now _ "s\<lparr>st_cas_counter := st_cas_counter s + 1\<rparr>"] in simp_all)
qed

lemma cas_fresh: "items_fresh s (fst (cas now k v f ttl c s))"
proof (cases rule: cas_cases [of s now k v f ttl c])
  case (expired it)
  then show ?thesis
    by (intro items_fresh_smaller) (auto simp: drop_expired_def map_le_def hm_simps)
next
  case (match it e)
  note ok = cas_match [OF match, of v f]
  show ?thesis
    by (rule items_fresh_update [OF ok(2) _ ok(5)])
      (use ensure_le [of now _ "s\<lparr>st_cas_counter := st_cas_counter s + 1,
         st_memory_used := st_memory_used s - of_nat (entry_size (k, it))\<rparr>"] in simp_all)
qed (auto intro: items_fresh_smaller)

lemma extends_fresh:
  assumes "extends now k g n s r"
  shows "items_fresh s (fst r)"
  using assms
proof (cases rule: extendsE)
  case (stored t it)
  have "map_of (st_data t) \<subseteq>\<^sub>m map_of (st_data s)" "st_cas_counter t = st_cas_counter s"
    using stored(1) ensure_le by auto
  then have "items_fresh s (update_in_place now k it (g (ci_value it)) n t)"
    by (intro items_fresh_update [OF update_in_place_fields(1)]) (simp_all add: update_in_place_fields)
  with stored(6) show ?thesis by simp
next
  case (expired it)
  then show ?thesis
    by (intro items_fresh_smaller) (auto simp: drop_expired_def map_le_def hm_simps)
qed (auto intro: items_fresh_smaller ensure_le)

lemma storage_step_fresh: "items_fresh s (fst (storage_step op s))"
proof (cases op)
  case (OGet now k)
  then show ?thesis
    by (cases rule: get_cases [of s now k]) (auto intro: items_fresh_smaller delete_le)
next
  case (OGetMulti now ks)
  show ?thesis
  proof (cases "st_poisoned s")
    case False
    obtain t rs es where t: "get_multi_loop now ks s [] [] = (t, rs, es)" by (metis prod_cases3)
    with get_multi_loop_frame [of now ks s "[]" "[]"] False OGetMulti show ?thesis
      by (intro items_fresh_smaller)
        (auto simp: get_multi_def map_le_def delete_all_data split: if_splits)
  qed (use OGetMulti in \<open>auto simp: get_multi_def intro: items_fresh_smaller\<close>)
next
  case (OSet now k v f ttl)
  then show ?thesis by (simp add: set_item_fresh)
next
  case (OAdd now k v f ttl)
  then show ?thesis by (auto simp: add_def set_item_fresh intro: items_fresh_smaller split: option.split)
next
  case (OReplace now k v f ttl)
  then show ?thesis
    by (auto simp: replace_def set_item_fresh intro: items_fresh_smaller split: option.split)
next
  case (OCas now k v f ttl c)
  then show ?thesis by (simp add: cas_fresh)
next
  case (ODelete k)
  then show ?thesis by (auto intro: items_fresh_smaller delete_le)
next
  case (OAppend now k d)
  then show ?thesis by (simp add: extends_fresh [OF append_item_extends])
next
  case (OPrepend now k d)
  then show ?thesis by (simp add: extends_fresh [OF prepend_item_extends])
next
  case (OCleanup now)
  then show ?thesis
    by (auto simp: cleanup_expired_def Let_def map_le_def delete_all_data intro!: items_fresh_smaller
        split: if_splits)
next
  case OFlush
  then show ?thesis by (auto simp: flush_all_def intro!: items_fresh_smaller)
qed

text \<open>Over a run: an item of the last state is an item of the first or has a later token.\<close>

definition same_or_later :: "storage \<Rightarrow> storage \<Rightarrow> bool" where
  "same_or_later s t =
     (unat (st_cas_counter s) \<le> unat (st_cas_counter t) \<and>
      (\<forall>k it. map_of (st_data t) k = Some it \<longrightarrow>
         map_of (st_data s) k = Some it \<or> unat (st_cas_counter s) \<le> unat (ci_cas_unique it)))"

lemma unat_counter_step:
  "unat (c :: u64) < 2 ^ 64 - 1 \<Longrightarrow> unat (c + 1) = unat c + 1"
  by (simp add: unat_word_ariths)

lemma run_same_or_later:
  "unat (st_cas_counter s) + length ops < 2 ^ 64 \<Longrightarrow>
    same_or_later s (fst (run storage_step ops s)) \<and>
    unat (st_cas_counter (fst (run storage_step ops s))) \<le> unat (st_cas_counter s) + length ops"
proof (induction ops arbitrary: s)
  case Nil
  then show ?case by (simp add: same_or_later_def)
next
  case (Cons op ops)
  let ?s = "fst (storage_step op s)"
  have fresh: "items_fresh s ?s" by (rule storage_step_fresh)
  then have c: "unat (st_cas_counter ?s) \<le> unat (st_cas_counter s) + 1"
    "unat (st_cas_counter s) \<le> unat (st_cas_counter ?s)"
    using Cons.prems unat_counter_step [of "st_cas_counter s"] by (auto simp: items_fresh_def)
  then have IH: "same_or_later ?s (fst (run storage_step ops ?s))"
    "unat (st_cas_counter (fst (run storage_step ops ?s))) \<le> unat (st_cas_counter ?s) + length ops"
    using Cons by auto
  have "same_or_later s (fst (run storage_step ops ?s))"
    unfolding same_or_later_def
  proof (intro conjI allI impI)
    show "unat (st_cas_counter s) \<le> unat (st_cas_counter (fst (run storage_step ops ?s)))"
      using IH c by (simp add: same_or_later_def)
  next
    fix k it
    assume "map_of (st_data (fst (run storage_step ops ?s))) k = Some it"
    with IH(1) have "map_of (st_data ?s) k = Some it \<or> unat (st_cas_counter ?s) \<le> unat (ci_cas_unique it)"
      by (auto simp: same_or_later_def)
    moreover have "map_of (st_data ?s) k = Some it \<Longrightarrow>
        map_of (st_data s) k = Some it \<or> ci_cas_unique it = st_cas_counter s"
      using fresh unfolding items_fresh_def by blast
    ultimately show "map_of (st_data s) k = Some it \<or> unat (st_cas_counter s) \<le> unat (ci_cas_unique it)"
      using c by auto
  qed
  with IH c show ?case by (simp add: run_Cons_fst del: run.simps(2))
qed

definition tokens_below :: "storage \<Rightarrow> bool" where
  "tokens_below s =
     (\<forall>k it. map_of (st_data s) k = Some it \<longrightarrow> unat (ci_cas_unique it) < unat (st_cas_counter s))"

end
