(* ===== verification/Storage_Correct.thy ===== *)
theory Storage_Correct
  imports Storage_Spec
begin

text \<open>
  The properties of the store, each a consequence of the lemmas of \<^verbatim>\<open>Storage\<close> and
  \<^verbatim>\<open>Storage_Spec\<close>, with a concrete instance where it has hypotheses.
\<close>

lemmas storage_eval = storage_new_def set_item_def get_def get_multi_def cas_def append_item_def
  prepend_item_def delete_def add_def replace_def calculate_expiry_def next_cas_unique_def
  record_access_def ensure_memory_available.simps find_lru_key_def hash_iter_def hm_keys_def
  update_in_place_def drop_expired_def memory_size_def size_of_cache_item_def entry_size_def
  is_expired_def uadd_def i64_max_def cleanup_expired_def flush_all_def

text \<open>
  C1. Whatever sequence of operations ran on a fresh store, with any evictions, expirations,
  failed conditions and panics on the way: a read that returns an item returns the value, flags
  and expiry that the last write to that key left (the reference map, which never forgets), and
  never an expired one.
\<close>

theorem reads_return_latest_write:
  assumes "get now k (fst (run storage_step ops (storage_new h mx d))) = (s', Some it)"
  shows "replay (ref_step d) (zip ops (snd (run storage_step ops (storage_new h mx d)))) Map.empty k
           = Some (ci_value it, ci_flags it, ci_expires_at it) \<and> \<not> is_expired now it"
proof -
  let ?s = "fst (run storage_step ops (storage_new h mx d))"
  have "cache_rel d (storage_new h mx d) Map.empty"
    by (auto simp: cache_rel_def storage_new_def contents_def map_le_def dom_def)
  then have "contents ?s \<subseteq>\<^sub>m replay (ref_step d) (zip ops (snd (run storage_step ops (storage_new h mx d)))) Map.empty"
    using cache.sim_run [of d "storage_new h mx d" Map.empty ops] unfolding cache_rel_def by blast
  moreover have "contents ?s k = Some (cached_of it)" "\<not> is_expired now it"
    using assms by (cases rule: get_cases [of ?s now k]; simp add: contents_def)+
  ultimately show ?thesis by (force simp: map_le_def cached_of_def)
qed

theorem reads_return_latest_write_witness:
  "replay (ref_step 0)
     (zip [OSet 0 ''a'' ''1'' 7 0, OAppend 5 ''a'' ''2'']
        (snd (run storage_step [OSet 0 ''a'' ''1'' 7 0, OAppend 5 ''a'' ''2'']
                (storage_new length 1000 0)))) Map.empty ''a'' = Some (''12'', 7, None)
   \<and> \<not> is_expired 9 \<lparr>ci_value = ''12'', ci_flags = 7, ci_expires_at = None, ci_cas_unique = 2,
         ci_last_accessed = 5\<rparr>"
  using reads_return_latest_write [of 9 "''a''" "[OSet 0 ''a'' ''1'' 7 0, OAppend 5 ''a'' ''2'']"
      length 1000 0 _
      "\<lparr>ci_value = ''12'', ci_flags = 7, ci_expires_at = None, ci_cas_unique = 2, ci_last_accessed = 5\<rparr>"]
  by (simp add: storage_eval)

lemma unat_u64_max: "unat (- 1 :: u64) = 2 ^ 64 - 1"
  by (simp add: unat_eq_nat_uint uint_word_ariths)

definition no_cas :: "storage_op \<Rightarrow> storage \<Rightarrow> bool" where
  "no_cas op s = (case op of OCas now k v f ttl c \<Rightarrow> False | _ \<Rightarrow> True)"

interpretation account: stepwise_invariant storage_step no_cas storage_inv
proof
  fix s op
  assume "storage_inv s" "no_cas op s"
  then show "storage_inv (fst (storage_step op s))"
    by (cases op) (simp_all add: no_cas_def storage_inv_intros)
qed

text \<open>
  The memory account is exact after any run without \<^verbatim>\<open>cas\<close>: from a state that satisfies the
  invariant, \<^verbatim>\<open>memory_used\<close> is the total size of the stored entries and every stored key has a
  place in the access order, whatever was evicted, replaced, extended or expired.
\<close>

lemma account_exact:
  assumes "storage_inv s" "admissible storage_step no_cas ops s"
  shows "storage_inv (fst (run storage_step ops s))"
  using assms by (rule account.inv_run)

text \<open>
  C8. The cap: a run of any operations except \<^verbatim>\<open>cas\<close>, none of which stores an entry larger than
  the cap itself, never leaves more than \<^verbatim>\<open>max_memory\<close> bytes of entries in the store, and the
  counter \<^verbatim>\<open>memory_used\<close> shows that size.
\<close>

theorem memory_cap:
  assumes "st_max_memory s < 2 ^ 63" "storage_inv s" "total_size s \<le> st_max_memory s"
    "admissible storage_step fits ops s"
  shows "let t = fst (run storage_step ops s)
         in total_size t \<le> st_max_memory t \<and> unat (st_memory_used t) = total_size t"
proof -
  have "within_cap (fst (run storage_step ops s))"
    using assms by (intro cap.inv_run) (simp_all add: within_cap_def)
  then show ?thesis by (auto simp: within_cap_def storage_inv_def Let_def intro!: mem_exact_unat)
qed

theorem memory_cap_witness:
  "let t = fst (run storage_step [OSet 0 ''a'' ''xy'' 0 0, OSet 1 ''b'' ''z'' 0 0] (storage_new length 100 0))
   in total_size t \<le> st_max_memory t \<and> unat (st_memory_used t) = total_size t"
  by (rule memory_cap)
    (simp_all add: storage_new_inv, simp_all add: storage_new_def total_size_def storage_eval)

text \<open>
  C25. Eviction: the loop always ends; it only removes entries; it ends with room for the request
  or with an empty store; and it does nothing when there is room already.
\<close>

theorem eviction_makes_room:
  assumes "\<not> st_poisoned s"
  shows "map_of (st_data (ensure_memory_available now n s)) \<subseteq>\<^sub>m map_of (st_data s)
    \<and> (uadd (unat (st_memory_used (ensure_memory_available now n s))) n \<le> st_max_memory s
       \<or> st_data (ensure_memory_available now n s) = [])
    \<and> (uadd (unat (st_memory_used s)) n \<le> st_max_memory s \<longrightarrow> ensure_memory_available now n s = s)"
  using ensure_makes_room [OF assms, of now n] by (auto simp: Let_def ensure_le ensure_idle)

theorem eviction_makes_room_witness:
  "uadd (unat (st_memory_used (ensure_memory_available 0 50
      (fst (run storage_step [OSet 0 ''a'' ''xy'' 0 0] (storage_new length 100 0)))))) 50 \<le> 100"
  using eviction_makes_room [of "fst (run storage_step [OSet 0 ''a'' ''xy'' 0 0] (storage_new length 100 0))" 0 50]
  by (simp add: storage_eval)

text \<open>A live key with its place in the access order.\<close>

definition live_at :: "nat \<Rightarrow> storage \<Rightarrow> bytes \<Rightarrow> u64 \<Rightarrow> bool" where
  "live_at now s k q =
     (map_of (st_access_order s) k = Some q \<and>
      (case map_of (st_data s) k of Some it \<Rightarrow> \<not> is_expired now it | None \<Rightarrow> False))"

lemma find_lru_loop_Cons:
  "find_lru_loop now s (key # keys) m l =
     (if \<exists>q. live_at now s key q \<and> q < m
      then find_lru_loop now s keys (the (map_of (st_access_order s) key)) (Some key)
      else find_lru_loop now s keys m l)"
  by (auto simp: live_at_def split: option.splits)

lemma find_lru_loop_least:
  "\<forall>k. l = Some k \<longrightarrow> live_at now s k m \<Longrightarrow>
    \<exists>m'\<le>m. (\<forall>k. find_lru_loop now s keys m l = Some k \<longrightarrow> live_at now s k m') \<and>
      (find_lru_loop now s keys m l = None \<longrightarrow> l = None \<and> m' = m) \<and>
      (\<forall>k\<in>set keys. \<forall>q. live_at now s k q \<longrightarrow> m' \<le> q)"
proof (induction keys arbitrary: m l)
  case (Cons key keys)
  show ?case
  proof (cases "\<exists>q. live_at now s key q \<and> q < m")
    case True
    then obtain q where q: "live_at now s key q" "q < m" by blast
    then have "find_lru_loop now s (key # keys) m l = find_lru_loop now s keys q (Some key)"
      unfolding find_lru_loop_Cons using True by (simp add: live_at_def)
    moreover have "q' = q" if "live_at now s key q'" for q' using that q(1) by (simp add: live_at_def)
    moreover obtain m' where "m' \<le> q"
      "\<forall>k. find_lru_loop now s keys q (Some key) = Some k \<longrightarrow> live_at now s k m'"
      "find_lru_loop now s keys q (Some key) \<noteq> None"
      "\<forall>k\<in>set keys. \<forall>q. live_at now s k q \<longrightarrow> m' \<le> q"
      using Cons.IH [of "Some key" q] q by auto
    ultimately show ?thesis using q(2) by (intro exI [of _ m']) auto
  next
    case False
    then have "find_lru_loop now s (key # keys) m l = find_lru_loop now s keys m l"
      unfolding find_lru_loop_Cons by (rule if_not_P)
    moreover have "m \<le> q" if "live_at now s key q" for q using False that by (auto simp: not_less)
    moreover obtain m' where "m' \<le> m"
      "\<forall>k. find_lru_loop now s keys m l = Some k \<longrightarrow> live_at now s k m'"
      "find_lru_loop now s keys m l = None \<longrightarrow> l = None \<and> m' = m"
      "\<forall>k\<in>set keys. \<forall>q. live_at now s k q \<longrightarrow> m' \<le> q"
      using Cons.IH [OF Cons.prems] by auto
    ultimately show ?thesis by (intro exI [of _ m']) (auto intro: order_trans)
  qed
qed auto

text \<open>
  C24. The victim of an eviction, in every case and whatever the iteration order of the hash maps:
  there is none only when the store is empty; otherwise it is a key of the store, and as long as some
  live key (one whose item has not expired and whose access is recorded with a sequence number
  below \<^verbatim>\<open>u64::MAX\<close>) is left, it is live and no live key was accessed less recently. When every
  item has expired any key may be chosen.
\<close>

theorem victim_is_least_recently_used:
  assumes "\<not> st_poisoned s"
  shows "case find_lru_key now s of
      None \<Rightarrow> st_data s = []
    | Some key \<Rightarrow> key \<in> dom (map_of (st_data s)) \<and>
        ((\<exists>k q. live_at now s k q \<and> q < - 1) \<longrightarrow>
           (\<exists>q. live_at now s key q \<and> (\<forall>k q'. live_at now s k q' \<longrightarrow> q \<le> q')))"
proof (cases "find_lru_key now s")
  case None
  then have "hash_iter s (st_data s) = []"
    using assms by (auto simp: find_lru_key_def split: option.splits list.splits)
  then have "set (hm_keys (st_data s)) = {}" by (metis set_hash_iter list.set(1))
  with None show ?thesis by (cases "st_data s") (auto simp: set_hm_keys)
next
  case (Some key)
  let ?keys = "hash_iter s (st_access_order s)"
  let ?r = "find_lru_loop now s ?keys (- 1) None"
  have keys: "k \<in> set ?keys" if "live_at now s k q" for k q
    using that by (auto simp: set_hm_keys live_at_def)
  obtain m where m: "\<forall>k. ?r = Some k \<longrightarrow> live_at now s k m" "?r = None \<longrightarrow> m = - 1"
    "\<forall>k\<in>set ?keys. \<forall>q. live_at now s k q \<longrightarrow> m \<le> q"
    using find_lru_loop_least [of None now s "- 1" ?keys] by auto
  have "\<exists>q. live_at now s key q \<and> (\<forall>k q'. live_at now s k q' \<longrightarrow> q \<le> q')" if "live_at now s k q" "q < - 1" for k q
  proof -
    have "m \<le> q" using m(3) keys [OF that(1)] that(1) by blast
    then have "?r \<noteq> None" using m(2) that(2) by auto
    then have "?r = Some key" using Some by (auto simp: find_lru_key_def split: if_splits)
    then show ?thesis using m(1,3) keys by blast
  qed
  with Some find_lru_key_mem [OF Some] show ?thesis by auto
qed

theorem victim_is_least_recently_used_witness:
  "let s = fst (run storage_step [OSet 0 ''a'' ''x'' 0 0, OSet 1 ''b'' ''y'' 0 0, OGet 2 ''a''] (storage_new length 1000 0))
   in find_lru_key 3 s = Some ''b'' \<and> (\<exists>q. live_at 3 s ''b'' q \<and> (\<forall>k q'. live_at 3 s k q' \<longrightarrow> q \<le> q'))"
proof -
  let ?s = "fst (run storage_step [OSet 0 ''a'' ''x'' 0 0, OSet 1 ''b'' ''y'' 0 0, OGet 2 ''a''] (storage_new length 1000 0))"
  have "\<not> st_poisoned ?s" "find_lru_key 3 ?s = Some ''b''" "live_at 3 ?s ''b'' 1"
    by (simp_all add: storage_eval live_at_def word_less_nat_alt unat_u64_max)
  moreover have "(1 :: u64) < - 1" by (simp add: word_less_nat_alt unat_u64_max)
  ultimately show ?thesis using victim_is_least_recently_used [of ?s 3] by (auto simp: Let_def)
qed

section \<open>Single operations\<close>

text \<open>
  A write is visible at once: after a \<^verbatim>\<open>set\<close> that neither the lock nor the expiry made panic,
  and before that expiry, \<^verbatim>\<open>get\<close> returns exactly the new item with a fresh token, even when the
  entry forced evictions; and when it fitted without evictions no other key changed.
\<close>

lemma set_then_get:
  assumes "\<not> st_poisoned s" "calculate_expiry now ttl s = Returned e"
    "\<forall>t. e = Some t \<longrightarrow> now' < t"
  shows "snd (set_item now k v f ttl s) = Returned Stored
    \<and> snd (get now' k (fst (set_item now k v f ttl s))) = Some (new_item now v f e (st_cas_counter s))
    \<and> (uadd (unat (st_memory_used s)) (size_of_cache_item + length v + length k) \<le> st_max_memory s
       \<longrightarrow> (\<forall>k'. k' \<noteq> k \<longrightarrow> map_of (st_data (fst (set_item now k v f ttl s))) k' = map_of (st_data s) k'))"
proof -
  let ?s' = "fst (set_item now k v f ttl s)"
  note ok = set_item_ok [OF assms(1,2), of k v f]
  have "\<not> is_expired now' (new_item now v f e (st_cas_counter s))"
    using assms(3) by (auto simp: is_expired_def not_le split: option.split)
  then have "snd (get now' k ?s') = Some (new_item now v f e (st_cas_counter s))"
    using ok(2,8) by (simp add: get_def hm_simps)
  moreover have "map_of (st_data ?s') k' = map_of (st_data s) k'"
    if "uadd (unat (st_memory_used s)) (size_of_cache_item + length v + length k) \<le> st_max_memory s"
      "k' \<noteq> k" for k'
    using that ok(2) by (simp add: ensure_idle hm_simps)
  ultimately show ?thesis using ok(1) by (metis snd_conv)
qed

definition live :: "nat \<Rightarrow> storage \<Rightarrow> bytes \<Rightarrow> bool" where
  "live now s k = (case map_of (st_data s) k of Some it \<Rightarrow> \<not> is_expired now it | None \<Rightarrow> False)"

text \<open>
  \<^verbatim>\<open>add\<close> and \<^verbatim>\<open>replace\<close> are complementary: in every usable state exactly one of them stores,
  \<^verbatim>\<open>add\<close> when the key has no live item and \<^verbatim>\<open>replace\<close> when it has; the one that stores does what
  \<^verbatim>\<open>set\<close> does, the other answers \<^verbatim>\<open>NotStored\<close> and leaves the store untouched.
\<close>

lemma add_replace_complementary:
  assumes "\<not> st_poisoned s"
  shows "(if live now s k
          then add now k v f ttl s = (s, Returned NotStored) \<and>
               replace now k v f ttl s = set_item now k v f ttl s
          else add now k v f ttl s = set_item now k v f ttl s \<and>
               replace now k v f ttl s = (s, Returned NotStored))"
  using assms by (simp add: live_def add_def replace_def split: option.split)

lemma tokens_below_step:
  assumes "tokens_below s" "unat (st_cas_counter s) < 2 ^ 64 - 1"
  shows "tokens_below (fst (storage_step op s))"
    "unat (st_cas_counter (fst (storage_step op s))) \<le> unat (st_cas_counter s) + 1"
proof -
  have fresh: "items_fresh s (fst (storage_step op s))" by (rule storage_step_fresh)
  have c: "unat (st_cas_counter s + 1) = unat (st_cas_counter s) + 1"
    using assms(2) by (rule unat_counter_step)
  show "tokens_below (fst (storage_step op s))"
    unfolding tokens_below_def
  proof (intro allI impI)
    fix k it
    assume "map_of (st_data (fst (storage_step op s))) k = Some it"
    with fresh consider "map_of (st_data s) k = Some it"
      | "ci_cas_unique it = st_cas_counter s"
        "st_cas_counter (fst (storage_step op s)) = st_cas_counter s + 1"
      unfolding items_fresh_def by blast
    then show "unat (ci_cas_unique it) < unat (st_cas_counter (fst (storage_step op s)))"
    proof cases
      case 1
      with assms(1) have "unat (ci_cas_unique it) < unat (st_cas_counter s)"
        by (simp add: tokens_below_def)
      with fresh c show ?thesis by (auto simp: items_fresh_def)
    qed (simp add: c)
  qed
  show "unat (st_cas_counter (fst (storage_step op s))) \<le> unat (st_cas_counter s) + 1"
    using fresh c by (auto simp: items_fresh_def)
qed

lemma tokens_below_run:
  "tokens_below s \<Longrightarrow> unat (st_cas_counter s) + length ops < 2 ^ 64 \<Longrightarrow>
    tokens_below (fst (run storage_step ops s)) \<and>
    unat (st_cas_counter (fst (run storage_step ops s))) \<le> unat (st_cas_counter s) + length ops"
proof (induction ops arbitrary: s)
  case (Cons op ops)
  then have "tokens_below (fst (storage_step op s))"
    "unat (st_cas_counter (fst (storage_step op s))) \<le> unat (st_cas_counter s) + 1"
    using tokens_below_step [of s op] by auto
  with Cons.IH [of "fst (storage_step op s)"] Cons.prems(2) show ?case
    by (simp add: run_Cons_fst del: run.simps(2))
qed simp

text \<open>
  C9. No lost update: a client reads an item at some point of a history from the fresh store,
  anything at all happens in between (deletes, evictions, rewrites of the same bytes), and then
  its \<^verbatim>\<open>cas\<close> with the token it read succeeds. Then the store still held, at that moment, the very
  item that was read. Fewer than \<^verbatim>\<open>2^64 - 1\<close> operations, so that tokens do not repeat.
\<close>

theorem cas_no_lost_update:
  assumes "length before + length between < 2 ^ 64 - 1"
    and "get now k (fst (run storage_step before (storage_new h mx d))) = (s1, Some it)"
    and "cas now' k v f ttl (ci_cas_unique it) (fst (run storage_step between s1)) = (s2, Returned Stored)"
  shows "map_of (st_data (fst (run storage_step between s1))) k = Some it"
proof -
  let ?s = "fst (run storage_step before (storage_new h mx d))"
  let ?t = "fst (run storage_step between s1)"
  have "tokens_below (storage_new h mx d)" by (simp add: tokens_below_def storage_new_def)
  then have below: "tokens_below ?s" "unat (st_cas_counter ?s) \<le> 1 + length before"
    using tokens_below_run [of "storage_new h mx d" before] assms(1) by (auto simp: storage_new_def)
  have s1: "s1 = record_access k ?s" "map_of (st_data ?s) k = Some it"
    using assms(2) by (cases rule: get_cases [of ?s now k]; simp)+
  then have "st_cas_counter s1 = st_cas_counter ?s" "st_data s1 = st_data ?s" by simp_all
  moreover from this have later: "same_or_later s1 ?t"
    using run_same_or_later [of s1 between] below(2) assms(1) by simp
  moreover have "\<exists>it'. map_of (st_data ?t) k = Some it' \<and> ci_cas_unique it' = ci_cas_unique it"
    using assms(3) by (cases rule: cas_cases [of ?t now' k v f ttl "ci_cas_unique it"]) auto
  moreover have "unat (ci_cas_unique it) < unat (st_cas_counter ?s)"
    using below(1) s1(2) by (simp add: tokens_below_def)
  ultimately show ?thesis using s1(2) by (fastforce simp: same_or_later_def)
qed

theorem cas_no_lost_update_witness:
  "map_of (st_data (fst (run storage_step [OSet 2 ''b'' ''y'' 0 0]
     (fst (get 1 ''a'' (fst (run storage_step [OSet 0 ''a'' ''x'' 0 0] (storage_new length 1000 0)))))))) ''a''
   = Some (new_item 0 ''x'' 0 None 1)"
  by (rule cas_no_lost_update [where before = "[OSet 0 ''a'' ''x'' 0 0]" and h = length and mx = 1000
        and d = 0 and now = 1 and now' = 3 and v = "''z''" and f = 0 and ttl = 0])
    (simp_all add: storage_eval new_item_def)

section \<open>The account under cas\<close>

text \<open>
  Eviction lowers the counter and the true total by the same amount, so whatever the distance
  between the two was before, it is the same after.
\<close>

lemma ensure_account_gap:
  assumes "storage_wf s" "st_memory_used s + g = of_nat (total_size s)"
  shows "storage_wf (ensure_memory_available now n s) \<and>
    st_memory_used (ensure_memory_available now n s) + g =
      of_nat (total_size (ensure_memory_available now n s))"
proof (rule ensure_preserves)
  show "storage_wf s \<and> st_memory_used s + g = of_nat (total_size s)" using assms by simp
next
  fix s k it
  assume s: "storage_wf s \<and> st_memory_used s + g = of_nat (total_size s)" "\<not> st_poisoned s"
    "map_of (st_data s) k = Some it"
  then have "total_size s = entry_size (k, it) + total_size (fst (delete k s))"
    using hm_weight_delete [of "st_data s" k it entry_size]
    by (simp add: total_size_def delete_data storage_wf_def)
  then have "(of_nat (total_size s) :: u64) =
      of_nat (entry_size (k, it)) + of_nat (total_size (fst (delete k s)))"
    by (simp only: of_nat_add)
  moreover have "st_memory_used (fst (delete k s)) = st_memory_used s - of_nat (entry_size (k, it))"
    using s by (simp add: delete_def)
  ultimately show "storage_wf (fst (delete k s)) \<and>
      st_memory_used (fst (delete k s)) + g = of_nat (total_size (fst (delete k s)))"
    using s by (simp add: delete_wf diff_add_eq)
qed

text \<open>
  C28. What a successful \<^verbatim>\<open>cas\<close> does to the memory account, starting from an exact one: it stays
  exact if the eviction it triggers spares the key itself; if the eviction removes that key, the
  size of the old entry has been subtracted twice and the counter is short by exactly that size
  (modulo \<^verbatim>\<open>2^64\<close>).
\<close>

theorem cas_account:
  fixes k v :: bytes and f :: u32
  assumes "storage_inv s" "\<not> st_poisoned s" "map_of (st_data s) k = Some old" "\<not> is_expired now old"
    "calculate_expiry now ttl s = Returned e"
  shows "let s' = fst (cas now k v f ttl (ci_cas_unique old) s);
             t = ensure_memory_available now (size_of_cache_item + length v + length k)
                   (s\<lparr>st_cas_counter := st_cas_counter s + 1,
                      st_memory_used := st_memory_used s - of_nat (entry_size (k, old))\<rparr>)
         in of_nat (total_size s') - st_memory_used s' =
              (if map_of (st_data t) k = None then of_nat (entry_size (k, old)) else 0)"
proof -
  let ?g = "of_nat (entry_size (k, old)) :: u64"
  let ?s = "s\<lparr>st_cas_counter := st_cas_counter s + 1, st_memory_used := st_memory_used s - ?g\<rparr>"
  let ?n = "size_of_cache_item + length v + length k"
  let ?t = "ensure_memory_available now ?n ?s"
  let ?s' = "fst (cas now k v f ttl (ci_cas_unique old) s)"
  let ?it = "new_item now v f e (st_cas_counter s)"
  note ok = cas_match [OF assms(2-4) refl assms(5), of v f]
  have "storage_wf ?s" "st_memory_used ?s + ?g = of_nat (total_size ?s)"
    using assms(1) by (simp_all add: storage_inv_def storage_wf_def mem_exact_def total_size_def)
  from ensure_account_gap [OF this]
  have t: "st_memory_used ?t + ?g = of_nat (total_size ?t)" by simp
  have le: "map_of (st_data ?t) \<subseteq>\<^sub>m map_of (st_data s)" using ensure_le [of now ?n ?s] by simp
  show ?thesis
  proof (cases "map_of (st_data ?t) k")
    case None
    then have "total_size ?s' = total_size ?t + ?n"
      using ok(2) by (simp add: total_size_def hm_weight_update_absent)
    then have "(of_nat (total_size ?s') :: u64) = of_nat (total_size ?t) + of_nat ?n" by simp
    with None ok(3) t show ?thesis by (simp add: Let_def algebra_simps)
  next
    case (Some it)
    with le assms(3) have "it = old" by (force simp: map_le_def dom_def)
    with Some have "total_size ?s' + entry_size (k, old) = total_size ?t + ?n"
      using hm_weight_update_present [of "st_data ?t" k old entry_size ?it] ok(2)
      by (simp add: total_size_def)
    then have "(of_nat (total_size ?s' + entry_size (k, old)) :: u64) = of_nat (total_size ?t + ?n)"
      by (simp only:)
    then have "(of_nat (total_size ?s') :: u64) + ?g = of_nat (total_size ?t) + of_nat ?n"
      by (simp only: of_nat_add)
    with t have "(of_nat (total_size ?s') :: u64) + ?g = st_memory_used ?t + of_nat ?n + ?g"
      by (simp add: algebra_simps)
    then have "(of_nat (total_size ?s') :: u64) = st_memory_used ?t + of_nat ?n" by simp
    with Some ok(3) show ?thesis by (simp add: Let_def)
  qed
qed

theorem cas_account_witness:
  "let s = fst (set_item 0 ''a'' ''x'' 0 0 (storage_new length 100 0));
       s' = fst (cas 1 ''a'' (replicate 90 (CHR ''y'')) 0 0 1 s)
   in of_nat (total_size s') - st_memory_used s' = (74 :: u64)"
  using cas_account [of "fst (set_item 0 ''a'' ''x'' 0 0 (storage_new length 100 0))" "''a''"
      "new_item 0 ''x'' 0 None 1" 1 0 None "replicate 90 (CHR ''y'')" 0,
      OF set_item_inv [OF storage_new_inv]]
  by (simp add: storage_eval new_item_def Let_def)

section \<open>Expiry, and the poisoned lock\<close>

text \<open>
  C29. The background sweep is exact: it removes the expired items and no others, reports how many
  there were, and leaves the invariant in place.
\<close>

theorem cleanup_exact:
  assumes "storage_inv s" "\<not> st_poisoned s"
  shows "map_of (st_data (fst (cleanup_expired now s))) k =
           (case map_of (st_data s) k of
              Some it \<Rightarrow> if is_expired now it then None else Some it | None \<Rightarrow> None)
    \<and> snd (cleanup_expired now s) =
        Returned (card {k. \<exists>it. map_of (st_data s) k = Some it \<and> is_expired now it})
    \<and> storage_inv (fst (cleanup_expired now s))"
proof -
  let ?ks = "filter (\<lambda>k. case map_of (st_data s) k of Some item \<Rightarrow> is_expired now item | None \<Rightarrow> False)
      (hash_iter s (st_data s))"
  have wf: "distinct (hm_keys (st_data s))"
    using assms(1) by (simp add: storage_inv_def storage_wf_def hm_wf_def hm_keys_def)
  then have "distinct ?ks" by (simp add: hash_iter_def)
  have ks: "set ?ks = {k. \<exists>it. map_of (st_data s) k = Some it \<and> is_expired now it}"
    by (auto simp: set_hm_keys dom_def split: option.splits)
  have "length ?ks = card {k. \<exists>it. map_of (st_data s) k = Some it \<and> is_expired now it}"
    using distinct_card [OF \<open>distinct ?ks\<close>] ks by simp
  moreover have "map_of (st_data (delete_all ?ks s)) k =
      (case map_of (st_data s) k of
         Some it \<Rightarrow> if is_expired now it then None else Some it | None \<Rightarrow> None)"
    unfolding delete_all_data [OF assms(2)] ks by (auto split: option.split)
  ultimately show ?thesis
    using assms cleanup_expired_inv [OF assms(1), of now] by (simp add: cleanup_expired_def Let_def)
qed

theorem cleanup_exact_witness:
  "snd (cleanup_expired (3 * 10 ^ 9)
     (fst (set_item 1 ''b'' ''y'' 0 0 (fst (set_item 0 ''a'' ''x'' 0 2 (storage_new length 1000 0))))))
   = Returned (card {k. \<exists>it. map_of (st_data (fst (set_item 1 ''b'' ''y'' 0 0
        (fst (set_item 0 ''a'' ''x'' 0 2 (storage_new length 1000 0)))))) k = Some it \<and> is_expired (3 * 10 ^ 9) it})"
  by (rule cleanup_exact [THEN conjunct2, THEN conjunct1])
    (simp_all add: set_item_inv storage_new_inv, simp add: storage_eval)

lemma poisoned_step:
  assumes "st_poisoned s"
  shows "st_poisoned (fst (storage_step op s)) \<and> snd (storage_step op s) \<in> {RPanic, RItem None}"
proof -
  have "ensure_memory_available now n (s\<lparr>st_cas_counter := c\<rparr>) = s\<lparr>st_cas_counter := c\<rparr>" for now n c
    using assms by (subst ensure_memory_available.simps) (simp add: find_lru_key_def)
  then show ?thesis
    using assms
    by (cases op)
      (auto simp: ret_def get_def get_multi_def add_def replace_def cas_def delete_def append_item_def
        prepend_item_def cleanup_expired_def flush_all_def set_item_def next_cas_unique_def Let_def
        split: outcome.split)
qed

text \<open>
  C31. The cost of a time-to-live that overflows the clock inside \<^verbatim>\<open>cas\<close>: the token matched, the
  expiry computation panics under the write guard, and from then on no operation of any later
  run succeeds: every read misses, everything else panics.
\<close>

theorem cas_overflow_disables_store:
  assumes "\<not> st_poisoned s" "map_of (st_data s) k = Some it" "\<not> is_expired now it"
    "calculate_expiry now ttl s = Panicked"
  shows "set (snd (run storage_step ops (fst (cas now k v f ttl (ci_cas_unique it) s))))
           \<subseteq> {RPanic, RItem None}"
proof -
  have "st_poisoned t \<Longrightarrow> set (snd (run storage_step ops t)) \<subseteq> {RPanic, RItem None}" for t
    by (induction ops arbitrary: t)
      (use poisoned_step in \<open>simp_all add: run_Cons_snd del: run.simps(2)\<close>)
  then show ?thesis using assms by (simp add: cas_def)
qed

theorem cas_overflow_disables_store_witness:
  "set (snd (run storage_step [OGet 2 ''a'', OSet 3 ''b'' ''y'' 0 1, OFlush]
      (fst (cas 1 ''a'' ''z'' 0 0 1 (fst (set_item 0 ''a'' ''x'' 0 5 (storage_new length 1000 (2 ^ 63))))))))
    \<subseteq> {RPanic, RItem None}"
  using cas_overflow_disables_store [of "fst (set_item 0 ''a'' ''x'' 0 5 (storage_new length 1000 (2 ^ 63)))"
      "''a''" "new_item 0 ''x'' 0 (Some 5000000000) 1" 1 0
      "[OGet 2 ''a'', OSet 3 ''b'' ''y'' 0 1, OFlush]" "''z''" 0]
  by (simp add: storage_eval new_item_def ret_def)

end
