(* ===== verification/Storage_Threads.thy ===== *)
theory Storage_Threads
  imports Storage_Correct
begin

text \<open>
  The store under threads that interleave, \<^verbatim>\<open>src/src/storage.rs\<close>. A call of a storage operation is a
  sequence of atomic sections, cut where the source releases and takes the lock on the items and
  where it touches an atomic counter that other threads read without that lock:

  \<^item> the loads of \<^verbatim>\<open>memory_used\<close> in the eviction loop, which no lock protects;
  \<^item> the two updates of \<^verbatim>\<open>memory_used\<close> in \<^verbatim>\<open>set\<close>, between which the write guard is held;
  \<^item> the two halves of \<^verbatim>\<open>record_access\<close> under a read guard, which other readers may separate.

  The position of a thread in its call is a \<open>pc\<close>; a section takes the shared store and a position
  to the next ones. Guards on the items are held across the positions of \<open>holds_read\<close> and
  \<open>holds_write\<close>, and a section that takes one waits for the others to release theirs. The
  order lock only orders sections further; its part in deadlocks is the subject of another theory.

  A section under the write guard may touch two counters (it draws a token and corrects the memory
  in use); that another thread sees the one change before the other is not modelled.

  The theory shows that the sections of a call, run without interruption, are the sequential
  operation, and that under every interleaving the account stays exact.
\<close>

section \<open>Calls and positions\<close>

datatype call =
    CGet bytes
  | CGetMulti "bytes list"
  | CSet bytes bytes u32 u64
  | CAdd bytes bytes u32 u64
  | CReplace bytes bytes u32 u64
  | CCas bytes bytes u32 u64 u64
  | CDelete bytes
  | CAppend bytes bytes
  | CPrepend bytes bytes
  | CCleanup
  | CFlush

fun call_at :: "nat \<Rightarrow> call \<Rightarrow> storage_op" where
  "call_at now (CGet k) = OGet now k"
| "call_at now (CGetMulti ks) = OGetMulti now ks"
| "call_at now (CSet k v f ttl) = OSet now k v f ttl"
| "call_at now (CAdd k v f ttl) = OAdd now k v f ttl"
| "call_at now (CReplace k v f ttl) = OReplace now k v f ttl"
| "call_at now (CCas k v f ttl c) = OCas now k v f ttl c"
| "call_at now (CDelete k) = ODelete k"
| "call_at now (CAppend k d) = OAppend now k d"
| "call_at now (CPrepend k d) = OPrepend now k d"
| "call_at now CCleanup = OCleanup now"
| "call_at now CFlush = OFlush"

text \<open>
  What is left to do after \<^verbatim>\<open>ensure_memory_available\<close>: the write of \<^verbatim>\<open>set\<close> (reached from \<^verbatim>\<open>set\<close>,
  \<^verbatim>\<open>add\<close> or \<^verbatim>\<open>replace\<close>, with the time at which the item was built), that of \<^verbatim>\<open>cas\<close>, or the second
  attempt of \<^verbatim>\<open>append\<close> and \<^verbatim>\<open>prepend\<close>.
\<close>

datatype goal =
    Put call nat bytes cache_item
  | Swap call nat bytes cache_item
  | AppendTo bytes bytes
  | PrependTo bytes bytes

datatype pc =
    Idle
  | Start call
  | Build call
  | EnsureLoad nat goal
  | EnsureFind nat goal
  | EnsureDelete bytes nat goal
  | Finish goal
  | SetAdd call nat bytes cache_item
  | GetRecord bytes u64 cache_item
  | Multi "bytes list" "bytes list" "(bytes \<times> cache_item) list" "bytes list"
  | MultiRecord bytes u64 cache_item "bytes list" "bytes list" "(bytes \<times> cache_item) list" "bytes list"
  | Purge "bytes list" op_result
  | Done op_result

section \<open>Sections\<close>

text \<open>The first half of \<^verbatim>\<open>record_access\<close> draws a number, the second enters it.\<close>

definition draw_seq :: "storage \<Rightarrow> storage" where
  "draw_seq s = s\<lparr>st_access_counter := st_access_counter s + 1\<rparr>"

definition enter_seq :: "bytes \<Rightarrow> u64 \<Rightarrow> storage \<Rightarrow> storage" where
  "enter_seq key seq s = s\<lparr>st_access_order := AList.update key seq (st_access_order s)\<rparr>"

text \<open>The end of \<^verbatim>\<open>set\<close> and \<^verbatim>\<open>cas\<close>: count the new entry, insert it, record the access.\<close>

definition insert_item :: "bytes \<Rightarrow> cache_item \<Rightarrow> storage \<Rightarrow> storage" where
  "insert_item key item s =
     record_access key
       (s\<lparr>st_memory_used := st_memory_used s + of_nat (memory_size item + length key),
          st_data := AList.update key item (st_data s)\<rparr>)"

text \<open>The start of \<^verbatim>\<open>set\<close>: the item is built and its token drawn before any lock is taken.\<close>

definition build_item ::
  "nat \<Rightarrow> call \<Rightarrow> bytes \<Rightarrow> bytes \<Rightarrow> u32 \<Rightarrow> u64 \<Rightarrow> storage \<Rightarrow> storage \<times> pc" where
  "build_item now c key value flags ttl s =
     (case calculate_expiry now ttl s of
        Panicked \<Rightarrow> (s, Done RPanic)
      | Returned expires_at \<Rightarrow>
          let (cas_unique, s1) = next_cas_unique s;
              item = \<lparr>ci_value = value, ci_flags = flags, ci_expires_at = expires_at,
                      ci_cas_unique = cas_unique, ci_last_accessed = now\<rparr>
          in (s1, EnsureLoad (memory_size item + length key) (Put c now key item)))"

text \<open>The first section of \<^verbatim>\<open>append\<close> and \<^verbatim>\<open>prepend\<close>; \<open>f\<close> is what they do to the value.\<close>

definition extend_first ::
  "nat \<Rightarrow> bytes \<Rightarrow> (bytes \<Rightarrow> bytes) \<Rightarrow> nat \<Rightarrow> goal \<Rightarrow> storage \<Rightarrow> storage \<times> pc" where
  "extend_first now key f additional_size g s =
     (if st_poisoned s then (s, Done RPanic)
      else (case map_of (st_data s) key of
              None \<Rightarrow> (s, Done (RRes NotStored))
            | Some item \<Rightarrow>
                if is_expired now item then (drop_expired key item s, Done (RRes NotStored))
                else if uadd (unat (st_memory_used s)) additional_size > st_max_memory s
                then (s, EnsureLoad additional_size g)
                else (update_in_place now key item (f (ci_value item)) additional_size s,
                      Done (RRes Stored))))"

text \<open>Their second section, after the eviction.\<close>

definition extend_again ::
  "nat \<Rightarrow> bytes \<Rightarrow> (bytes \<Rightarrow> bytes) \<Rightarrow> nat \<Rightarrow> storage \<Rightarrow> storage \<times> pc" where
  "extend_again now key f additional_size s =
     (if st_poisoned s then (s, Done RPanic)
      else (case map_of (st_data s) key of
              Some item \<Rightarrow>
                if \<not> is_expired now item
                then (update_in_place now key item (f (ci_value item)) additional_size s,
                      Done (RRes Stored))
                else (s, Done (RRes NotStored))
            | None \<Rightarrow> (s, Done (RRes NotStored))))"

text \<open>The first section of \<^verbatim>\<open>cas\<close>: the check, the new item, and the old size taken off.\<close>

definition cas_check ::
  "nat \<Rightarrow> call \<Rightarrow> bytes \<Rightarrow> bytes \<Rightarrow> u32 \<Rightarrow> u64 \<Rightarrow> u64 \<Rightarrow> storage \<Rightarrow> storage \<times> pc" where
  "cas_check now c key value flags ttl cas_unique s =
     (if st_poisoned s then (s, Done RPanic)
      else (case map_of (st_data s) key of
              None \<Rightarrow> (s, Done (RRes NotFound))
            | Some item \<Rightarrow>
                if is_expired now item then (drop_expired key item s, Done (RRes NotFound))
                else if ci_cas_unique item \<noteq> cas_unique then (s, Done (RRes CasMismatch))
                else (case calculate_expiry now ttl s of
                        Panicked \<Rightarrow> (s\<lparr>st_poisoned := True\<rparr>, Done RPanic)
                      | Returned expires_at \<Rightarrow>
                          let (token, s1) = next_cas_unique s;
                              new_item = \<lparr>ci_value = value, ci_flags = flags,
                                          ci_expires_at = expires_at, ci_cas_unique = token,
                                          ci_last_accessed = now\<rparr>
                          in (s1\<lparr>st_memory_used :=
                                   st_memory_used s1 - of_nat (memory_size item + length key)\<rparr>,
                              EnsureLoad (memory_size new_item + length key)
                                (Swap c now key new_item)))))"

text \<open>The first section of each operation.\<close>

fun start_call :: "nat \<Rightarrow> call \<Rightarrow> storage \<Rightarrow> storage \<times> pc" where
  "start_call now (CGet key) s =
     (if st_poisoned s then (s, Done (RItem None))
      else (case map_of (st_data s) key of
              Some item \<Rightarrow>
                if is_expired now item then (s, Purge [key] (RItem None))
                else (draw_seq s, GetRecord key (st_access_counter s) item)
            | None \<Rightarrow> (s, Done (RItem None))))"
| "start_call now (CGetMulti keys) s =
     (if st_poisoned s then (s, Done RPanic) else (s, Multi keys keys [] []))"
| "start_call now (CSet key value flags ttl) s =
     build_item now (CSet key value flags ttl) key value flags ttl s"
| "start_call now (CAdd key value flags ttl) s =
     (if st_poisoned s then (s, Done RPanic)
      else (case map_of (st_data s) key of
              Some item \<Rightarrow>
                if \<not> is_expired now item then (s, Done (RRes NotStored))
                else (s, Build (CAdd key value flags ttl))
            | None \<Rightarrow> (s, Build (CAdd key value flags ttl))))"
| "start_call now (CReplace key value flags ttl) s =
     (if st_poisoned s then (s, Done RPanic)
      else (case map_of (st_data s) key of
              Some item \<Rightarrow>
                if \<not> is_expired now item then (s, Build (CReplace key value flags ttl))
                else (s, Done (RRes NotStored))
            | None \<Rightarrow> (s, Done (RRes NotStored))))"
| "start_call now (CCas key value flags ttl c) s =
     cas_check now (CCas key value flags ttl c) key value flags ttl c s"
| "start_call now (CDelete key) s = (let (s1, r) = delete key s in (s1, Done (ret RRes r)))"
| "start_call now (CAppend key d) s =
     extend_first now key (\<lambda>v. v @ d) (length d) (AppendTo key d) s"
| "start_call now (CPrepend key d) s =
     extend_first now key (\<lambda>v. d @ v) (length d) (PrependTo key d) s"
| "start_call now CCleanup s =
     (if st_poisoned s then (s, Done RPanic)
      else let expired_keys =
                 filter (\<lambda>k. case map_of (st_data s) k of Some item \<Rightarrow> is_expired now item | None \<Rightarrow> False)
                   (hash_iter s (st_data s))
           in (s, Purge expired_keys (RCount (length expired_keys))))"
| "start_call now CFlush s = (let (s1, r) = flush_all s in (s1, Done (ret (\<lambda>_. RUnit) r)))"

text \<open>The call of \<^verbatim>\<open>set\<close> inside \<^verbatim>\<open>add\<close> and \<^verbatim>\<open>replace\<close>.\<close>

fun build_call :: "nat \<Rightarrow> call \<Rightarrow> storage \<Rightarrow> storage \<times> pc" where
  "build_call now (CAdd key value flags ttl) s =
     build_item now (CAdd key value flags ttl) key value flags ttl s"
| "build_call now (CReplace key value flags ttl) s =
     build_item now (CReplace key value flags ttl) key value flags ttl s"
| "build_call now c s = (s, Build c)"

text \<open>The last section of the operations that make room first.\<close>

fun finish_goal :: "nat \<Rightarrow> goal \<Rightarrow> storage \<Rightarrow> storage \<times> pc" where
  "finish_goal now (Put c at key item) s =
     (if st_poisoned s then (s, Done RPanic)
      else (case map_of (st_data s) key of
              Some old_item \<Rightarrow>
                (s\<lparr>st_memory_used := st_memory_used s - of_nat (memory_size old_item + length key)\<rparr>,
                 SetAdd c at key item)
            | None \<Rightarrow> (insert_item key item s, Done (RRes Stored))))"
| "finish_goal now (Swap c at key item) s =
     (if st_poisoned s then (s, Done RPanic) else (insert_item key item s, Done (RRes Stored)))"
| "finish_goal now (AppendTo key d) s = extend_again now key (\<lambda>v. v @ d) (length d) s"
| "finish_goal now (PrependTo key d) s = extend_again now key (\<lambda>v. d @ v) (length d) s"

fun section_step :: "nat \<Rightarrow> pc \<Rightarrow> storage \<Rightarrow> storage \<times> pc" where
  "section_step now Idle s = (s, Idle)"
| "section_step now (Done r) s = (s, Done r)"
| "section_step now (Start c) s = start_call now c s"
| "section_step now (Build c) s = build_call now c s"
| "section_step now (EnsureLoad needed g) s =
     (if uadd (unat (st_memory_used s)) needed > st_max_memory s then (s, EnsureFind needed g)
      else (s, Finish g))"
| "section_step now (EnsureFind needed g) s =
     (case find_lru_key now s of
        Some key \<Rightarrow> (s, EnsureDelete key needed g)
      | None \<Rightarrow> (s, Finish g))"
| "section_step now (EnsureDelete key needed g) s =
     (if st_poisoned s then (s, Done RPanic) else (fst (delete key s), EnsureLoad needed g))"
| "section_step now (Finish g) s = finish_goal now g s"
| "section_step now (SetAdd c at key item) s = (insert_item key item s, Done (RRes Stored))"
| "section_step now (GetRecord key seq item) s = (enter_seq key seq s, Done (RItem (Some item)))"
| "section_step now (Multi all [] results expired) s = (s, Purge expired (RItems results))"
| "section_step now (Multi all (key # keys) results expired) s =
     (case map_of (st_data s) key of
        Some item \<Rightarrow>
          if is_expired now item then (s, Multi all keys results (expired @ [key]))
          else (draw_seq s, MultiRecord key (st_access_counter s) item all keys results expired)
      | None \<Rightarrow> (s, Multi all keys results expired))"
| "section_step now (MultiRecord key seq item all keys results expired) s =
     (enter_seq key seq s, Multi all keys (results @ [(key, item)]) expired)"
| "section_step now (Purge [] r) s = (s, Done r)"
| "section_step now (Purge (key # keys) r) s =
     (if st_poisoned s then (s, Done RPanic) else (fst (delete key s), Purge keys r))"

section \<open>Workers\<close>

text \<open>
  The guards on the items across sections, and what a section has to acquire before it runs.
\<close>

fun holds_write :: "pc \<Rightarrow> bool" where
  "holds_write (SetAdd c at key item) = True"
| "holds_write _ = False"

fun holds_read :: "pc \<Rightarrow> bool" where
  "holds_read (GetRecord key seq item) = True"
| "holds_read (Multi all keys results expired) = True"
| "holds_read (MultiRecord key seq item all keys results expired) = True"
| "holds_read _ = False"

fun acquires_write :: "pc \<Rightarrow> bool" where
  "acquires_write (Start (CCas k v f ttl c)) = True"
| "acquires_write (Start (CDelete k)) = True"
| "acquires_write (Start (CAppend k d)) = True"
| "acquires_write (Start (CPrepend k d)) = True"
| "acquires_write (Start CFlush) = True"
| "acquires_write (EnsureDelete key needed g) = True"
| "acquires_write (Finish g) = True"
| "acquires_write (Purge (key # keys) r) = True"
| "acquires_write _ = False"

fun acquires_read :: "pc \<Rightarrow> bool" where
  "acquires_read (Start (CGet k)) = True"
| "acquires_read (Start (CGetMulti ks)) = True"
| "acquires_read (Start (CAdd k v f ttl)) = True"
| "acquires_read (Start (CReplace k v f ttl)) = True"
| "acquires_read (Start CCleanup) = True"
| "acquires_read (EnsureFind needed g) = True"
| "acquires_read _ = False"

text \<open>A worker: the calls it has still to make, where it is in the present one, the results so far.\<close>

record worker =
  wk_todo :: "call list"
  wk_pc :: pc
  wk_results :: "op_result list"

definition may_run :: "worker list \<Rightarrow> nat \<Rightarrow> bool" where
  "may_run ws i =
     ((acquires_write (wk_pc (ws ! i)) \<longrightarrow>
         list_all (\<lambda>w. \<not> holds_read (wk_pc w) \<and> \<not> holds_write (wk_pc w)) ws) \<and>
      (acquires_read (wk_pc (ws ! i)) \<longrightarrow> list_all (\<lambda>w. \<not> holds_write (wk_pc w)) ws))"

text \<open>
  The section at which a call takes effect, and the result it will return: the last one that
  reads or writes the items, the removal of expired items apart.
\<close>

fun goal_op :: "nat \<Rightarrow> goal \<Rightarrow> storage_op" where
  "goal_op now (Put c at key item) = call_at at c"
| "goal_op now (Swap c at key item) = call_at at c"
| "goal_op now (AppendTo key d) = OAppend now key d"
| "goal_op now (PrependTo key d) = OPrepend now key d"

fun pc_op :: "nat \<Rightarrow> pc \<Rightarrow> storage_op option" where
  "pc_op now (Start c) = Some (call_at now c)"
| "pc_op now (Build c) = Some (call_at now c)"
| "pc_op now (EnsureLoad needed g) = Some (goal_op now g)"
| "pc_op now (EnsureFind needed g) = Some (goal_op now g)"
| "pc_op now (EnsureDelete key needed g) = Some (goal_op now g)"
| "pc_op now (Finish g) = Some (goal_op now g)"
| "pc_op now (SetAdd c at key item) = Some (call_at at c)"
| "pc_op now (Multi all keys results expired) = Some (OGetMulti now all)"
| "pc_op now (MultiRecord key seq item all keys results expired) = Some (OGetMulti now all)"
| "pc_op now _ = None"

fun pc_result :: "pc \<Rightarrow> op_result option" where
  "pc_result (GetRecord key seq item) = Some (RItem (Some item))"
| "pc_result (Purge keys r) = Some r"
| "pc_result (Done r) = Some r"
| "pc_result _ = None"

text \<open>A call takes effect when its result becomes determined.\<close>

definition takes_effect :: "nat \<Rightarrow> pc \<Rightarrow> pc \<Rightarrow> (storage_op \<times> op_result) option" where
  "takes_effect now before after =
     (case (pc_op now before, pc_result after) of
        (Some op, Some r) \<Rightarrow> Some (op, r)
      | _ \<Rightarrow> None)"

record system =
  sy_store :: storage
  sy_workers :: "worker list"
  sy_history :: "(nat \<times> storage_op \<times> op_result) list"

definition put_worker :: "nat \<Rightarrow> worker \<Rightarrow> system \<Rightarrow> system" where
  "put_worker i w y = y\<lparr>sy_workers := (sy_workers y)[i := w]\<rparr>"

text \<open>
  The turn of worker \<open>i\<close> at time \<open>now\<close>: it starts its next call, returns from one, or runs the
  next section if the guards allow it; otherwise it waits.
\<close>

definition turn :: "nat \<times> nat \<Rightarrow> system \<Rightarrow> system" where
  "turn e y =
     (let (i, now) = e; ws = sy_workers y; w = ws ! i in
      if length ws \<le> i then y
      else (case wk_pc w of
              Idle \<Rightarrow>
                (case wk_todo w of
                   [] \<Rightarrow> y
                 | c # cs \<Rightarrow> put_worker i (w\<lparr>wk_todo := cs, wk_pc := Start c\<rparr>) y)
            | Done r \<Rightarrow> put_worker i (w\<lparr>wk_pc := Idle, wk_results := wk_results w @ [r]\<rparr>) y
            | p \<Rightarrow>
                if may_run ws i
                then let (s1, p1) = section_step now p (sy_store y) in
                     put_worker i (w\<lparr>wk_pc := p1\<rparr>)
                       (y\<lparr>sy_store := s1,
                          sy_history := sy_history y @
                            (case takes_effect now p p1 of Some (op, r) \<Rightarrow> [(i, op, r)] | None \<Rightarrow> [])\<rparr>)
                else y))"

definition start_system :: "storage \<Rightarrow> call list list \<Rightarrow> system" where
  "start_system s todos =
     \<lparr>sy_store = s, sy_workers = map (\<lambda>cs. \<lparr>wk_todo = cs, wk_pc = Idle, wk_results = []\<rparr>) todos,
      sy_history = []\<rparr>"

definition run_system :: "(nat \<times> nat) list \<Rightarrow> system \<Rightarrow> system" where
  "run_system sched y = fold turn sched y"

section \<open>A call on its own\<close>

definition solo_step :: "nat \<Rightarrow> storage \<times> pc \<Rightarrow> storage \<times> pc" where
  "solo_step now x = section_step now (snd x) (fst x)"

inductive solo :: "nat \<Rightarrow> storage \<times> pc \<Rightarrow> storage \<times> pc \<Rightarrow> bool" for now where
  stop: "solo now x x"
| more: "solo now (section_step now p s) y \<Longrightarrow> solo now (s, p) y"

lemma solo_funpow: "solo now x y \<Longrightarrow> \<exists>n. (solo_step now ^^ n) x = y"
proof (induction rule: solo.induct)
  case (stop x)
  have "(solo_step now ^^ 0) x = x" by simp
  then show ?case by blast
next
  case (more p s y)
  then obtain n where "(solo_step now ^^ n) (section_step now p s) = y" by blast
  then have "(solo_step now ^^ Suc n) (s, p) = y" by (simp add: funpow_Suc_right solo_step_def del: funpow.simps)
  then show ?case by blast
qed

lemma solo_trans: "solo now x y \<Longrightarrow> solo now y z \<Longrightarrow> solo now x z"
  by (induction rule: solo.induct) (auto intro: solo.more)

lemma solo_one: "section_step now p s = y \<Longrightarrow> solo now (s, p) y"
  by (rule solo.more) (simp add: solo.stop)

lemma draw_enter: "enter_seq k (st_access_counter s) (draw_seq s) = record_access k s"
  by (simp add: enter_seq_def draw_seq_def record_access_def)

text \<open>The eviction loop, section by section, is \<^verbatim>\<open>ensure_memory_available\<close>.\<close>

lemma solo_ensure:
  "solo now (s, EnsureLoad n g) (ensure_memory_available now n s, Finish g)"
proof (induction now n s rule: ensure_memory_available.induct)
  case (1 now n s)
  show ?case
  proof (cases "st_max_memory s < uadd (unat (st_memory_used s)) n")
    case True
    show ?thesis
    proof (cases "find_lru_key now s")
      case None
      with True show ?thesis
        by (intro solo.more) (simp add: ensure_memory_available.simps [of now n s] solo_one)
    next
      case (Some k)
      with find_lru_key_mem [OF Some] True 1 [OF True Some] show ?thesis
        by (auto simp: ensure_memory_available.simps [of now n s] intro!: solo.more)
    qed
  qed (simp add: ensure_memory_available.simps [of now n s] solo_one)
qed

lemma solo_purge: "\<not> st_poisoned s \<Longrightarrow> solo now (s, Purge ks r) (delete_all ks s, Done r)"
proof (induction ks arbitrary: s)
  case Nil
  then show ?case by (simp add: solo_one)
next
  case (Cons k ks)
  then show ?case by (auto intro!: solo.more)
qed

lemma solo_multi:
  "solo now (s, Multi all ks rs es)
     (case get_multi_loop now ks s rs es of (s1, rs1, es1) \<Rightarrow> (s1, Purge es1 (RItems rs1)))"
proof (induction now ks s rs es rule: get_multi_loop.induct)
  case (1 now s rs es)
  then show ?case by (simp add: solo_one)
next
  case (2 now k ks s rs es)
  show ?case
  proof (cases "map_of (st_data s) k")
    case None
    with 2(1) show ?thesis by (auto intro!: solo.more)
  next
    case (Some it)
    show ?thesis
    proof (cases "is_expired now it")
      case True
      with 2(2) [OF Some] Some show ?thesis by (auto intro!: solo.more)
    next
      case False
      with 2(3) [OF Some False] Some show ?thesis by (auto intro!: solo.more simp: draw_enter)
    qed
  qed
qed

lemma solo_put:
  assumes "calculate_expiry now ttl s = Returned e"
  shows "solo now (build_item now c k v f ttl s) (apsnd (\<lambda>r. Done (ret RRes r)) (set_item now k v f ttl s))"
proof -
  define it where "it = \<lparr>ci_value = v, ci_flags = f, ci_expires_at = e,
    ci_cas_unique = st_cas_counter s, ci_last_accessed = now\<rparr>"
  define s1 where "s1 = s\<lparr>st_cas_counter := st_cas_counter s + 1\<rparr>"
  define n where "n = memory_size it + length k"
  define t where "t = ensure_memory_available now n s1"
  have b: "build_item now c k v f ttl s = (s1, EnsureLoad n (Put c now k it))"
    by (simp add: build_item_def assms next_cas_unique_def Let_def it_def s1_def n_def)
  have set: "set_item now k v f ttl s = (if st_poisoned t then (t, Panicked)
      else (insert_item k it (case map_of (st_data t) k of
              Some old \<Rightarrow> t\<lparr>st_memory_used := st_memory_used t - of_nat (memory_size old + length k)\<rparr>
            | None \<Rightarrow> t), Returned Stored))"
    by (simp add: set_item_def assms next_cas_unique_def Let_def it_def s1_def n_def t_def
        insert_item_def entry_size_def split: option.split)
  have "solo now (t, Finish (Put c now k it)) (apsnd (\<lambda>r. Done (ret RRes r)) (set_item now k v f ttl s))"
    by (cases "st_poisoned t"; cases "map_of (st_data t) k")
      (auto simp: set ret_def intro!: solo.more solo.stop)
  with solo_ensure [of now s1 n "Put c now k it"] show ?thesis
    unfolding b t_def by (rule solo_trans)
qed

lemma solo_build:
  "solo now (build_item now c k v f ttl s) (apsnd (\<lambda>r. Done (ret RRes r)) (set_item now k v f ttl s))"
proof (cases "calculate_expiry now ttl s")
  case Panicked
  then show ?thesis by (simp add: set_item_panics build_item_def ret_def solo.stop)
qed (rule solo_put)

lemma solo_cas:
  "solo now (cas_check now c k v f ttl tok s) (apsnd (\<lambda>r. Done (ret RRes r)) (cas now k v f ttl tok s))"
proof (cases "\<exists>it e. \<not> st_poisoned s \<and> map_of (st_data s) k = Some it \<and> \<not> is_expired now it
    \<and> ci_cas_unique it = tok \<and> calculate_expiry now ttl s = Returned e")
  case True
  then obtain it e where m: "\<not> st_poisoned s" "map_of (st_data s) k = Some it" "\<not> is_expired now it"
    "ci_cas_unique it = tok" "calculate_expiry now ttl s = Returned e" by blast
  define new where "new = \<lparr>ci_value = v, ci_flags = f, ci_expires_at = e,
    ci_cas_unique = st_cas_counter s, ci_last_accessed = now\<rparr>"
  define s1 where "s1 = s\<lparr>st_cas_counter := st_cas_counter s + 1,
    st_memory_used := st_memory_used s - of_nat (memory_size it + length k)\<rparr>"
  define n where "n = memory_size new + length k"
  have b: "cas_check now c k v f ttl tok s = (s1, EnsureLoad n (Swap c now k new))"
    using m by (simp add: cas_check_def next_cas_unique_def Let_def new_def s1_def n_def)
  have "solo now (ensure_memory_available now n s1, Finish (Swap c now k new))
      (apsnd (\<lambda>r. Done (ret RRes r)) (cas now k v f ttl tok s))"
  proof -
    have "\<not> st_poisoned (ensure_memory_available now n s1)" using m by (simp add: s1_def)
    then show ?thesis
      using m by (auto intro!: solo_one
          simp: cas_def next_cas_unique_def Let_def ret_def insert_item_def s1_def n_def new_def)
  qed
  with solo_ensure [of now s1 n "Swap c now k new"] show ?thesis
    unfolding b by (rule solo_trans)
next
  case False
  then show ?thesis
    by (auto simp: cas_check_def cas_def ret_def solo.stop split: option.splits outcome.splits)
qed

lemma solo_again:
  "solo now (s, EnsureLoad n g) (extend_again now k h n (ensure_memory_available now n s))"
  if "\<And>t. finish_goal now g t = extend_again now k h n t"
  using solo_trans [OF solo_ensure [of now s n g] solo_one] that by simp

lemma solo_append:
  "solo now (extend_first now k (\<lambda>v. v @ d) (length d) (AppendTo k d) s)
     (apsnd (\<lambda>r. Done (ret RRes r)) (append_item now k d s))"
  using solo_again [of now "AppendTo k d" k "\<lambda>v. v @ d" "length d" s]
  by (auto simp: extend_first_def append_item_def extend_again_def ret_def Let_def solo.stop
      split: option.splits if_splits)

lemma solo_prepend:
  "solo now (extend_first now k (\<lambda>v. d @ v) (length d) (PrependTo k d) s)
     (apsnd (\<lambda>r. Done (ret RRes r)) (prepend_item now k d s))"
  using solo_again [of now "PrependTo k d" k "\<lambda>v. d @ v" "length d" s]
  by (auto simp: extend_first_def prepend_item_def extend_again_def ret_def Let_def solo.stop
      split: option.splits if_splits)

lemma solo_get: "solo now (start_call now (CGet k) s) (apsnd (\<lambda>r. Done (RItem r)) (get now k s))"
proof (cases rule: get_cases [of s now k])
  case (expired it)
  with solo_purge [of s now "[k]" "RItem None"] show ?thesis by simp
qed (auto simp: draw_enter intro: solo.stop solo_one)

lemma solo_get_multi:
  "solo now (start_call now (CGetMulti ks) s) (apsnd (\<lambda>r. Done (ret RItems r)) (get_multi now ks s))"
proof (cases "st_poisoned s")
  case False
  obtain s1 rs es where l: "get_multi_loop now ks s [] [] = (s1, rs, es)" by (metis prod_cases3)
  then have "\<not> st_poisoned s1" using get_multi_loop_frame [of now ks s "[]" "[]"] False by simp
  then show ?thesis
    using solo_trans [OF _ solo_purge, of now _ s1 es "RItems rs"] solo_multi [of now s ks ks "[]" "[]"] False
    by (simp add: get_multi_def l ret_def)
qed (simp add: get_multi_def ret_def solo.stop)

lemma solo_cleanup:
  "solo now (start_call now CCleanup s) (apsnd (\<lambda>r. Done (ret RCount r)) (cleanup_expired now s))"
  by (simp add: cleanup_expired_def ret_def Let_def solo_purge solo.stop)

lemma solo_checked:
  "solo now (start_call now (CAdd k v f ttl) s) (apsnd (\<lambda>r. Done (ret RRes r)) (add now k v f ttl s))"
  "solo now (start_call now (CReplace k v f ttl) s) (apsnd (\<lambda>r. Done (ret RRes r)) (replace now k v f ttl s))"
  using solo.more [of now "Build (CAdd k v f ttl)" s] solo.more [of now "Build (CReplace k v f ttl)" s]
    solo_build [of now _ k v f ttl s]
  by (auto simp: add_def replace_def ret_def solo.stop split: option.splits)

lemma solo_direct:
  "solo now (start_call now (CSet k v f ttl) s) (apsnd (\<lambda>r. Done (ret RRes r)) (set_item now k v f ttl s))"
  "solo now (start_call now (CCas k v f ttl t) s) (apsnd (\<lambda>r. Done (ret RRes r)) (cas now k v f ttl t s))"
  "solo now (start_call now (CAppend k d) s) (apsnd (\<lambda>r. Done (ret RRes r)) (append_item now k d s))"
  "solo now (start_call now (CPrepend k d) s) (apsnd (\<lambda>r. Done (ret RRes r)) (prepend_item now k d s))"
  "solo now (start_call now (CDelete k) s) (apsnd (\<lambda>r. Done (ret RRes r)) (delete k s))"
  "solo now (start_call now CFlush s) (apsnd (\<lambda>r. Done (ret (\<lambda>_. RUnit) r)) (flush_all s))"
  using solo_build solo_cas solo_append solo_prepend
  by (simp_all add: apsnd_def map_prod_def split_beta solo.stop)

lemmas solo_call = solo_get solo_get_multi solo_checked solo_cleanup solo_direct

text \<open>
  The sections of a call, run one after the other without interruption, end, and what they do
  to the store and return is what the sequential model of the operation does and returns.
\<close>

lemma sections_compose:
  "\<exists>n. (solo_step now ^^ n) (s, Start c)
     = (fst (storage_step (call_at now c) s), Done (snd (storage_step (call_at now c) s)))"
proof -
  have "solo now (start_call now c s) (apsnd Done (storage_step (call_at now c) s))"
    using solo_call by (cases c) (simp_all add: apsnd_compose comp_def del: start_call.simps)
  then have "solo now (s, Start c) (apsnd Done (storage_step (call_at now c) s))"
    by (intro solo.more) simp
  from solo_funpow [OF this] show ?thesis by (simp add: apsnd_def map_prod_def split_beta)
qed

section \<open>One turn\<close>

text \<open>The guards a section runs under: those it takes and those it holds.\<close>

definition reads :: "pc \<Rightarrow> bool" where
  "reads p = (acquires_read p \<or> holds_read p)"

definition writes :: "pc \<Rightarrow> bool" where
  "writes p = (acquires_write p \<or> holds_write p)"

lemma turn_cases:
  obtains (wait) "turn (i, now) y = y"
  | (call) c cs where "i < length (sy_workers y)" "wk_pc (sy_workers y ! i) = Idle"
      "wk_todo (sy_workers y ! i) = c # cs"
      "turn (i, now) y = put_worker i ((sy_workers y ! i)\<lparr>wk_todo := cs, wk_pc := Start c\<rparr>) y"
  | (return) r where "i < length (sy_workers y)" "wk_pc (sy_workers y ! i) = Done r"
      "turn (i, now) y = put_worker i
         ((sy_workers y ! i)\<lparr>wk_pc := Idle, wk_results := wk_results (sy_workers y ! i) @ [r]\<rparr>) y"
  | (runs) s1 p1 where "i < length (sy_workers y)" "wk_pc (sy_workers y ! i) \<noteq> Idle"
      "\<And>r. wk_pc (sy_workers y ! i) \<noteq> Done r" "may_run (sy_workers y) i"
      "section_step now (wk_pc (sy_workers y ! i)) (sy_store y) = (s1, p1)"
      "turn (i, now) y = put_worker i ((sy_workers y ! i)\<lparr>wk_pc := p1\<rparr>)
         (y\<lparr>sy_store := s1,
            sy_history := sy_history y @
              (case takes_effect now (wk_pc (sy_workers y ! i)) p1 of
                 Some (op, r) \<Rightarrow> [(i, op, r)] | None \<Rightarrow> [])\<rparr>)"
proof -
  let ?p = "wk_pc (sy_workers y ! i)"
  consider "length (sy_workers y) \<le> i" | "i < length (sy_workers y)" "?p = Idle"
    | r where "i < length (sy_workers y)" "?p = Done r"
    | "i < length (sy_workers y)" "?p \<noteq> Idle" "\<And>r. ?p \<noteq> Done r" "\<not> may_run (sy_workers y) i"
    | "i < length (sy_workers y)" "?p \<noteq> Idle" "\<And>r. ?p \<noteq> Done r" "may_run (sy_workers y) i"
    by (metis not_le)
  then show thesis
  proof cases
    case 1
    then show ?thesis by (intro wait) (simp add: turn_def Let_def)
  next
    case 2
    then show ?thesis
      by (cases "wk_todo (sy_workers y ! i)") (auto simp: turn_def Let_def intro: wait call)
  next
    case 3
    then show ?thesis by (intro return) (auto simp: turn_def Let_def)
  next
    case 4
    then show ?thesis by (intro wait) (simp add: turn_def Let_def split: pc.split)
  next
    case 5
    obtain s1 p1 where "section_step now ?p (sy_store y) = (s1, p1)" by fastforce
    with 5 show ?thesis by (intro runs) (auto simp: turn_def Let_def split: pc.split)
  qed
qed

lemma put_worker_fields [simp]:
  "sy_store (put_worker i w y) = sy_store y"
  "sy_history (put_worker i w y) = sy_history y"
  "sy_workers (put_worker i w y) = (sy_workers y)[i := w]"
  by (simp_all add: put_worker_def)

text \<open>A writer excludes every other guard.\<close>

definition exclusive :: "worker list \<Rightarrow> bool" where
  "exclusive ws =
     (\<forall>i < length ws. \<forall>j < length ws. i \<noteq> j \<longrightarrow> holds_write (wk_pc (ws ! i)) \<longrightarrow>
        \<not> holds_read (wk_pc (ws ! j)) \<and> \<not> holds_write (wk_pc (ws ! j)))"

named_theorems section_defs \<open>the bodies of the sections\<close>
lemmas [section_defs] = build_item_def extend_first_def extend_again_def cas_check_def
  next_cas_unique_def Let_def split_beta

lemma start_call_holds:
  "holds_write (snd (start_call now c s)) \<Longrightarrow> acquires_write (Start c)"
  "holds_read (snd (start_call now c s)) \<Longrightarrow> acquires_read (Start c)"
  by (cases c; simp add: section_defs split: option.splits if_splits outcome.splits)+

lemma build_call_free:
  "\<not> holds_write (snd (build_call now c s))" "\<not> holds_read (snd (build_call now c s))"
  by (cases c; simp add: section_defs split: option.splits if_splits outcome.splits)+

lemma finish_goal_holds: "\<not> holds_read (snd (finish_goal now g s))"
  by (cases g) (auto simp: section_defs split: option.splits if_splits outcome.splits)

lemma section_holds:
  "holds_write (snd (section_step now p s)) \<Longrightarrow> acquires_write p"
  "holds_read (snd (section_step now p s)) \<Longrightarrow> reads p"
  by (cases "(now, p, s)" rule: section_step.cases;
      auto simp: reads_def start_call_holds build_call_free finish_goal_holds
        split: option.splits if_splits)+


lemma section_acquires:
  "may_run ws i \<Longrightarrow> i < length ws \<Longrightarrow> j < length ws \<Longrightarrow> acquires_write (wk_pc (ws ! i)) \<Longrightarrow>
    \<not> holds_read (wk_pc (ws ! j)) \<and> \<not> holds_write (wk_pc (ws ! j))"
  "may_run ws i \<Longrightarrow> i < length ws \<Longrightarrow> j < length ws \<Longrightarrow> acquires_read (wk_pc (ws ! i)) \<Longrightarrow>
    \<not> holds_write (wk_pc (ws ! j))"
  by (auto simp: may_run_def list_all_length)

text \<open>While a section runs under a guard, no other worker is inside a write section.\<close>

lemma no_other_writer:
  assumes "exclusive ws" "may_run ws i" "i < length ws" "j < length ws" "j \<noteq> i"
    "reads (wk_pc (ws ! i)) \<or> writes (wk_pc (ws ! i))"
  shows "\<not> holds_write (wk_pc (ws ! j))"
  using assms unfolding exclusive_def reads_def writes_def
  by (metis section_acquires)

lemma exclusive_update:
  assumes "exclusive ws" "i < length ws" "may_run ws i"
    and "holds_write (wk_pc w) \<Longrightarrow> acquires_write (wk_pc (ws ! i))"
    and "holds_read (wk_pc w) \<Longrightarrow> reads (wk_pc (ws ! i))"
  shows "exclusive (ws[i := w])"
  unfolding exclusive_def
proof (intro allI impI)
  fix a b
  assume ab: "a < length (ws[i := w])" "b < length (ws[i := w])" "a \<noteq> b"
    and wr: "holds_write (wk_pc (ws[i := w] ! a))"
  consider "a = i" | "b = i" "a \<noteq> i" | "a \<noteq> i" "b \<noteq> i" by blast
  then show "\<not> holds_read (wk_pc (ws[i := w] ! b)) \<and> \<not> holds_write (wk_pc (ws[i := w] ! b))"
  proof cases
    case 1
    with ab wr assms(2-4) section_acquires(1) [of ws i b] show ?thesis by simp
  next
    case 2
    with ab wr have a: "holds_write (wk_pc (ws ! a))" "a < length ws" by simp_all
    then have "\<not> acquires_write (wk_pc (ws ! i))" "\<not> acquires_read (wk_pc (ws ! i))"
      using section_acquires [OF assms(3,2)] by blast+
    moreover have "\<not> holds_read (wk_pc (ws ! i))"
      using a 2 assms(1,2) unfolding exclusive_def by blast
    ultimately show ?thesis using 2 ab assms(4,5) by (auto simp: reads_def)
  next
    case 3
    with ab wr assms(1) show ?thesis by (simp add: exclusive_def)
  qed
qed

lemma exclusive_free:
  assumes "exclusive ws" "\<not> holds_write (wk_pc w)" "\<not> holds_read (wk_pc w)"
  shows "exclusive (ws[i := w])"
  unfolding exclusive_def
proof (intro allI impI)
  fix a b
  assume ab: "a < length (ws[i := w])" "b < length (ws[i := w])" "a \<noteq> b"
    and wr: "holds_write (wk_pc (ws[i := w] ! a))"
  then have "a \<noteq> i" using assms(2) by (cases "a = i") simp_all
  with ab wr have "\<not> holds_read (wk_pc (ws ! b)) \<and> \<not> holds_write (wk_pc (ws ! b))"
    using assms(1) [unfolded exclusive_def, rule_format, of a b] by simp
  with assms(2,3) ab(2) show "\<not> holds_read (wk_pc (ws[i := w] ! b)) \<and> \<not> holds_write (wk_pc (ws[i := w] ! b))"
    by (cases "b = i") simp_all
qed

lemma turn_exclusive: "exclusive (sy_workers y) \<Longrightarrow> exclusive (sy_workers (turn e y))"
proof (cases e)
  case (Pair i now)
  assume ex: "exclusive (sy_workers y)"
  show ?thesis
  proof (cases rule: turn_cases [of i now y])
    case (runs s1 p1)
    with section_holds [of now "wk_pc (sy_workers y ! i)" "sy_store y"] ex show ?thesis
      unfolding Pair by (auto intro: exclusive_update)
  qed (use ex in \<open>simp_all add: Pair exclusive_free\<close>)
qed

section \<open>Sections and the items\<close>

lemma draw_enter_fields [simp]:
  "st_data (draw_seq s) = st_data s" "st_memory_used (draw_seq s) = st_memory_used s"
  "st_max_memory (draw_seq s) = st_max_memory s" "st_poisoned (draw_seq s) = st_poisoned s"
  "st_access_order (draw_seq s) = st_access_order s" "st_default_ttl (draw_seq s) = st_default_ttl s"
  "st_data (enter_seq k q s) = st_data s" "st_memory_used (enter_seq k q s) = st_memory_used s"
  "st_max_memory (enter_seq k q s) = st_max_memory s" "st_poisoned (enter_seq k q s) = st_poisoned s"
  "st_default_ttl (enter_seq k q s) = st_default_ttl s"
  by (simp_all add: draw_seq_def enter_seq_def)

text \<open>Only a section that writes changes the items or the account.\<close>

definition same_items :: "storage \<Rightarrow> storage \<Rightarrow> bool" where
  "same_items s t =
     (st_data t = st_data s \<and> st_memory_used t = st_memory_used s \<and> st_poisoned t = st_poisoned s)"

lemma start_call_same_items:
  "\<not> acquires_write (Start c) \<Longrightarrow> same_items s (fst (start_call now c s))"
  by (cases c) (auto simp: same_items_def section_defs split: option.splits outcome.splits)

lemma build_call_same_items: "same_items s (fst (build_call now c s))"
  by (cases c) (auto simp: same_items_def section_defs split: outcome.splits)

lemma section_same_items: "\<not> writes p \<Longrightarrow> same_items s (fst (section_step now p s))"
  by (cases "(now, p, s)" rule: section_step.cases)
    (auto simp: writes_def start_call_same_items build_call_same_items, auto simp: same_items_def split: option.splits)

lemma insert_item_fields:
  "st_data (insert_item k it s) = AList.update k it (st_data s)"
  "st_memory_used (insert_item k it s) = st_memory_used s + of_nat (entry_size (k, it))"
  "st_max_memory (insert_item k it s) = st_max_memory s"
  "st_poisoned (insert_item k it s) = st_poisoned s"
  "st_default_ttl (insert_item k it s) = st_default_ttl s"
  "st_access_order (insert_item k it s) = AList.update k (st_access_counter s) (st_access_order s)"
  by (simp_all add: insert_item_def entry_size_def record_access_def)

lemma insert_item_wf: "storage_wf s \<Longrightarrow> storage_wf (insert_item k it s)"
  by (rule update_wf [OF _ insert_item_fields(1) insert_item_fields(6)])

lemma enter_seq_wf: "storage_wf s \<Longrightarrow> storage_wf (enter_seq k q s)"
  by (auto simp: storage_wf_alt enter_seq_def dom_update_hm)

lemma update_in_place_wf: "storage_wf s \<Longrightarrow> storage_wf (update_in_place now k it v n s)"
  by (rule update_wf [OF _ update_in_place_fields(1,5)])

lemma drop_expired_wf: "storage_wf s \<Longrightarrow> storage_wf (drop_expired k it s)"
  by (auto simp: storage_wf_alt drop_expired_def dom_delete_hm)

lemma storage_wf_counters [simp]:
  "storage_wf (s\<lparr>st_cas_counter := c\<rparr>) = storage_wf s"
  "storage_wf (s\<lparr>st_memory_used := u\<rparr>) = storage_wf s"
  "storage_wf (s\<lparr>st_access_counter := q\<rparr>) = storage_wf s"
  "storage_wf (s\<lparr>st_poisoned := b\<rparr>) = storage_wf s"
  by (simp_all add: storage_wf_def)

lemma flush_wf: "storage_wf s \<Longrightarrow> storage_wf (fst (flush_all s))"
  by (simp add: flush_all_def storage_wf_def hm_keys_def)

lemmas section_wf_intros = insert_item_wf enter_seq_wf update_in_place_wf drop_expired_wf delete_wf flush_wf

lemma start_call_wf: "storage_wf s \<Longrightarrow> storage_wf (fst (start_call now c s))"
  by (cases c)
    (auto simp: section_defs section_wf_intros, auto simp: section_defs section_wf_intros draw_seq_def
      split: option.split outcome.split)

lemma build_call_wf: "storage_wf s \<Longrightarrow> storage_wf (fst (build_call now c s))"
  by (cases c) (auto simp: section_defs split: outcome.split)

lemma finish_goal_wf: "storage_wf s \<Longrightarrow> storage_wf (fst (finish_goal now g s))"
  by (cases g) (auto simp: section_defs section_wf_intros split: option.split)

lemma section_wf: "storage_wf s \<Longrightarrow> storage_wf (fst (section_step now p s))"
  by (cases "(now, p, s)" rule: section_step.cases)
    (auto simp: start_call_wf build_call_wf finish_goal_wf section_wf_intros draw_seq_def
      split: option.split)

section \<open>The account under interleaving\<close>

text \<open>Positions of a \<^verbatim>\<open>cas\<close>.\<close>

definition is_cas :: "call \<Rightarrow> bool" where
  "is_cas c = (case c of CCas k v f ttl t \<Rightarrow> True | _ \<Rightarrow> False)"

definition is_swap :: "goal \<Rightarrow> bool" where
  "is_swap g = (case g of Swap c at k it \<Rightarrow> True | _ \<Rightarrow> False)"

fun uses_cas :: "pc \<Rightarrow> bool" where
  "uses_cas (Start c) = is_cas c"
| "uses_cas (EnsureLoad n g) = is_swap g"
| "uses_cas (EnsureFind n g) = is_swap g"
| "uses_cas (EnsureDelete k n g) = is_swap g"
| "uses_cas (Finish g) = is_swap g"
| "uses_cas _ = False"

text \<open>
  Between the two updates of \<^verbatim>\<open>memory_used\<close> in \<^verbatim>\<open>set\<close> the counter is short of the old entry.
\<close>

fun balanced :: "pc \<Rightarrow> storage \<Rightarrow> bool" where
  "balanced (SetAdd c at k it) s =
     (case map_of (st_data s) k of
        Some old \<Rightarrow> st_memory_used s + of_nat (entry_size (k, old)) = of_nat (total_size s)
      | None \<Rightarrow> False)"
| "balanced _ s = mem_exact s"

lemma balanced_free: "\<not> holds_write p \<Longrightarrow> balanced p s = mem_exact s"
  by (cases p) simp_all

lemma balanced_cong:
  "st_data t = st_data s \<Longrightarrow> st_memory_used t = st_memory_used s \<Longrightarrow> balanced p t = balanced p s"
  by (cases p) (simp_all add: mem_exact_def total_size_def split: option.split)

lemma insert_item_exact:
  assumes "mem_exact s" "map_of (st_data s) k = None"
  shows "mem_exact (insert_item k it s)"
  by (rule update_exact [OF assms(1) insert_item_fields(1)]) (simp add: insert_item_fields assms(2))

lemma insert_item_balanced:
  assumes "balanced (SetAdd c at k it) s"
  shows "mem_exact (insert_item k it s)"
proof -
  from assms obtain old where old: "map_of (st_data s) k = Some old"
    and u: "st_memory_used s + of_nat (entry_size (k, old)) = of_nat (total_size s)"
    by (auto split: option.splits)
  show ?thesis
  proof (rule update_exact)
    show "mem_exact (s\<lparr>st_memory_used := of_nat (total_size s)\<rparr>)"
      by (simp add: mem_exact_def total_size_def)
    show "st_data (insert_item k it s)
        = AList.update k it (st_data (s\<lparr>st_memory_used := of_nat (total_size s)\<rparr>))"
      by (simp add: insert_item_fields)
  qed (simp add: insert_item_fields old flip: u)
qed

lemma extend_exact:
  assumes "storage_wf s" "mem_exact s" "\<not> st_poisoned s" "\<And>v. length (h v) = length v + n"
  shows "mem_exact (fst (extend_first now k h n g s))" "mem_exact (fst (extend_again now k h n s))"
  using assms update_in_place_inv [of s k _ "h _" n now] drop_expired_inv [of s k]
  by (auto simp: section_defs storage_inv_def split: option.split)

lemma extend_not_poisoned:
  "\<not> st_poisoned s \<Longrightarrow> \<not> st_poisoned (fst (extend_first now k h n g s))"
  "\<not> st_poisoned s \<Longrightarrow> \<not> st_poisoned (fst (extend_again now k h n s))"
  by (simp_all add: section_defs update_in_place_fields drop_expired_def split: option.split)

lemma extend_pc:
  "\<not> holds_write (snd (extend_first now k h n g s))" "\<not> holds_write (snd (extend_again now k h n s))"
  "\<not> is_swap g \<Longrightarrow> \<not> uses_cas (snd (extend_first now k h n g s))"
  "\<not> uses_cas (snd (extend_again now k h n s))"
  by (simp_all add: section_defs split: option.split)

text \<open>What a section leaves behind, when it started from an exact account.\<close>

definition sound_after :: "storage \<times> pc \<Rightarrow> bool" where
  "sound_after x = (balanced (snd x) (fst x) \<and> \<not> st_poisoned (fst x) \<and> \<not> uses_cas (snd x))"

lemma extend_sound:
  assumes "storage_wf s" "mem_exact s" "\<not> st_poisoned s" "\<And>v. length (h v) = length v + n"
  shows "\<not> is_swap g \<Longrightarrow> sound_after (extend_first now k h n g s)" "sound_after (extend_again now k h n s)"
  using extend_exact [OF assms] extend_not_poisoned [OF assms(3)] extend_pc
  by (simp_all add: sound_after_def balanced_free)

lemma finish_goal_sound:
  assumes "storage_wf s" "mem_exact s" "\<not> st_poisoned s" "\<not> is_swap g"
  shows "sound_after (finish_goal now g s)"
proof (cases g)
  case (Put c at k it)
  show ?thesis
  proof (cases "map_of (st_data s) k")
    case None
    with Put assms insert_item_exact show ?thesis by (simp add: sound_after_def insert_item_fields)
  next
    case (Some old)
    with Put assms show ?thesis
      by (simp add: sound_after_def mem_exact_def total_size_def entry_size_def)
  qed
qed (use assms extend_sound(2) [OF assms(1-3)] in \<open>simp_all add: is_swap_def\<close>)

lemma start_call_sound:
  assumes "storage_wf s" "mem_exact s" "\<not> st_poisoned s" "\<not> is_cas c" "acquires_write (Start c)"
  shows "sound_after (start_call now c s)"
proof (cases c)
  case (CDelete k)
  with assms show ?thesis by (simp add: sound_after_def split_beta delete_exact)
next
  case CFlush
  with assms show ?thesis by (simp add: sound_after_def flush_all_def mem_exact_def total_size_def)
qed (use assms extend_sound(1) [OF assms(1-3)] in \<open>simp_all add: is_cas_def is_swap_def\<close>)

lemma section_sound:
  assumes "storage_wf s" "balanced p s" "\<not> st_poisoned s" "\<not> uses_cas p" "writes p"
  shows "sound_after (section_step now p s)"
  using assms
  by (cases "(now, p, s)" rule: section_step.cases)
    (auto simp: writes_def intro: start_call_sound finish_goal_sound,
      auto simp: sound_after_def delete_exact insert_item_fields intro: insert_item_balanced)

lemma free_section_sound:
  assumes "\<not> writes p" "\<not> uses_cas p"
  shows "\<not> uses_cas (snd (section_step now p s))"
proof -
  have "\<not> uses_cas (snd (start_call now c s))" if "\<not> acquires_write (Start c)" for c
    using that by (cases c) (auto simp: section_defs is_swap_def split: option.splits outcome.splits)
  moreover have "\<not> uses_cas (snd (build_call now c s))" for c
    by (cases c) (auto simp: section_defs is_swap_def split: outcome.splits)
  ultimately show ?thesis
    using assms by (cases "(now, p, s)" rule: section_step.cases) (auto simp: writes_def split: option.split)
qed

text \<open>
  The invariant of a system none of whose workers calls \<^verbatim>\<open>cas\<close>: writers are alone, the store is
  well-formed, and its account is exact, or short of one entry while a writer holds the guard.
\<close>

definition accounted :: "system \<Rightarrow> bool" where
  "accounted y =
     (exclusive (sy_workers y) \<and> storage_wf (sy_store y) \<and> \<not> st_poisoned (sy_store y) \<and>
      (\<forall>w\<in>set (sy_workers y). \<not> uses_cas (wk_pc w) \<and> list_all (\<lambda>c. \<not> is_cas c) (wk_todo w)) \<and>
      (\<forall>w\<in>set (sy_workers y). holds_write (wk_pc w) \<longrightarrow> balanced (wk_pc w) (sy_store y)) \<and>
      ((\<forall>w\<in>set (sy_workers y). \<not> holds_write (wk_pc w)) \<longrightarrow> mem_exact (sy_store y)))"

lemma start_accounted:
  assumes "storage_inv s" "\<not> st_poisoned s" "list_all (list_all (\<lambda>c. \<not> is_cas c)) todos"
  shows "accounted (start_system s todos)"
  using assms by (auto simp: accounted_def start_system_def exclusive_def storage_inv_def list_all_iff)

text \<open>The account as the section of worker \<open>i\<close> finds it.\<close>

lemma accounted_balanced:
  assumes "accounted y" "i < length (sy_workers y)" "may_run (sy_workers y) i"
    "reads (wk_pc (sy_workers y ! i)) \<or> writes (wk_pc (sy_workers y ! i))"
  shows "balanced (wk_pc (sy_workers y ! i)) (sy_store y)"
proof (cases "holds_write (wk_pc (sy_workers y ! i))")
  case True
  with assms(1,2) show ?thesis by (auto simp: accounted_def)
next
  case False
  have "\<not> holds_write (wk_pc w)" if "w \<in> set (sy_workers y)" for w
  proof -
    from that obtain j where "j < length (sy_workers y)" "w = sy_workers y ! j" by (metis in_set_conv_nth)
    with no_other_writer [OF _ assms(3,2) _ _ assms(4), of j] False assms(1) show ?thesis
      by (cases "j = i") (auto simp: accounted_def)
  qed
  with assms(1) False show ?thesis by (auto simp: accounted_def balanced_free)
qed

lemma ball_set_update:
  "i < length xs \<Longrightarrow> (\<forall>x\<in>set (xs[i := v]). P x) \<longleftrightarrow> P v \<and> (\<forall>j<length xs. j \<noteq> i \<longrightarrow> P (xs ! j))"
  by (auto simp: all_set_conv_all_nth nth_list_update)

lemma accounted_worker:
  "accounted y \<Longrightarrow> i < length (sy_workers y) \<Longrightarrow> \<not> uses_cas (wk_pc (sy_workers y ! i))"
  "accounted y \<Longrightarrow> i < length (sy_workers y) \<Longrightarrow> list_all (\<lambda>c. \<not> is_cas c) (wk_todo (sy_workers y ! i))"
  by (simp_all add: accounted_def)

lemma accounted_idle:
  assumes "accounted y" "i < length (sy_workers y)"
    "\<not> holds_write (wk_pc (sy_workers y ! i))" "\<not> holds_read (wk_pc (sy_workers y ! i))"
    "\<not> holds_write (wk_pc w)" "\<not> holds_read (wk_pc w)" "\<not> uses_cas (wk_pc w)"
    "list_all (\<lambda>c. \<not> is_cas c) (wk_todo w)"
  shows "accounted (put_worker i w y)"
proof -
  have "mem_exact (sy_store y)" if "\<forall>j<length (sy_workers y). j \<noteq> i \<longrightarrow> \<not> holds_write (wk_pc (sy_workers y ! j))"
    using assms(1,3) that unfolding accounted_def by (metis in_set_conv_nth)
  then show ?thesis
    using assms by (auto simp: accounted_def ball_set_update exclusive_free)
qed

lemma turn_accounted:
  assumes "accounted y"
  shows "accounted (turn e y)"
proof (cases e)
  case (Pair i now)
  show ?thesis
  proof (cases rule: turn_cases [of i now y])
    case (call c cs)
    with accounted_worker(2) [OF assms call(1)] assms show ?thesis by (simp add: Pair accounted_idle)
  next
    case (return r)
    with accounted_worker(2) [OF assms return(1)] assms show ?thesis by (simp add: Pair accounted_idle)
  next
    case (runs s1 p1)
    let ?ws = "sy_workers y" and ?s = "sy_store y" and ?p = "wk_pc (sy_workers y ! i)"
    note w = accounted_worker [OF assms runs(1)]
    have s: "storage_wf ?s" "\<not> st_poisoned ?s" using assms by (auto simp: accounted_def)
    have ex: "exclusive (sy_workers (turn e y))" using turn_exclusive assms by (auto simp: accounted_def)
    have wf: "storage_wf s1" using section_wf [OF s(1), of now ?p] runs(5) by simp
    show ?thesis
    proof (cases "writes ?p")
      case True
      then have "sound_after (s1, p1)"
        using section_sound [OF s(1) accounted_balanced [OF assms runs(1,4)] s(2) w(1) True, of now]
        by (simp add: runs(5))
      moreover have "\<not> holds_write (wk_pc (?ws ! j))" if "j < length ?ws" "j \<noteq> i" for j
        using no_other_writer [OF _ runs(4,1)] that True assms by (auto simp: accounted_def)
      ultimately show ?thesis
        using wf ex assms runs(1,6) w(2)
        by (auto simp: Pair accounted_def ball_set_update sound_after_def balanced_free)
    next
      case False
      then have same: "st_data s1 = st_data ?s" "st_memory_used s1 = st_memory_used ?s" "\<not> st_poisoned s1"
        using section_same_items [of ?p ?s now] runs(5) s by (auto simp: same_items_def)
      have p1: "\<not> uses_cas p1" "\<not> holds_write p1"
        using free_section_sound [OF False w(1), of now ?s] section_holds(1) [of now ?p ?s] False runs(5)
        by (auto simp: writes_def)
      have "mem_exact s1" if "\<forall>j<length ?ws. j \<noteq> i \<longrightarrow> \<not> holds_write (wk_pc (?ws ! j))"
      proof -
        have "\<forall>w\<in>set ?ws. \<not> holds_write (wk_pc w)"
          using that False unfolding writes_def by (metis in_set_conv_nth)
        then have "mem_exact ?s" using assms by (simp add: accounted_def)
        then show ?thesis by (simp add: mem_exact_def total_size_def same)
      qed
      then show ?thesis
        using wf ex assms runs(1,6) w(2) p1 same(3) balanced_cong [OF same(1,2)]
        by (auto simp: Pair accounted_def ball_set_update)
    qed
  qed (use assms in \<open>simp add: Pair\<close>)
qed

text \<open>
  C12. The memory account under interleaving: whatever the threads do, in whatever order their
  sections run, as long as none calls \<^verbatim>\<open>cas\<close>, the store stays well-formed, its lock is never poisoned,
  and whenever no thread is inside the write section of \<^verbatim>\<open>set\<close> the counter \<^verbatim>\<open>memory_used\<close> is exactly the
  total size of the entries (modulo the width of the counter).
\<close>

theorem interleaved_account:
  assumes "storage_inv s" "\<not> st_poisoned s" "list_all (list_all (\<lambda>c. \<not> is_cas c)) todos"
  shows "let y = run_system sched (start_system s todos)
    in storage_wf (sy_store y) \<and> \<not> st_poisoned (sy_store y)
      \<and> (list_all (\<lambda>w. \<not> holds_write (wk_pc w)) (sy_workers y) \<longrightarrow> storage_inv (sy_store y))"
proof -
  have "accounted (run_system sched (start_system s todos))"
    unfolding run_system_def
    by (rule fold_invariant [where Q = "\<lambda>_. True"]) (simp_all add: start_accounted assms turn_accounted)
  then show ?thesis by (auto simp: accounted_def storage_inv_def list_all_iff Let_def)
qed

lemmas system_eval = run_system_def start_system_def turn_def put_worker_def may_run_def takes_effect_def
  build_item_def extend_first_def extend_again_def cas_check_def insert_item_def draw_seq_def enter_seq_def
  ret_def fold.simps storage_eval

theorem interleaved_account_witness:
  "let y = run_system [(0, 1), (1, 1), (0, 1), (1, 2), (0, 3), (1, 3), (0, 4)]
         (start_system (storage_new length 100 0) [[CSet ''a'' ''x'' 0 0], [CAppend ''a'' ''y'']])
   in storage_inv (sy_store y)"
  using interleaved_account [OF storage_new_inv, of length 100 0 "[[CSet ''a'' ''x'' 0 0], [CAppend ''a'' ''y'']]"
      "[(0, 1), (1, 1), (0, 1), (1, 2), (0, 3), (1, 3), (0, 4)]"]
  by (simp add: Let_def is_cas_def) (simp add: system_eval)

end
