(* ===== verification/Storage_Bound.thy ===== *)
theory Storage_Bound
  imports Storage_Threads
begin

text \<open>
  How far the memory in use can exceed the cap when threads interleave. A thread that has found
  room for its entry and has not counted it yet has reserved that room without telling the others:
  \<^verbatim>\<open>ensure_memory_available\<close> and the write that follows are separate sections of
  \<^verbatim>\<open>src/src/storage.rs\<close>. The invariant bounds the counter together with all such reservations.
\<close>

section \<open>Reservations\<close>

fun goal_size :: "goal \<Rightarrow> nat" where
  "goal_size (Put c at k it) = memory_size it + length k"
| "goal_size (Swap c at k it) = memory_size it + length k"
| "goal_size (AppendTo k d) = length d"
| "goal_size (PrependTo k d) = length d"

fun reserved :: "pc \<Rightarrow> nat" where
  "reserved (Finish g) = goal_size g"
| "reserved (SetAdd c at k it) = memory_size it + length k"
| "reserved _ = 0"

text \<open>What a call may add to the account.\<close>

fun call_size :: "call \<Rightarrow> nat" where
  "call_size (CSet k v f ttl) = size_of_cache_item + length v + length k"
| "call_size (CAdd k v f ttl) = size_of_cache_item + length v + length k"
| "call_size (CReplace k v f ttl) = size_of_cache_item + length v + length k"
| "call_size (CCas k v f ttl t) = size_of_cache_item + length v + length k"
| "call_size (CAppend k d) = length d"
| "call_size (CPrepend k d) = length d"
| "call_size _ = 0"

fun sized :: "nat \<Rightarrow> pc \<Rightarrow> bool" where
  "sized m (Start c) = (call_size c \<le> m)"
| "sized m (Build c) = (call_size c \<le> m)"
| "sized m (EnsureLoad n g) = (n = goal_size g \<and> n \<le> m)"
| "sized m (EnsureFind n g) = (n = goal_size g \<and> n \<le> m)"
| "sized m (EnsureDelete k n g) = (n = goal_size g \<and> n \<le> m)"
| "sized m (Finish g) = (goal_size g \<le> m)"
| "sized m (SetAdd c at k it) = (memory_size it + length k \<le> m)"
| "sized m _ = True"

lemma reserved_le: "sized m p \<Longrightarrow> reserved p \<le> m"
  by (cases p) simp_all

lemma start_call_sized: "call_size c \<le> m \<Longrightarrow> sized m (snd (start_call now c s))"
  by (cases c)
    (auto simp: section_defs memory_size_def split: option.splits outcome.splits)

lemma build_call_sized: "call_size c \<le> m \<Longrightarrow> sized m (snd (build_call now c s))"
  by (cases c) (auto simp: section_defs memory_size_def split: outcome.splits)

lemma finish_goal_sized: "goal_size g \<le> m \<Longrightarrow> sized m (snd (finish_goal now g s))"
  by (cases g) (auto simp: section_defs split: option.splits)

lemma section_sized: "sized m p \<Longrightarrow> sized m (snd (section_step now p s))"
  by (cases "(now, p, s)" rule: section_step.cases)
    (auto simp: start_call_sized build_call_sized finish_goal_sized split: option.split)

lemma start_call_reserved: "reserved (snd (start_call now c s)) = 0"
  by (cases c) (auto simp: section_defs split: option.splits outcome.splits)

lemma build_call_reserved: "reserved (snd (build_call now c s)) = 0"
  by (cases c) (auto simp: section_defs split: outcome.splits)

lemma start_call_max [simp]: "st_max_memory (fst (start_call now c s)) = st_max_memory s"
  by (cases c)
    (auto simp: section_defs update_in_place_fields drop_expired_def flush_all_def
      split: option.splits outcome.splits)

lemma section_max: "st_max_memory (fst (section_step now p s)) = st_max_memory s"
proof -
  have "st_max_memory (fst (build_call now c s)) = st_max_memory s" for c
    by (cases c) (auto simp: section_defs split: outcome.splits)
  moreover have "st_max_memory (fst (finish_goal now g s)) = st_max_memory s" for g
    by (cases g)
      (auto simp: section_defs update_in_place_fields insert_item_fields split: option.splits)
  ultimately show ?thesis
    by (cases "(now, p, s)" rule: section_step.cases)
      (auto simp: insert_item_fields split: option.split)
qed

section \<open>The claim of a section\<close>

text \<open>The counter and what the worker has reserved.\<close>

definition claim :: "pc \<Rightarrow> storage \<Rightarrow> nat" where
  "claim p s = unat (st_memory_used s) + reserved p"

lemma claim_exact: "mem_exact s \<Longrightarrow> total_size s < 2 ^ 64 \<Longrightarrow> claim p s = total_size s + reserved p"
  by (simp add: claim_def mem_exact_unat)

text \<open>A section that does not write reserves room only where it found room.\<close>

lemma free_section_claim:
  assumes "\<not> writes p" "sized m p" "m \<le> st_max_memory s" "unat (st_memory_used s) + m < 2 ^ 64"
    and "\<not> st_poisoned s" "reads p \<Longrightarrow> mem_exact s"
  shows "claim (snd (section_step now p s)) (fst (section_step now p s)) \<le> max (claim p s) (st_max_memory s)"
proof -
  have used: "st_memory_used (fst (section_step now p s)) = st_memory_used s"
    using section_same_items [OF assms(1)] by (simp add: same_items_def)
  have "unat (st_memory_used s) + reserved (snd (section_step now p s))
      \<le> max (unat (st_memory_used s) + reserved p) (st_max_memory s)"
  proof (cases p)
    case (EnsureLoad n g)
    with assms(2,4) show ?thesis by (auto simp: uadd_no_wrap)
  next
    case (EnsureFind n g)
    show ?thesis
    proof (cases "find_lru_key now s")
      case None
      then have "st_data s = []" using find_lru_key_None assms(5) by blast
      then have "st_memory_used s = 0"
        using assms(6) EnsureFind by (simp add: reads_def mem_exact_def total_size_def)
      with EnsureFind None assms(2,3) show ?thesis by simp
    qed (simp add: EnsureFind)
  next
    case (Multi all ks rs es)
    then show ?thesis by (cases ks) (auto split: option.split)
  next
    case (Purge ks r)
    with assms(1) show ?thesis by (cases ks) (auto simp: writes_def)
  qed (use assms(1) in \<open>simp_all add: start_call_reserved build_call_reserved writes_def\<close>)
  then show ?thesis by (simp add: claim_def used)
qed

lemma extend_total:
  assumes "storage_wf s" "mem_exact s" "\<not> st_poisoned s" "\<And>v. length (h v) = length v + n"
    "total_size s + n < 2 ^ 64"
  shows "total_size (fst (extend_first now k h n g s)) \<le> max (total_size s) (st_max_memory s)"
    and "total_size (fst (extend_again now k h n s)) \<le> total_size s + n"
    and "reserved (snd (extend_again now k h n s)) = 0"
  using assms update_in_place_total [of s k _ "h _" n now] drop_expired_total [OF assms(1,3), of k]
    mem_exact_unat [OF assms(2)] uadd_no_wrap [of "total_size s" n]
  by (auto simp: section_defs split: option.split)

text \<open>The account a section finds, without the wrap-around of the counter.\<close>

lemma balanced_nat:
  assumes "balanced (SetAdd c at k it) s" "total_size s < 2 ^ 64"
  obtains old where "map_of (st_data s) k = Some old"
    "unat (st_memory_used s) + entry_size (k, old) = total_size s"
proof -
  from assms(1) obtain old where old: "map_of (st_data s) k = Some old"
    and u: "st_memory_used s + of_nat (entry_size (k, old)) = of_nat (total_size s)"
    by (auto split: option.splits)
  have le: "entry_size (k, old) \<le> total_size s"
    using hm_weight_mem [OF old, of entry_size] by (simp add: total_size_def)
  from u have "st_memory_used s = of_nat (total_size s) - of_nat (entry_size (k, old))"
    by (simp add: eq_diff_eq)
  also have "\<dots> = of_nat (total_size s - entry_size (k, old))" using le by (simp add: of_nat_diff)
  finally have "unat (st_memory_used s) = total_size s - entry_size (k, old)"
    using assms(2) by (simp add: unat_of_nat_u64)
  with le have "unat (st_memory_used s) + entry_size (k, old) = total_size s" by linarith
  with old show thesis by (rule that)
qed

lemma set_add_total:
  assumes "balanced (SetAdd c at k it) s" "total_size s < 2 ^ 64"
  shows "total_size (insert_item k it s) = claim (SetAdd c at k it) s"
proof -
  obtain old where "map_of (st_data s) k = Some old"
    "unat (st_memory_used s) + entry_size (k, old) = total_size s"
    using balanced_nat [OF assms] .
  with hm_weight_update_present [of "st_data s" k old entry_size it] show ?thesis
    by (simp add: total_size_def insert_item_fields claim_def entry_size_def)
qed

lemma put_old_claim:
  assumes "mem_exact s" "total_size s < 2 ^ 64" "map_of (st_data s) k = Some old"
  shows "unat (st_memory_used s - of_nat (memory_size old + length k)) \<le> unat (st_memory_used s)"
proof -
  have "entry_size (k, old) \<le> total_size s"
    using hm_weight_mem [OF assms(3), of entry_size] by (simp add: total_size_def)
  then have le: "memory_size old + length k \<le> total_size s" by (simp add: entry_size_def)
  then have "st_memory_used s - of_nat (memory_size old + length k)
      = of_nat (total_size s - (memory_size old + length k))"
    using assms(1) by (simp add: mem_exact_def of_nat_diff del: of_nat_add)
  with le assms(2) show ?thesis
    by (simp add: mem_exact_unat [OF assms(1,2)] unat_of_nat_u64 del: of_nat_add of_nat_diff)
qed

text \<open>Where the total moves, as long as the section does not end inside the guard.\<close>

lemma write_section_total:
  assumes "acquires_write p" "storage_wf s" "mem_exact s" "\<not> st_poisoned s" "\<not> uses_cas p"
    "sized m p" "total_size s + m < 2 ^ 64" "\<not> holds_write (snd (section_step now p s))"
  shows "total_size (fst (section_step now p s)) + reserved (snd (section_step now p s))
    \<le> max (total_size s + reserved p) (st_max_memory s)"
proof (cases p)
  case (Start c)
  show ?thesis
  proof (cases c)
    case (CAppend k d)
    with Start assms extend_total(1) [OF assms(2-4), of "\<lambda>v. v @ d" "length d" now k "AppendTo k d"]
      start_call_reserved [of now c s] show ?thesis by simp
  next
    case (CPrepend k d)
    with Start assms extend_total(1) [OF assms(2-4), of "\<lambda>v. d @ v" "length d" now k "PrependTo k d"]
      start_call_reserved [of now c s] show ?thesis by simp
  next
    case (CDelete k)
    with Start total_size_mono [OF assms(2), of k] show ?thesis by (simp add: split_beta)
  next
    case CFlush
    with Start assms(4) show ?thesis by (simp add: flush_all_def total_size_def)
  qed (use Start assms(1,5) in \<open>simp_all add: is_cas_def\<close>)
next
  case (Finish g)
  show ?thesis
  proof (cases g)
    case (Put c at k it)
    with Finish assms(4,8) update_total_size [of "insert_item k it s" k it s] show ?thesis
      by (auto simp: insert_item_fields entry_size_def split: option.splits)
  next
    case (AppendTo k d)
    with Finish assms extend_total [OF assms(2-4), of "\<lambda>v. v @ d" "length d" now k] show ?thesis by simp
  next
    case (PrependTo k d)
    with Finish assms extend_total [OF assms(2-4), of "\<lambda>v. d @ v" "length d" now k] show ?thesis by simp
  qed (use Finish assms(5) in \<open>simp add: is_swap_def\<close>)
next
  case (EnsureDelete k n g)
  with assms(4) total_size_mono [OF assms(2), of k] show ?thesis by simp
next
  case (Purge ks r)
  with assms(1,4) total_size_mono [OF assms(2)] show ?thesis by (cases ks) (auto simp: max.coboundedI1)
qed (use assms(1) in simp_all)

lemma enters_write:
  assumes "holds_write (snd (section_step now p s))"
  shows "\<exists>c at k it old. p = Finish (Put c at k it) \<and> map_of (st_data s) k = Some old"
proof -
  have "\<not> holds_write (snd (start_call now c s))" for c
    by (cases c) (auto simp: section_defs split: option.splits outcome.splits)
  moreover have "\<exists>c at k it old. g = Put c at k it \<and> map_of (st_data s) k = Some old"
    if "holds_write (snd (finish_goal now g s))" for g
    using that by (cases g) (auto simp: section_defs split: option.splits if_splits)
  ultimately show ?thesis
    using assms
    by (cases "(now, p, s)" rule: section_step.cases) (auto simp: build_call_free split: option.splits if_splits)
qed

lemma section_claim:
  assumes "storage_wf s" "\<not> st_poisoned s" "\<not> uses_cas p" "sized m p" "m \<le> st_max_memory s"
    and guarded: "reads p \<or> writes p \<Longrightarrow> balanced p s"
    and "total_size s + m < 2 ^ 64" "claim p s + m < 2 ^ 64" "st_max_memory s < 2 ^ 64"
  shows "claim (snd (section_step now p s)) (fst (section_step now p s)) \<le> max (claim p s) (st_max_memory s)
    \<and> total_size (fst (section_step now p s)) \<le> max (total_size s) (max (claim p s) (st_max_memory s))"
    (is "claim ?p1 ?s1 \<le> _ \<and> total_size ?s1 \<le> _")
proof (cases "writes p")
  case False
  have room: "unat (st_memory_used s) + m < 2 ^ 64" using assms(8) unfolding claim_def by linarith
  from False have "reads p \<Longrightarrow> mem_exact s" using guarded balanced_free [of p s] by (simp add: writes_def)
  then have "claim ?p1 ?s1 \<le> max (claim p s) (st_max_memory s)"
    using assms(2,4,5) False room by (intro free_section_claim)
  moreover have "total_size ?s1 = total_size s"
    using section_same_items [OF False, of s now] by (simp add: same_items_def total_size_def)
  ultimately show ?thesis by simp
next
  case True
  have sound: "balanced ?p1 ?s1"
    using section_sound [OF assms(1) guarded assms(2,3) True] True by (simp add: sound_after_def)
  show ?thesis
  proof (cases "holds_write p")
    case True
    then obtain c at k it where p: "p = SetAdd c at k it" by (cases p) simp_all
    with guarded assms(7) have t: "total_size ?s1 = claim p s"
      by (simp add: set_add_total writes_def)
    moreover have "claim ?p1 ?s1 = total_size ?s1"
      using sound assms(8) t by (subst claim_exact) (simp_all add: p)
    ultimately show ?thesis by simp
  next
    case False
    then have ex: "mem_exact s" "acquires_write p" using guarded True balanced_free by (auto simp: writes_def)
    have c: "claim p s = total_size s + reserved p" using ex assms(7) by (simp add: claim_exact)
    show ?thesis
    proof (cases "holds_write ?p1")
      case True
      then obtain c at k it old where p: "p = Finish (Put c at k it)" "map_of (st_data s) k = Some old"
        using enters_write by blast
      with assms(2) put_old_claim [OF ex(1) _ p(2)] assms(7) show ?thesis
        by (simp add: claim_def total_size_def)
    next
      case False
      note t = write_section_total [OF ex(2) assms(1) ex(1) assms(2,3,4,7) False]
      then have "claim ?p1 ?s1 = total_size ?s1 + reserved ?p1"
        using sound False c assms(8,9) by (intro claim_exact) (auto simp: balanced_free)
      with t c show ?thesis by auto
    qed
  qed
qed

section \<open>The bound of a system\<close>

definition all_reserved :: "worker list \<Rightarrow> nat" where
  "all_reserved ws = sum_list (map (\<lambda>w. reserved (wk_pc w)) ws)"

lemma sum_list_one:
  "i < length xs \<Longrightarrow> \<forall>x\<in>set xs. f x \<le> (m::nat) \<Longrightarrow> sum_list (map f xs) \<le> f (xs ! i) + (length xs - 1) * m"
proof (induction xs arbitrary: i)
  case (Cons x xs)
  show ?case
  proof (cases i)
    case 0
    have "sum_list (map f xs) \<le> length xs * m"
      using Cons.prems(2) by (induction xs) auto
    with 0 show ?thesis by simp
  next
    case (Suc j)
    with Cons have "sum_list (map f xs) \<le> f (xs ! j) + (length xs - 1) * m" by simp
    moreover have "f x \<le> m" "0 < length xs" using Cons.prems Suc by auto
    ultimately show ?thesis using Suc by (cases "length xs") simp_all
  qed
qed simp

lemma all_reserved_update:
  "i < length ws \<Longrightarrow> all_reserved (ws[i := w]) + reserved (wk_pc (ws ! i)) = all_reserved ws + reserved (wk_pc w)"
proof -
  assume i: "i < length ws"
  then have "reserved (wk_pc (ws ! i)) \<le> all_reserved ws"
    by (auto simp: all_reserved_def intro!: member_le_sum_list)
  then show ?thesis using i by (simp add: all_reserved_def map_update sum_list_update)
qed

definition cap_bound :: "nat \<Rightarrow> nat \<Rightarrow> nat \<Rightarrow> nat" where
  "cap_bound mx n m = mx + (n - 1) * m"

definition bounded :: "nat \<Rightarrow> nat \<Rightarrow> nat \<Rightarrow> system \<Rightarrow> bool" where
  "bounded mx n m y =
     (accounted y \<and> st_max_memory (sy_store y) = mx \<and> length (sy_workers y) = n \<and>
      (\<forall>w\<in>set (sy_workers y). sized m (wk_pc w) \<and> list_all (\<lambda>c. call_size c \<le> m) (wk_todo w)) \<and>
      unat (st_memory_used (sy_store y)) + all_reserved (sy_workers y) \<le> cap_bound mx n m \<and>
      total_size (sy_store y) \<le> cap_bound mx n m)"

lemma bounded_worker:
  "bounded mx n m y \<Longrightarrow> i < length (sy_workers y) \<Longrightarrow> sized m (wk_pc (sy_workers y ! i))"
  "bounded mx n m y \<Longrightarrow> i < length (sy_workers y) \<Longrightarrow> list_all (\<lambda>c. call_size c \<le> m) (wk_todo (sy_workers y ! i))"
  by (simp_all add: bounded_def)

lemma bounded_idle:
  assumes "bounded mx n m y" "i < length (sy_workers y)" "accounted (put_worker i w y)"
    "reserved (wk_pc w) = 0" "sized m (wk_pc w)" "list_all (\<lambda>c. call_size c \<le> m) (wk_todo w)"
  shows "bounded mx n m (put_worker i w y)"
  using assms all_reserved_update [OF assms(2), of w]
  by (auto simp: bounded_def ball_set_update)

lemma turn_bounded:
  assumes "bounded mx n m y" "m \<le> mx" "cap_bound mx n m + m < 2 ^ 64"
  shows "bounded mx n m (turn e y)"
proof (cases e)
  case (Pair i now)
  have acc: "accounted y" using assms(1) by (simp add: bounded_def)
  note acc' = turn_accounted [OF acc, of e]
  show ?thesis
  proof (cases rule: turn_cases [of i now y])
    case (call c cs)
    with bounded_idle [OF assms(1) call(1)] acc' bounded_worker(2) [OF assms(1) call(1)] show ?thesis
      by (simp add: Pair)
  next
    case (return r)
    with bounded_idle [OF assms(1) return(1)] acc' bounded_worker(2) [OF assms(1) return(1)] show ?thesis
      by (simp add: Pair)
  next
    case (runs s1 p1)
    let ?ws = "sy_workers y" and ?s = "sy_store y" and ?p = "wk_pc (sy_workers y ! i)"
    note y = assms(1) [unfolded bounded_def] and acc = acc [unfolded accounted_def]
    have upd: "all_reserved (?ws[i := (?ws ! i)\<lparr>wk_pc := p1\<rparr>]) + reserved ?p = all_reserved ?ws + reserved p1"
      using all_reserved_update [OF runs(1)] by simp
    have rest: "all_reserved ?ws \<le> reserved ?p + (n - 1) * m"
      unfolding all_reserved_def using y sum_list_one [OF runs(1), of "\<lambda>w. reserved (wk_pc w)" m]
      by (auto simp: reserved_le)
    have p: "reserved ?p \<le> all_reserved ?ws"
      using runs(1) by (auto simp: all_reserved_def intro!: member_le_sum_list)
    have "claim ?p ?s + m < 2 ^ 64" using y p assms(3) unfolding claim_def by linarith
    moreover have "total_size ?s + m < 2 ^ 64" "mx < 2 ^ 64" using y assms(3) by (auto simp: cap_bound_def)
    ultimately have "claim p1 s1 \<le> max (claim ?p ?s) mx \<and> total_size s1 \<le> max (total_size ?s) (max (claim ?p ?s) mx)"
      using section_claim [of ?s ?p m now] accounted_balanced [OF _ runs(1,4)] acc
        bounded_worker(1) [OF assms(1) runs(1)] accounted_worker(1) [OF _ runs(1)] assms y runs(5)
      by auto
    with upd rest p y have "unat (st_memory_used s1) + all_reserved (?ws[i := (?ws ! i)\<lparr>wk_pc := p1\<rparr>]) \<le> cap_bound mx n m
        \<and> total_size s1 \<le> cap_bound mx n m"
      unfolding claim_def cap_bound_def by linarith
    moreover have "st_max_memory s1 = mx" "sized m p1"
      using section_max [of now ?p ?s] section_sized [OF bounded_worker(1) [OF assms(1) runs(1)], of now ?s] runs(5) y
      by auto
    ultimately show ?thesis
      using y acc' runs(1,6) bounded_worker(2) [OF assms(1) runs(1)]
      by (auto simp: Pair bounded_def ball_set_update)
  qed (use assms in \<open>simp add: Pair\<close>)
qed

lemma start_bounded:
  assumes "storage_inv s" "\<not> st_poisoned s" "total_size s \<le> st_max_memory s"
    "list_all (list_all (\<lambda>c. \<not> is_cas c \<and> call_size c \<le> m)) todos"
  shows "bounded (st_max_memory s) (length todos) m (start_system s todos)"
proof -
  have "list_all (list_all (\<lambda>c. \<not> is_cas c)) todos" "list_all (list_all (\<lambda>c. call_size c \<le> m)) todos"
    using assms(4) by (auto simp: list_all_iff)
  moreover have "unat (st_memory_used s) \<le> total_size s"
    using assms(1) by (simp add: storage_inv_def mem_exact_def unat_of_nat)
  moreover have "all_reserved (map (\<lambda>cs. \<lparr>wk_todo = cs, wk_pc = Idle, wk_results = []\<rparr>) todos) = 0"
    by (simp add: all_reserved_def comp_def)
  ultimately show ?thesis
    using assms(3) start_accounted [OF assms(1,2), of todos]
    by (auto simp: bounded_def start_system_def cap_bound_def list_all_iff)
qed

text \<open>
  C11. The cap under interleaving: when \<open>n\<close> threads share the store, none calls \<^verbatim>\<open>cas\<close>, and no call
  adds more than \<open>m\<close> bytes, which is at most the cap, then at every moment of every interleaving
  the entries and the counter \<^verbatim>\<open>memory_used\<close> exceed the cap by at most \<open>(n - 1) * m\<close> bytes: one
  entry for every thread but one. For a single thread this is the cap itself.
\<close>

theorem interleaved_cap:
  assumes "storage_inv s" "\<not> st_poisoned s" "total_size s \<le> st_max_memory s" "m \<le> st_max_memory s"
    "list_all (list_all (\<lambda>c. \<not> is_cas c \<and> call_size c \<le> m)) todos"
    "cap_bound (st_max_memory s) (length todos) m + m < 2 ^ 64"
  shows "let y = run_system sched (start_system s todos)
    in unat (st_memory_used (sy_store y)) \<le> cap_bound (st_max_memory s) (length todos) m
      \<and> total_size (sy_store y) \<le> cap_bound (st_max_memory s) (length todos) m"
proof -
  have "bounded (st_max_memory s) (length todos) m (run_system sched (start_system s todos))"
    unfolding run_system_def
    by (rule fold_invariant [where Q = "\<lambda>_. True"])
      (simp_all only: start_bounded [OF assms(1-3,5)] turn_bounded [OF _ assms(4,6)] simp_thms)
  then show ?thesis unfolding bounded_def Let_def by linarith
qed

theorem interleaved_cap_witness:
  "let y = run_system [(0, 1), (1, 1), (0, 1), (1, 2), (0, 3), (1, 3), (0, 4), (1, 5)]
         (start_system (storage_new length 100 0) [[CSet ''a'' ''x'' 0 0], [CSet ''b'' ''y'' 0 0]])
   in unat (st_memory_used (sy_store y)) \<le> 174 \<and> total_size (sy_store y) \<le> 174"
  using interleaved_cap [of "storage_new length 100 0" 74 "[[CSet ''a'' ''x'' 0 0], [CSet ''b'' ''y'' 0 0]]"
      "[(0, 1), (1, 1), (0, 1), (1, 2), (0, 3), (1, 3), (0, 4), (1, 5)]"]
  by (simp add: storage_new_inv) (simp add: storage_new_def total_size_def is_cas_def cap_bound_def
      size_of_cache_item_def)

text \<open>The same run: both threads find room before either stores, and the cap is exceeded.\<close>

lemma cap_exceeded:
  "let y = run_system [(0, 1), (1, 1), (0, 1), (1, 2), (0, 3), (1, 3), (0, 4), (1, 5)]
         (start_system (storage_new length 100 0) [[CSet ''a'' ''x'' 0 0], [CSet ''b'' ''y'' 0 0]])
   in st_memory_used (sy_store y) = 148 \<and> st_max_memory (sy_store y) = 100"
  by (simp add: system_eval)

end
