(* ===== verification/Storage_History.thy ===== *)
theory Storage_History
  imports Storage_Bound
begin

text \<open>
  What interleaved calls return. Every call takes effect at one of its sections, between the moment
  it starts and the moment it returns; \<open>sy_history\<close> lists those effects in the order in which they
  happen. The theory shows that this one list explains every answer: each thread's calls and answers
  are its entries of the list, in order, and every item a read returned is the one the reference map
  of \<^verbatim>\<open>Storage_Spec\<close> holds after the entries before it. The conditions of \<^verbatim>\<open>add\<close> and \<^verbatim>\<open>cas\<close> are not
  part of that contract; the end of the theory has runs in which they fail.
\<close>

section \<open>Effects\<close>

text \<open>An operation that, when it stores, leaves this item in the reference map.\<close>

definition stores_as :: "u64 \<Rightarrow> storage_op \<Rightarrow> bytes \<Rightarrow> cache_item \<Rightarrow> bool" where
  "stores_as d op k it = (\<forall>m. ref_step d op (RRes Stored) m = m(k \<mapsto> cached_of it))"

fun goal_fact :: "u64 \<Rightarrow> goal \<Rightarrow> bool" where
  "goal_fact d (Put c at k it) = stores_as d (call_at at c) k it"
| "goal_fact d (Swap c at k it) = stores_as d (call_at at c) k it"
| "goal_fact d _ = True"

definition all_stored :: "(bytes \<times> cache_item) list \<Rightarrow> storage \<Rightarrow> bool" where
  "all_stored rs s = list_all (\<lambda>(k, it). map_of (st_data s) k = Some it) rs"

text \<open>What a position relies on: the item to be stored, the items read so far.\<close>

fun pc_fact :: "u64 \<Rightarrow> pc \<Rightarrow> storage \<Rightarrow> bool" where
  "pc_fact d (EnsureLoad n g) s = goal_fact d g"
| "pc_fact d (EnsureFind n g) s = goal_fact d g"
| "pc_fact d (EnsureDelete k n g) s = goal_fact d g"
| "pc_fact d (Finish g) s = goal_fact d g"
| "pc_fact d (SetAdd c at k it) s = stores_as d (call_at at c) k it"
| "pc_fact d (Multi all ks rs es) s = all_stored rs s"
| "pc_fact d (MultiRecord k q it all ks rs es) s = all_stored ((k, it) # rs) s"
| "pc_fact d _ s = True"

lemma pc_fact_frame: "st_data t = st_data s \<Longrightarrow> pc_fact d p t = pc_fact d p s"
  by (cases p) (simp_all add: all_stored_def)

lemma pc_fact_free: "\<not> holds_read p \<Longrightarrow> pc_fact d p t = pc_fact d p s"
  by (cases p) simp_all

lemma stores_as_item:
  assumes "calculate_expiry now ttl s = Returned e" "st_default_ttl s = d"
  shows "stores_as d (OSet now k v f ttl) k (new_item now v f e t)"
    "stores_as d (OAdd now k v f ttl) k (new_item now v f e t)"
    "stores_as d (OReplace now k v f ttl) k (new_item now v f e t)"
    "stores_as d (OCas now k v f ttl c) k (new_item now v f e t)"
  using calculate_expiry_of [OF assms(1)] assms(2) by (simp_all add: stores_as_def cached_of_def)

lemma build_item_fact:
  assumes "st_default_ttl s = d" "call_at now c \<in> {OSet now k v f ttl, OAdd now k v f ttl, OReplace now k v f ttl}"
  shows "pc_fact d (snd (build_item now c k v f ttl s)) t"
proof (cases "calculate_expiry now ttl s")
  case (Returned e)
  with stores_as_item [OF Returned assms(1)] assms(2) show ?thesis
    by (auto simp: section_defs new_item_def)
qed (simp add: build_item_def)

lemma cas_check_fact:
  assumes "st_default_ttl s = d" "call_at now c = OCas now k v f ttl tok"
  shows "pc_fact d (snd (cas_check now c k v f ttl tok s)) t"
  using stores_as_item(4) [OF _ assms(1)] assms(2)
  by (auto simp: section_defs new_item_def split: option.split outcome.split)

lemma extend_fact:
  "goal_fact d g \<Longrightarrow> pc_fact d (snd (extend_first now k h n g s)) t"
  "pc_fact d (snd (extend_again now k h n s)) t"
  by (simp_all add: section_defs split: option.split)

lemma start_call_fact: "st_default_ttl s = d \<Longrightarrow> pc_fact d (snd (start_call now c s)) (fst (start_call now c s))"
  using build_item_fact [of s d now c] cas_check_fact [of s d now c] extend_fact(1)
  by (cases c) (auto simp: all_stored_def Let_def split: option.split prod.split)

lemma build_call_fact: "st_default_ttl s = d \<Longrightarrow> pc_fact d (snd (build_call now c s)) t"
  using build_item_fact [of s d now c] by (cases c) auto

lemma finish_goal_fact: "goal_fact d g \<Longrightarrow> pc_fact d (snd (finish_goal now g s)) t"
  using extend_fact(2) by (cases g) (auto split: option.split)

lemma section_fact:
  "pc_fact d p s \<Longrightarrow> st_default_ttl s = d \<Longrightarrow> pc_fact d (snd (section_step now p s)) (fst (section_step now p s))"
  by (cases "(now, p, s)" rule: section_step.cases)
    (auto simp: start_call_fact build_call_fact finish_goal_fact all_stored_def split: option.split)

lemma section_ttl: "st_default_ttl (fst (section_step now p s)) = st_default_ttl s"
proof -
  have "st_default_ttl (fst (start_call now c s)) = st_default_ttl s" for c
    by (cases c) (auto simp: section_defs flush_all_def split: option.splits outcome.splits)
  moreover have "st_default_ttl (fst (build_call now c s)) = st_default_ttl s" for c
    by (cases c) (auto simp: section_defs split: outcome.splits)
  moreover have "st_default_ttl (fst (finish_goal now g s)) = st_default_ttl s" for g
    by (cases g) (auto simp: section_defs insert_item_fields split: option.splits)
  ultimately show ?thesis
    by (cases "(now, p, s)" rule: section_step.cases)
      (auto simp: insert_item_fields split: option.split)
qed

section \<open>The reference map follows\<close>

definition effect_on :: "u64 \<Rightarrow> (storage_op \<times> op_result) option \<Rightarrow> (bytes \<rightharpoonup> cached) \<Rightarrow> (bytes \<rightharpoonup> cached)" where
  "effect_on d e m = (case e of Some (op, r) \<Rightarrow> ref_step d op r m | None \<Rightarrow> m)"

lemma ref_step_panic [simp]: "ref_step d op RPanic m = m"
  by (cases op) (auto split: option.split)

lemma ref_step_refused [simp]:
  "r \<noteq> RRes Stored \<Longrightarrow> ref_step d (OSet now k v f ttl) r m = m"
  "r \<noteq> RRes Stored \<Longrightarrow> ref_step d (OAdd now k v f ttl) r m = m"
  "r \<noteq> RRes Stored \<Longrightarrow> ref_step d (OReplace now k v f ttl) r m = m"
  "r \<noteq> RRes Stored \<Longrightarrow> ref_step d (OCas now k v f ttl c) r m = m"
  "r \<noteq> RRes Stored \<Longrightarrow> ref_step d (OAppend now k x) r m = m"
  "r \<noteq> RRes Stored \<Longrightarrow> ref_step d (OPrepend now k x) r m = m"
  by (auto split: option.split)

lemma effect_on_simps [simp]:
  "effect_on d None m = m" "effect_on d (Some (op, r)) m = ref_step d op r m"
  by (simp_all add: effect_on_def)

lemma takes_effect_open: "pc_result p1 = None \<Longrightarrow> takes_effect now p p1 = None"
  by (simp add: takes_effect_def split: option.split)

lemma takes_effect_some:
  "pc_op now p = Some op \<Longrightarrow> pc_result p1 = Some r \<Longrightarrow> takes_effect now p p1 = Some (op, r)"
  "pc_op now p = None \<Longrightarrow> takes_effect now p p1 = None"
  by (simp_all add: takes_effect_def)

lemma build_item_result: "pc_result (snd (build_item now c k v f ttl s)) = Some r \<Longrightarrow> r = RPanic"
  by (auto simp: section_defs split: outcome.splits)

text \<open>A section that does not write has no effect on the map.\<close>

lemma free_section_effect:
  assumes "\<not> writes p"
  shows "effect_on d (takes_effect now p (snd (section_step now p s))) m = m"
proof -
  have "ref_step d (call_at now c) r m = m"
    if "\<not> acquires_write (Start c)" "pc_result (snd (start_call now c s)) = Some r" for c r
    using that by (cases c) (auto simp: Let_def dest!: build_item_result split: option.splits if_splits)
  moreover have "ref_step d (call_at now c) r m = m"
    if "pc_result (snd (build_call now c s)) = Some r" for c r
    using that by (cases c) (auto dest!: build_item_result)
  ultimately show ?thesis
    using assms
    by (cases "(now, p, s)" rule: section_step.cases)
      (auto simp: writes_def takes_effect_def split: option.splits)
qed

lemma contents_frame: "st_data t = st_data s \<Longrightarrow> contents t = contents s"
  by (simp add: contents_def fun_eq_iff)

lemma contents_counters [simp]:
  "contents (s\<lparr>st_memory_used := u\<rparr>) = contents s" "contents (s\<lparr>st_cas_counter := c\<rparr>) = contents s"
  "contents (s\<lparr>st_poisoned := b\<rparr>) = contents s"
  by (rule contents_frame; simp)+

lemma delete_le_contents: "contents (fst (delete k s)) \<subseteq>\<^sub>m contents s"
  by (rule contents_mono [OF delete_le])

lemma drop_expired_le_contents: "contents (drop_expired k it s) \<subseteq>\<^sub>m contents s"
  by (rule contents_mono) (auto simp: drop_expired_def map_le_def hm_simps)

lemma insert_item_contents:
  "contents s \<subseteq>\<^sub>m m \<Longrightarrow> stores_as d op k it \<Longrightarrow> contents (insert_item k it s) \<subseteq>\<^sub>m ref_step d op (RRes Stored) m"
  by (auto simp: stores_as_def contents_update [OF insert_item_fields(1)] map_le_def)

lemma update_in_place_contents:
  assumes "contents s \<subseteq>\<^sub>m m" "map_of (st_data s) k = Some it"
  shows "contents (update_in_place now k it v n s) \<subseteq>\<^sub>m m(k \<mapsto> (v, ci_flags it, ci_expires_at it))"
    and "m k = Some (ci_value it, ci_flags it, ci_expires_at it)"
proof -
  show "contents (update_in_place now k it v n s) \<subseteq>\<^sub>m m(k \<mapsto> (v, ci_flags it, ci_expires_at it))"
    using assms(1) by (auto simp: contents_update [OF update_in_place_fields(1)] map_le_def cached_of_def)
  have "contents s k = Some (ci_value it, ci_flags it, ci_expires_at it)"
    by (simp add: contents_def assms(2) cached_of_def)
  with assms(1) show "m k = Some (ci_value it, ci_flags it, ci_expires_at it)" by (force simp: map_le_def)
qed

text \<open>The two halves of \<^verbatim>\<open>append\<close> and \<^verbatim>\<open>prepend\<close>, for the operation \<open>op\<close> whose value function is \<open>h\<close>.\<close>

definition extends_as :: "u64 \<Rightarrow> storage_op \<Rightarrow> bytes \<Rightarrow> (bytes \<Rightarrow> bytes) \<Rightarrow> bool" where
  "extends_as d op k h =
     ((\<forall>m v f e. m k = Some (v, f, e) \<longrightarrow> ref_step d op (RRes Stored) m = m(k \<mapsto> (h v, f, e))) \<and>
      (\<forall>m. ref_step d op (RRes NotStored) m = m))"

lemma extends_as_ops:
  "extends_as d (OAppend now k x) k (\<lambda>v. v @ x)" "extends_as d (OPrepend now k x) k (\<lambda>v. x @ v)"
  by (simp_all add: extends_as_def split: option.split)

lemma extend_effect:
  assumes "extends_as d op k h" "contents s \<subseteq>\<^sub>m m"
  shows "contents (fst (extend_first now k h n g s))
      \<subseteq>\<^sub>m effect_on d (map_option (Pair op) (pc_result (snd (extend_first now k h n g s)))) m"
    and "contents (fst (extend_again now k h n s))
      \<subseteq>\<^sub>m effect_on d (map_option (Pair op) (pc_result (snd (extend_again now k h n s)))) m"
  using assms(1,2) update_in_place_contents(1) [OF assms(2), of k _ now "h _" n]
    update_in_place_contents(2) [OF assms(2), of k]
    map_le_trans [OF drop_expired_le_contents assms(2)]
  by (auto simp: section_defs extends_as_def split: option.split)

lemma takes_effect_alt:
  "pc_op now p = Some op \<Longrightarrow> takes_effect now p p1 = map_option (Pair op) (pc_result p1)"
  by (simp add: takes_effect_def split: option.split)

lemma start_call_effect:
  assumes "acquires_write (Start c)" "contents s \<subseteq>\<^sub>m m"
  shows "contents (fst (start_call now c s))
    \<subseteq>\<^sub>m effect_on d (takes_effect now (Start c) (snd (start_call now c s))) m"
proof (cases c)
  case (CCas k v f ttl t)
  with assms(2) map_le_trans [OF drop_expired_le_contents assms(2)] show ?thesis
    by (auto simp: section_defs takes_effect_alt simp del: ref_step.simps
        split: option.split outcome.split)
next
  case (CDelete k)
  show ?thesis
  proof (cases "st_poisoned s")
    case True
    with CDelete assms(2) show ?thesis by (simp add: takes_effect_alt delete_def ret_def)
  next
    case False
    with assms(2) have "contents (fst (delete k s)) \<subseteq>\<^sub>m m(k := None)"
      by (auto simp: map_le_def contents_def delete_data hm_simps dom_def)
    moreover have "ret RRes (snd (delete k s)) \<noteq> RPanic"
      using False by (auto simp: delete_def ret_def split: option.split)
    ultimately show ?thesis using CDelete by (simp add: takes_effect_alt split_beta)
  qed
next
  case CFlush
  with assms(2) show ?thesis
    by (auto simp: takes_effect_alt flush_all_def ret_def contents_def map_le_def dom_def)
next
  case (CAppend k x)
  with extend_effect(1) [OF extends_as_ops(1) assms(2)] show ?thesis by (simp add: takes_effect_alt)
next
  case (CPrepend k x)
  with extend_effect(1) [OF extends_as_ops(2) assms(2)] show ?thesis by (simp add: takes_effect_alt)
qed (use assms(1) in simp_all)

lemma finish_goal_effect:
  assumes "goal_fact d g" "contents s \<subseteq>\<^sub>m m"
  shows "contents (fst (finish_goal now g s))
    \<subseteq>\<^sub>m effect_on d (takes_effect now (Finish g) (snd (finish_goal now g s))) m"
proof (cases g)
  case (Put c at k it)
  with assms insert_item_contents [OF assms(2)] show ?thesis
    by (auto simp: takes_effect_alt split: option.split)
next
  case (Swap c at k it)
  with assms insert_item_contents [OF assms(2)] show ?thesis by (auto simp: takes_effect_alt)
next
  case (AppendTo k x)
  with extend_effect(2) [OF extends_as_ops(1) assms(2)] show ?thesis by (simp add: takes_effect_alt)
next
  case (PrependTo k x)
  with extend_effect(2) [OF extends_as_ops(2) assms(2)] show ?thesis by (simp add: takes_effect_alt)
qed

text \<open>A section changes the items as its effect changes the reference map, up to items forgotten.\<close>

lemma section_effect:
  assumes "pc_fact d p s" "contents s \<subseteq>\<^sub>m m"
  shows "contents (fst (section_step now p s))
    \<subseteq>\<^sub>m effect_on d (takes_effect now p (snd (section_step now p s))) m"
proof (cases "writes p")
  case False
  then have "contents (fst (section_step now p s)) = contents s"
    using section_same_items [of p s now] by (auto simp: same_items_def intro: contents_frame)
  with assms(2) free_section_effect [OF False] show ?thesis by simp
next
  case True
  show ?thesis
  proof (cases "(now, p, s)" rule: section_step.cases)
    case (3 now c s)
    with True assms start_call_effect show ?thesis by (simp add: writes_def)
  next
    case (7 now k n g s)
    with assms map_le_trans [OF delete_le_contents assms(2)] show ?thesis by (auto simp: takes_effect_alt)
  next
    case (8 now g s)
    with assms finish_goal_effect show ?thesis by simp
  next
    case (9 now c at k it s)
    with assms insert_item_contents [OF assms(2)] show ?thesis by (auto simp: takes_effect_alt)
  next
    case (15 now k ks r s)
    with assms map_le_trans [OF delete_le_contents assms(2)] show ?thesis by (auto simp: takes_effect_def)
  qed (use True in \<open>simp_all add: writes_def\<close>)
qed

section \<open>One effect per call\<close>

fun goal_call :: "goal \<Rightarrow> call" where
  "goal_call (Put c at k it) = c"
| "goal_call (Swap c at k it) = c"
| "goal_call (AppendTo k d) = CAppend k d"
| "goal_call (PrependTo k d) = CPrepend k d"

text \<open>The call that a position belongs to, as long as it has not taken effect.\<close>

fun open_call :: "pc \<Rightarrow> call option" where
  "open_call (Start c) = Some c"
| "open_call (Build c) = Some c"
| "open_call (EnsureLoad n g) = Some (goal_call g)"
| "open_call (EnsureFind n g) = Some (goal_call g)"
| "open_call (EnsureDelete k n g) = Some (goal_call g)"
| "open_call (Finish g) = Some (goal_call g)"
| "open_call (SetAdd c at k it) = Some c"
| "open_call (Multi all ks rs es) = Some (CGetMulti all)"
| "open_call (MultiRecord k q it all ks rs es) = Some (CGetMulti all)"
| "open_call _ = None"

lemma open_call_op: "open_call p = Some c \<Longrightarrow> \<exists>t. pc_op now p = Some (call_at t c)"
proof -
  have "\<exists>t. goal_op now g = call_at t (goal_call g)" for g
    by (cases g) (auto intro: exI [of _ now])
  then show "open_call p = Some c \<Longrightarrow> ?thesis"
    by (cases p) (auto intro: exI [of _ now])
qed

lemma closed_op: "open_call p = None \<Longrightarrow> pc_op now p = None"
  by (cases p) simp_all

lemma open_no_result: "open_call p = Some c \<Longrightarrow> pc_result p = None"
  by (cases p) simp_all

text \<open>From an open position a section leads to an open one of the same call or closes the call.\<close>

definition carries :: "call \<Rightarrow> pc \<Rightarrow> bool" where
  "carries c p = (open_call p = Some c \<or> open_call p = None \<and> pc_result p \<noteq> None)"

lemma start_call_carries: "carries c (snd (start_call now c s))"
  by (cases c) (auto simp: carries_def section_defs split: option.splits outcome.splits)

lemma build_call_carries: "carries c (snd (build_call now c s))"
  by (cases c) (auto simp: carries_def section_defs split: outcome.splits)

lemma finish_goal_carries: "carries (goal_call g) (snd (finish_goal now g s))"
  by (cases g) (auto simp: carries_def section_defs split: option.splits)

lemma section_carries: "open_call p = Some c \<Longrightarrow> carries c (snd (section_step now p s))"
  by (cases "(now, p, s)" rule: section_step.cases)
    (auto simp: start_call_carries build_call_carries finish_goal_carries, auto simp: carries_def split: option.split)

lemma section_closed:
  "open_call p = None \<Longrightarrow> pc_result p = Some r \<Longrightarrow>
    open_call (snd (section_step now p s)) = None \<and> pc_result (snd (section_step now p s)) \<in> {Some r, Some RPanic}"
  by (cases "(now, p, s)" rule: section_step.cases) auto

lemma closed_result: "open_call p = None \<Longrightarrow> p \<noteq> Idle \<Longrightarrow> \<exists>r. pc_result p = Some r"
  by (cases p) simp_all

section \<open>The history explains the answers\<close>

text \<open>What a read may return, given the reference map.\<close>

fun read_ok :: "(bytes \<rightharpoonup> cached) \<Rightarrow> storage_op \<Rightarrow> op_result \<Rightarrow> bool" where
  "read_ok m (OGet now k) (RItem (Some it)) = (m k = Some (cached_of it) \<and> \<not> is_expired now it)"
| "read_ok m (OGetMulti now ks) (RItems rs) = list_all (\<lambda>(k, it). m k = Some (cached_of it)) rs"
| "read_ok m _ _ = True"

fun reads_explained :: "u64 \<Rightarrow> (bytes \<rightharpoonup> cached) \<Rightarrow> (storage_op \<times> op_result) list \<Rightarrow> bool" where
  "reads_explained d m [] = True"
| "reads_explained d m ((op, r) # es) = (read_ok m op r \<and> reads_explained d (ref_step d op r m) es)"

lemma replay_snoc: "replay f (es @ [e]) a = f (fst e) (snd e) (replay f es a)"
  by (induction es arbitrary: a) auto

lemma reads_explained_snoc:
  "reads_explained d m (es @ [(op, r)]) =
     (reads_explained d m es \<and> read_ok (replay (ref_step d) es m) op r)"
  by (induction d m es rule: reads_explained.induct) auto

text \<open>The entries of one worker.\<close>

definition own :: "nat \<Rightarrow> (nat \<times> storage_op \<times> op_result) list \<Rightarrow> (storage_op \<times> op_result) list" where
  "own i h = map snd (filter (\<lambda>e. fst e = i) h)"

lemma own_append: "own i (h @ h') = own i h @ own i h'"
  by (simp add: own_def)

definition answers :: "worker \<Rightarrow> op_result list" where
  "answers w = wk_results w @ (case pc_result (wk_pc w) of Some r \<Rightarrow> [r] | None \<Rightarrow> [])"

text \<open>
  A worker that was given the calls \<open>todo\<close>: those that have taken effect are its entries, and its
  answers are the results of these entries (a panic while expired items are removed apart).
\<close>

definition worker_explained :: "call list \<Rightarrow> worker \<Rightarrow> (storage_op \<times> op_result) list \<Rightarrow> bool" where
  "worker_explained todo w es =
     (\<exists>made. todo = made @ (case open_call (wk_pc w) of Some c \<Rightarrow> [c] | None \<Rightarrow> []) @ wk_todo w \<and>
        list_all2 (\<lambda>c e. \<exists>t. fst e = call_at t c) made es \<and>
        list_all2 (\<lambda>r e. r = snd e \<or> r = RPanic) (answers w) es)"

lemma answers_panic:
  "list_all2 (\<lambda>r e. r = snd e \<or> r = RPanic) (rs @ [r]) es \<Longrightarrow>
    list_all2 (\<lambda>r e. r = snd e \<or> r = RPanic) (rs @ [RPanic]) es"
  by (fastforce simp: list_all2_append1 list_all2_Cons1)

lemma worker_explained_section:
  assumes "worker_explained todo w es" "wk_pc w \<noteq> Idle" and p1_def: "p1 = snd (section_step now (wk_pc w) s)"
  shows "worker_explained todo (w\<lparr>wk_pc := p1\<rparr>)
    (es @ (case takes_effect now (wk_pc w) p1 of Some e \<Rightarrow> [e] | None \<Rightarrow> []))"
proof (cases "open_call (wk_pc w)")
  case None
  then obtain r where r: "pc_result (wk_pc w) = Some r" using closed_result assms(2) by blast
  from section_closed [OF None r, of now s] have "open_call p1 = None" "pc_result p1 \<in> {Some r, Some RPanic}"
    by (simp_all add: p1_def)
  with None r assms(1) show ?thesis
    by (auto simp: worker_explained_def answers_def takes_effect_def closed_op intro: answers_panic)
next
  case (Some c)
  then obtain t where t: "pc_op now (wk_pc w) = Some (call_at t c)" using open_call_op by blast
  show ?thesis
  proof (cases "pc_result p1")
    case None
    with section_carries [OF Some, of now s] have "open_call p1 = Some c" by (auto simp: carries_def p1_def)
    with None Some assms(1) open_no_result [OF Some] show ?thesis
      by (auto simp: worker_explained_def answers_def takes_effect_open)
  next
    case r: (Some r)
    with section_carries [OF Some, of now s] open_no_result have "open_call p1 = None"
      by (auto simp: carries_def p1_def)
    with r Some t assms(1) open_no_result [OF Some] show ?thesis
      by (auto simp: worker_explained_def answers_def takes_effect_some intro!: list_all2_appendI) blast
  qed
qed

lemma contents_of: "contents s \<subseteq>\<^sub>m m \<Longrightarrow> map_of (st_data s) k = Some it \<Longrightarrow> m k = Some (cached_of it)"
  by (force simp: map_le_def contents_def dom_def)

lemma read_ok_write: "(\<And>now k. op \<noteq> OGet now k) \<Longrightarrow> (\<And>now ks. op \<noteq> OGetMulti now ks) \<Longrightarrow> read_ok m op r"
  by (cases op) auto

lemma stores_as_not_read: "stores_as d op k it \<Longrightarrow> read_ok m op r"
proof -
  assume "stores_as d op k it"
  then have "ref_step d op (RRes Stored) Map.empty k = Some (cached_of it)" by (simp add: stores_as_def)
  then show ?thesis by (cases op) auto
qed

lemma goal_op_not_read: "goal_fact d g \<Longrightarrow> read_ok m (goal_op now g) r"
  by (cases g) (auto intro: stores_as_not_read)

lemma section_read_ok:
  assumes "pc_fact d p s" "contents s \<subseteq>\<^sub>m m" "takes_effect now p (snd (section_step now p s)) = Some (op, r)"
  shows "read_ok m op r"
proof (cases "(now, p, s)" rule: section_step.cases)
  case (3 now c s)
  with assms show ?thesis
    by (cases c)
      (auto simp: takes_effect_alt split: option.splits if_splits dest: contents_of)
next
  case (4 now c s)
  with assms show ?thesis by (cases c) (auto simp: takes_effect_alt)
next
  case (9 now c at k it s)
  with assms stores_as_not_read show ?thesis by (auto simp: takes_effect_alt)
next
  case (11 now all rs es s)
  with assms show ?thesis
    by (fastforce simp: takes_effect_alt all_stored_def list_all_iff dest: contents_of)
qed (use assms goal_op_not_read in \<open>auto simp: takes_effect_alt takes_effect_def split: option.splits if_splits\<close>)

definition explained :: "u64 \<Rightarrow> call list list \<Rightarrow> system \<Rightarrow> bool" where
  "explained d todos y =
     (exclusive (sy_workers y) \<and> st_default_ttl (sy_store y) = d \<and> length (sy_workers y) = length todos \<and>
      contents (sy_store y) \<subseteq>\<^sub>m replay (ref_step d) (map snd (sy_history y)) Map.empty \<and>
      reads_explained d Map.empty (map snd (sy_history y)) \<and>
      (\<forall>i < length todos. pc_fact d (wk_pc (sy_workers y ! i)) (sy_store y) \<and>
         worker_explained (todos ! i) (sy_workers y ! i) (own i (sy_history y))))"

lemma start_explained:
  "explained d todos (start_system (storage_new h mx d) todos)"
  by (auto simp: explained_def start_system_def storage_new_def exclusive_def contents_def map_le_def dom_def
      worker_explained_def own_def answers_def)

text \<open>What the section of worker \<open>i\<close> leaves of the facts of the others.\<close>

lemma other_facts:
  assumes "exclusive ws" "may_run ws i" "i < length ws" "j < length ws" "j \<noteq> i"
    and "pc_fact d (wk_pc (ws ! j)) s"
  shows "pc_fact d (wk_pc (ws ! j)) (fst (section_step now (wk_pc (ws ! i)) s))"
proof (cases "writes (wk_pc (ws ! i))")
  case False
  then show ?thesis
    using assms(6) section_same_items [OF False, of s now] pc_fact_frame [of _ s d "wk_pc (ws ! j)"]
    unfolding same_items_def by blast
next
  case True
  then have "\<not> holds_read (wk_pc (ws ! j))"
    using assms(1-5) section_acquires(1) [OF assms(2,3,4)] unfolding writes_def exclusive_def by blast
  then show ?thesis using pc_fact_free assms(6) by blast
qed

lemma turn_explained:
  assumes "explained d todos y"
  shows "explained d todos (turn e y)"
proof (cases e)
  case (Pair i now)
  note y = assms [unfolded explained_def]
  have ex: "exclusive (sy_workers (turn e y))" using y turn_exclusive by blast
  have worker: "worker_explained (todos ! i) (sy_workers y ! i) (own i (sy_history y))"
    if "i < length (sy_workers y)" using y that by simp
  show ?thesis
  proof (cases rule: turn_cases [of i now y])
    case (call c cs)
    with worker have "worker_explained (todos ! i) ((sy_workers y ! i)\<lparr>wk_todo := cs, wk_pc := Start c\<rparr>) (own i (sy_history y))"
      by (simp add: worker_explained_def answers_def)
    with y ex call show ?thesis by (auto simp: Pair explained_def nth_list_update)
  next
    case (return r)
    with worker have "worker_explained (todos ! i)
        ((sy_workers y ! i)\<lparr>wk_pc := Idle, wk_results := wk_results (sy_workers y ! i) @ [r]\<rparr>) (own i (sy_history y))"
      by (simp add: worker_explained_def answers_def)
    with y ex return show ?thesis by (auto simp: Pair explained_def nth_list_update)
  next
    case (runs s1 p1)
    let ?w = "sy_workers y ! i" and ?h = "sy_history y"
    let ?m = "replay (ref_step d) (map snd ?h) Map.empty"
    have i: "i < length todos" using y runs(1) by simp
    have p1: "p1 = snd (section_step now (wk_pc ?w) (sy_store y))" and
      s1: "s1 = fst (section_step now (wk_pc ?w) (sy_store y))" using runs(5) by simp_all
    have fact: "pc_fact d (wk_pc ?w) (sy_store y)" and le: "contents (sy_store y) \<subseteq>\<^sub>m ?m" using y i by auto
    define es where "es = (case takes_effect now (wk_pc ?w) p1 of Some e \<Rightarrow> [e] | None \<Rightarrow> [])"
    have hist: "sy_history (turn e y) = ?h @ map (Pair i) es"
      using runs(6) by (simp add: Pair es_def split: option.split)
    have "worker_explained (todos ! i) (?w\<lparr>wk_pc := p1\<rparr>) (own i ?h @ es)"
      unfolding es_def using y i runs(2) worker_explained_section [OF _ _ p1] by simp
    moreover have "own j (map (Pair i) es) = (if j = i then es else [])" for j
      by (simp add: own_def filter_map comp_def)
    moreover have "contents s1 \<subseteq>\<^sub>m replay (ref_step d) (map snd ?h @ es) Map.empty"
      using section_effect [OF fact le, of now] s1 p1
      by (auto simp: es_def effect_on_def replay_snoc split: option.splits)
    moreover have "reads_explained d Map.empty (map snd ?h @ es)"
      using y section_read_ok [OF fact le, of now] p1
      by (auto simp: es_def reads_explained_snoc split: option.split)
    moreover have "pc_fact d p1 s1" "st_default_ttl s1 = d"
      using section_fact [OF fact, of now] section_ttl [of now "wk_pc ?w" "sy_store y"] y p1 s1 by auto
    moreover have "pc_fact d (wk_pc (sy_workers y ! j)) s1" if "j < length todos" "j \<noteq> i" for j
      using other_facts [OF _ runs(4,1), of j] that y s1 by auto
    ultimately show ?thesis
      using ex y runs(6) by (auto simp: explained_def hist own_append nth_list_update comp_def) (auto simp: Pair)
  qed (use assms in \<open>simp add: Pair\<close>)
qed

text \<open>
  A thread that was given the calls \<open>todo\<close>, has the entries \<open>es\<close> and has received the answers \<open>rs\<close>:
  the entries are its first calls, at some times, and the answers are their results.
\<close>

definition thread_explained :: "call list \<Rightarrow> (storage_op \<times> op_result) list \<Rightarrow> op_result list \<Rightarrow> bool" where
  "thread_explained todo es rs =
     (length rs \<le> length es \<and> length es \<le> length todo \<and>
      list_all2 (\<lambda>e c. \<exists>t. fst e = call_at t c) es (take (length es) todo) \<and>
      list_all2 (\<lambda>r e. r = snd e \<or> r = RPanic) rs (take (length rs) es))"

lemma worker_explained_thread: "worker_explained todo w es \<Longrightarrow> thread_explained todo es (wk_results w)"
proof -
  assume "worker_explained todo w es"
  then obtain made rest where "todo = made @ rest" "list_all2 (\<lambda>c e. \<exists>t. fst e = call_at t c) made es"
    and a: "list_all2 (\<lambda>r e. r = snd e \<or> r = RPanic) (answers w) es"
    by (auto simp: worker_explained_def)
  moreover from this(2) have "length made = length es" by (rule list_all2_lengthD)
  moreover have "length (wk_results w) \<le> length es"
    "list_all2 (\<lambda>r e. r = snd e \<or> r = RPanic) (wk_results w) (take (length (wk_results w)) es)"
    using a by (auto simp: answers_def list_all2_append1)
  ultimately show ?thesis by (auto simp: thread_explained_def list_all2_conv_all_nth)
qed

text \<open>
  C10. Reads under interleaving. However the sections of the threads interleave on a fresh store,
  the calls can be put into one order, in which each takes effect between its start and its return,
  such that every item a \<^verbatim>\<open>get\<close> or \<^verbatim>\<open>get_multi\<close> returned is the one the writes before it in that
  order left under its key, and no \<^verbatim>\<open>get\<close> returned an expired one. In that order the entries of each
  thread are calls it was given, one after the other, and every answer it has received is the result
  of its entry, or a panic.
\<close>

theorem interleaved_reads:
  "let y = run_system sched (start_system (storage_new h mx d) todos) in
     reads_explained d Map.empty (map snd (sy_history y)) \<and>
     (\<forall>i < length todos.
        thread_explained (todos ! i) (own i (sy_history y)) (wk_results (sy_workers y ! i)))"
proof -
  have "explained d todos (run_system sched (start_system (storage_new h mx d) todos))"
    unfolding run_system_def
    by (rule fold_invariant [where Q = "\<lambda>_. True"]) (simp_all add: start_explained turn_explained)
  then show ?thesis by (auto simp: explained_def Let_def intro: worker_explained_thread)
qed

theorem interleaved_reads_witness:
  "let y = run_system [(0, 1), (1, 1), (0, 1), (0, 2), (0, 3), (1, 4), (1, 5), (1, 6)]
         (start_system (storage_new length 100 0) [[CSet ''a'' ''x'' 7 0], [CGet ''a'']])
   in wk_results (sy_workers y ! 1)
        = [RItem (Some \<lparr>ci_value = ''x'', ci_flags = 7, ci_expires_at = None, ci_cas_unique = 1, ci_last_accessed = 1\<rparr>)]
      \<and> map snd (sy_history y)
        = [(OSet 1 ''a'' ''x'' 7 0, RRes Stored),
           (OGet 4 ''a'', RItem (Some \<lparr>ci_value = ''x'', ci_flags = 7, ci_expires_at = None, ci_cas_unique = 1, ci_last_accessed = 1\<rparr>))]
      \<and> thread_explained [CGet ''a''] (own 1 (sy_history y)) (wk_results (sy_workers y ! 1))"
  using interleaved_reads [of "[(0, 1), (1, 1), (0, 1), (0, 2), (0, 3), (1, 4), (1, 5), (1, 6)]" length 100 0
      "[[CSet ''a'' ''x'' 7 0], [CGet ''a'']]", unfolded Let_def, THEN conjunct2, rule_format, of 1]
  by (simp add: system_eval)

section \<open>What interleaving breaks\<close>

text \<open>Taking the size of an entry off and putting it back leaves room for it.\<close>

lemma room_again:
  assumes "n \<le> unat (m :: u64)" "unat m \<le> mx"
  shows "\<not> uadd (unat (m - of_nat n)) n > mx"
proof -
  have "unat (of_nat n :: u64) = n" using assms(1) unsigned_less [of m, where 'a = nat] by (simp add: unat_of_nat)
  then have "unat (m - of_nat n) = unat m - n" using assms(1) by (simp add: unat_sub word_le_nat_alt)
  then show ?thesis using assms unsigned_less [of m, where 'a = nat] by (simp add: uadd_def)
qed

text \<open>What a system shows: its store and its workers. A turn seen that way.\<close>

definition shows_as :: "storage \<Rightarrow> worker list \<Rightarrow> system \<Rightarrow> bool" where
  "shows_as s ws y = (sy_store y = s \<and> sy_workers y = ws)"

lemma turn_starts:
  assumes "shows_as s ws y" "i < length ws" "wk_pc (ws ! i) = Idle" "wk_todo (ws ! i) = c # cs"
  shows "shows_as s (ws[i := (ws ! i)\<lparr>wk_todo := cs, wk_pc := Start c\<rparr>]) (turn (i, now) y)"
  using assms by (simp add: shows_as_def turn_def put_worker_def Let_def)

lemma turn_returns:
  assumes "shows_as s ws y" "i < length ws" "wk_pc (ws ! i) = Done r"
  shows "shows_as s (ws[i := (ws ! i)\<lparr>wk_pc := Idle, wk_results := wk_results (ws ! i) @ [r]\<rparr>]) (turn (i, now) y)"
  using assms by (simp add: shows_as_def turn_def put_worker_def Let_def)

lemma turn_runs:
  assumes "shows_as s ws y" "i < length ws" "wk_pc (ws ! i) = p" "p \<noteq> Idle" "\<forall>r. p \<noteq> Done r" "may_run ws i"
    and "section_step now p s = (s', p')"
  shows "shows_as s' (ws[i := (ws ! i)\<lparr>wk_pc := p'\<rparr>]) (turn (i, now) y)"
  using assms by (cases p) (simp_all add: shows_as_def turn_def put_worker_def Let_def)

text \<open>The first section of a \<^verbatim>\<open>cas\<close> whose token matches.\<close>

lemma cas_check_passes:
  assumes "\<not> st_poisoned s" "map_of (st_data s) k = Some it" "\<not> is_expired now it" "calculate_expiry now ttl s = Returned e"
    and "length v = length (ci_value it)"
  shows "\<exists>s' item. cas_check now c k v f ttl (ci_cas_unique it) s = (s', EnsureLoad (memory_size it + length k) (Swap c now k item)) \<and>
    ci_value item = v \<and> memory_size item = memory_size it \<and> st_data s' = st_data s \<and> \<not> st_poisoned s' \<and>
    st_max_memory s' = st_max_memory s \<and> st_default_ttl s' = st_default_ttl s \<and>
    st_memory_used s' = st_memory_used s - of_nat (memory_size it + length k)"
  using assms by (simp add: cas_check_def next_cas_unique_def memory_size_def Let_def)

lemma cas_inserts:
  "map_of (st_data (insert_item k it s)) k = Some it" "st_poisoned (insert_item k it s) = st_poisoned s"
  "st_max_memory (insert_item k it s) = st_max_memory s" 
  "st_memory_used (insert_item k it s) = st_memory_used s + of_nat (memory_size it + length k)"
  by (simp_all add: insert_item_def record_access_def hm_simps)

text \<open>
  Two threads with the same token both pass the check: the first has seen that there is room and
  is about to insert when the second compares.
\<close>

lemma cas_both_pass:
  assumes "\<not> st_poisoned s" "map_of (st_data s) k = Some it" "\<not> is_expired now it"
    and "length v = length (ci_value it)" "length v' = length (ci_value it)"
    and "calculate_expiry now ttl s = Returned e" "calculate_expiry now ttl' s = Returned e'"
    and "memory_size it + length k \<le> unat (st_memory_used s)" "unat (st_memory_used s) \<le> st_max_memory s"
  obtains s2 x x' where "shows_as s2
      [\<lparr>wk_todo = [], wk_pc = Finish (Swap (CCas k v f ttl (ci_cas_unique it)) now k x), wk_results = []\<rparr>,
       \<lparr>wk_todo = [], wk_pc = EnsureLoad (memory_size it + length k) (Swap (CCas k v' f' ttl' (ci_cas_unique it)) now k x'),
        wk_results = []\<rparr>]
      (fold turn [(0, now), (0, now), (0, now), (1, now), (1, now)]
        (start_system s [[CCas k v f ttl (ci_cas_unique it)], [CCas k v' f' ttl' (ci_cas_unique it)]]))"
    "ci_value x' = v'" "memory_size x = memory_size it" "\<not> st_poisoned s2" "st_max_memory s2 = st_max_memory s"
    "st_memory_used s2 = st_memory_used s - of_nat (memory_size it + length k) - of_nat (memory_size it + length k)"
proof -
  let ?c = "CCas k v f ttl (ci_cas_unique it)" and ?c' = "CCas k v' f' ttl' (ci_cas_unique it)"
  let ?n = "memory_size it + length k" and ?W = "\<lambda>p rs. \<lparr>wk_todo = [], wk_pc = p, wk_results = rs\<rparr>"
  note room = room_again [OF assms(8,9)]
  obtain s1 x where s1: "cas_check now ?c k v f ttl (ci_cas_unique it) s = (s1, EnsureLoad ?n (Swap ?c now k x))"
    "ci_value x = v" "memory_size x = memory_size it" "st_data s1 = st_data s" "\<not> st_poisoned s1"
    "st_max_memory s1 = st_max_memory s" "st_default_ttl s1 = st_default_ttl s"
    "st_memory_used s1 = st_memory_used s - of_nat ?n"
    using cas_check_passes [OF assms(1-3,6,4), of ?c f] by blast
  have "calculate_expiry now ttl' s1 = calculate_expiry now ttl' s" by (simp only: calculate_expiry_def s1(7))
  with assms(7) have "calculate_expiry now ttl' s1 = Returned e'" by simp
  then obtain s2 x' where s2: "cas_check now ?c' k v' f' ttl' (ci_cas_unique it) s1 = (s2, EnsureLoad ?n (Swap ?c' now k x'))"
    "ci_value x' = v'" "memory_size x' = memory_size it" "st_data s2 = st_data s1" "\<not> st_poisoned s2"
    "st_max_memory s2 = st_max_memory s1" "st_memory_used s2 = st_memory_used s1 - of_nat ?n"
    using cas_check_passes [OF s1(5) _ assms(3) _ assms(5), of k ttl' e' ?c' f'] assms(2) s1(4) by auto
  let ?y = "start_system s [[?c], [?c']]"
  have "shows_as s [\<lparr>wk_todo = [?c], wk_pc = Idle, wk_results = []\<rparr>, \<lparr>wk_todo = [?c'], wk_pc = Idle, wk_results = []\<rparr>] ?y"
    by (simp add: shows_as_def start_system_def)
  from turn_starts [OF this, of 0 ?c "[]" now]
  have "shows_as s [?W (Start ?c) [], \<lparr>wk_todo = [?c'], wk_pc = Idle, wk_results = []\<rparr>] (fold turn [(0, now)] ?y)" by simp
  from turn_runs [OF this, of 0 _ now] s1(1)
  have "shows_as s1 [?W (EnsureLoad ?n (Swap ?c now k x)) [], \<lparr>wk_todo = [?c'], wk_pc = Idle, wk_results = []\<rparr>]
      (fold turn [(0, now), (0, now)] ?y)" by (simp add: may_run_def)
  from turn_runs [OF this, of 0 _ now] room s1(6,8)
  have "shows_as s1 [?W (Finish (Swap ?c now k x)) [], \<lparr>wk_todo = [?c'], wk_pc = Idle, wk_results = []\<rparr>]
      (fold turn [(0, now), (0, now), (0, now)] ?y)" by (simp add: may_run_def)
  from turn_starts [OF this, of 1 ?c' "[]" now]
  have "shows_as s1 [?W (Finish (Swap ?c now k x)) [], ?W (Start ?c') []]
      (fold turn [(0, now), (0, now), (0, now), (1, now)] ?y)" by simp
  from turn_runs [OF this, of 1 _ now] s2(1)
  have "shows_as s2 [?W (Finish (Swap ?c now k x)) [], ?W (EnsureLoad ?n (Swap ?c' now k x')) []]
      (fold turn [(0, now), (0, now), (0, now), (1, now), (1, now)] ?y)" by (simp add: may_run_def)
  from that [OF this s2(2) s1(3) s2(5)] s1(6,8) s2(6,7) show ?thesis by simp
qed

text \<open>
  C36. Compare-and-swap is not atomic: \<^verbatim>\<open>cas\<close> releases the lock between comparing the token and
  inserting the item, and does not compare again. In every store, for every key with a live item and
  any two values of its length, there is an interleaving of two threads that present the item's
  token in which both get \<^verbatim>\<open>Stored\<close> and the update of the first is lost, which is what the token
  is there to prevent.
\<close>

theorem cas_not_atomic:
  assumes "\<not> st_poisoned s" "map_of (st_data s) k = Some it" "\<not> is_expired now it"
    and "length v = length (ci_value it)" "length v' = length (ci_value it)"
    and "calculate_expiry now ttl s = Returned e" "calculate_expiry now ttl' s = Returned e'"
    and "memory_size it + length k \<le> unat (st_memory_used s)" "unat (st_memory_used s) \<le> st_max_memory s"
  shows "\<exists>sched. let y = run_system sched (start_system s
        [[CCas k v f ttl (ci_cas_unique it)], [CCas k v' f' ttl' (ci_cas_unique it)]])
    in map wk_results (sy_workers y) = [[RRes Stored], [RRes Stored]]
      \<and> map_option ci_value (map_of (st_data (sy_store y)) k) = Some v'"
proof -
  let ?c = "CCas k v f ttl (ci_cas_unique it)" and ?c' = "CCas k v' f' ttl' (ci_cas_unique it)"
  let ?n = "memory_size it + length k" and ?W = "\<lambda>p rs. \<lparr>wk_todo = [], wk_pc = p, wk_results = rs\<rparr>"
  define y where "y = start_system s [[?c], [?c']]"
  obtain s2 x x' where "shows_as s2 [?W (Finish (Swap ?c now k x)) [], ?W (EnsureLoad ?n (Swap ?c' now k x')) []]
      (fold turn [(0, now), (0, now), (0, now), (1, now), (1, now)] y)"
    and s2: "ci_value x' = v'" "memory_size x = memory_size it" "\<not> st_poisoned s2" "st_max_memory s2 = st_max_memory s"
      "st_memory_used s2 = st_memory_used s - of_nat ?n - of_nat ?n"
    unfolding y_def by (rule cas_both_pass [OF assms])
  note start = this(1)
  let ?s3 = "insert_item k x s2"
  have s3: "\<not> st_poisoned ?s3" "st_memory_used ?s3 = st_memory_used s - of_nat ?n" "st_max_memory ?s3 = st_max_memory s"
    using s2(2-5) by (simp_all add: cas_inserts)
  note room = room_again [OF assms(8,9)]
  from turn_runs [OF start, of 0 _ now] s2(3)
  have "shows_as ?s3 [?W (Done (RRes Stored)) [], ?W (EnsureLoad ?n (Swap ?c' now k x')) []]
      (fold turn [(0, now), (0, now), (0, now), (1, now), (1, now), (0, now)] y)" by (simp add: may_run_def)
  from turn_runs [OF this, of 1 _ now] room s3(2,3)
  have "shows_as ?s3 [?W (Done (RRes Stored)) [], ?W (Finish (Swap ?c' now k x')) []]
      (fold turn [(0, now), (0, now), (0, now), (1, now), (1, now), (0, now), (1, now)] y)" by (simp add: may_run_def)
  from turn_runs [OF this, of 1 _ now] s3(1)
  have "shows_as (insert_item k x' ?s3) [?W (Done (RRes Stored)) [], ?W (Done (RRes Stored)) []]
      (fold turn [(0, now), (0, now), (0, now), (1, now), (1, now), (0, now), (1, now), (1, now)] y)" by (simp add: may_run_def)
  from turn_returns [OF this, of 0 _ now]
  have "shows_as (insert_item k x' ?s3) [?W Idle [RRes Stored], ?W (Done (RRes Stored)) []]
      (fold turn [(0, now), (0, now), (0, now), (1, now), (1, now), (0, now), (1, now), (1, now), (0, now)] y)" by simp
  from turn_returns [OF this, of 1 _ now]
  have "shows_as (insert_item k x' ?s3) [?W Idle [RRes Stored], ?W Idle [RRes Stored]]
      (run_system [(0, now), (0, now), (0, now), (1, now), (1, now), (0, now), (1, now), (1, now), (0, now), (1, now)] y)"
    by (simp add: run_system_def)
  then have "let z = run_system [(0, now), (0, now), (0, now), (1, now), (1, now), (0, now), (1, now), (1, now), (0, now), (1, now)] y
      in map wk_results (sy_workers z) = [[RRes Stored], [RRes Stored]] \<and> map_option ci_value (map_of (st_data (sy_store z)) k) = Some v'"
    using s2(1) by (simp add: shows_as_def cas_inserts)
  then show ?thesis unfolding y_def by blast
qed

theorem cas_not_atomic_witness:
  "\<exists>sched. let y = run_system sched (start_system (fst (set_item 0 ''n'' ''0'' 0 0 (storage_new length 1000 0)))
        [[CCas ''n'' ''1'' 0 0 1], [CCas ''n'' ''2'' 0 0 1]])
    in map wk_results (sy_workers y) = [[RRes Stored], [RRes Stored]]
      \<and> map_option ci_value (map_of (st_data (sy_store y)) ''n'') = Some ''2''"
  using cas_not_atomic [of "fst (set_item 0 ''n'' ''0'' 0 0 (storage_new length 1000 0))" "''n''"
      "\<lparr>ci_value = ''0'', ci_flags = 0, ci_expires_at = None, ci_cas_unique = 1, ci_last_accessed = 0\<rparr>" 1 "''1''" "''2''" 0 None 0 None 0 0]
  by (simp add: storage_eval)
text \<open>\<^verbatim>\<open>add\<close> checks under one guard and stores under another: both of two adds of a new key succeed.\<close>

lemma add_not_atomic:
  "let y = run_system [(0, 1), (1, 1), (0, 2), (1, 2), (0, 3), (1, 3), (0, 4), (1, 4), (0, 5), (1, 5),
                       (1, 6), (0, 6), (1, 7)]
         (start_system (storage_new length 1000 0) [[CAdd ''n'' ''1'' 0 0], [CAdd ''n'' ''2'' 0 0]])
   in map wk_results (sy_workers y) = [[RRes Stored], [RRes Stored]]"
  by (simp add: system_eval)

text \<open>
  A \<^verbatim>\<open>get\<close> that meets an expired item deletes whatever is under the key once it has the write lock: a
  value stored in between is lost, although its \<^verbatim>\<open>set\<close> was answered with \<^verbatim>\<open>Stored\<close>.
\<close>

lemma expired_get_deletes_fresh:
  "let y = run_system [(0, 2000000000), (0, 2000000000), (1, 2000000000), (1, 2000000000), (1, 2000000000),
                       (1, 2000000000), (1, 2000000000), (1, 2000000000), (0, 2000000001)]
         (start_system (fst (set_item 0 ''n'' ''old'' 0 1 (storage_new length 1000 0)))
            [[CGet ''n''], [CSet ''n'' ''new'' 0 0]])
   in wk_results (sy_workers y ! 1) = [RRes Stored] \<and> st_data (sy_store y) = []"
  by (simp add: system_eval)

text \<open>
  \<^verbatim>\<open>incr\<close> is a \<^verbatim>\<open>get\<close> followed by a \<^verbatim>\<open>set\<close> (\<^verbatim>\<open>handle_incr_decr\<close> of \<^verbatim>\<open>src/src/request.rs\<close>): when both of two
  increments of 0 read before either writes, both write 1.
\<close>

lemma incr_not_atomic:
  "let y = run_system [(0, 1), (1, 1), (0, 2), (1, 2), (0, 3), (1, 3), (0, 4), (1, 4), (0, 5), (1, 5),
                       (0, 6), (1, 6), (0, 7), (1, 7), (0, 8), (0, 9), (1, 8), (1, 9), (0, 10), (1, 10)]
         (start_system (fst (set_item 0 ''n'' ''0'' 0 0 (storage_new length 1000 0)))
            [[CGet ''n'', CSet ''n'' ''1'' 0 0], [CGet ''n'', CSet ''n'' ''1'' 0 0]])
   in list_all (\<lambda>w. case wk_results w of
          [RItem (Some item), RRes Stored] \<Rightarrow> ci_value item = ''0'' | _ \<Rightarrow> False) (sy_workers y)
      \<and> map_option ci_value (map_of (st_data (sy_store y)) ''n'') = Some ''1''"
  by (simp add: system_eval)

end
