(* ===== verification/Locking.thy ===== *)
theory Locking
  imports Prelude
begin

text \<open>
  The locks of the store, \<^verbatim>\<open>src/src/storage.rs\<close>, under threads that interleave. The store has two
  reader-writer locks, one on the items and one on the access order. An operation is the sequence
  of acquisitions and releases it performs; where the code branches on what it finds, the
  branch taken is an argument, so that every interleaving of the data is covered. Guards are
  released where the source drops them, in reverse order of their declaration at the end of a
  scope.

  Whether a reader has to wait while a writer is waiting is left open by the documentation of
  \<^verbatim>\<open>RwLock\<close>; \<open>wp\<close> says whether it has to, and the theorems hold for both.
\<close>

section \<open>Locks and threads\<close>

datatype lock = DataLock | OrderLock

datatype mode = Shared | Exclusive

datatype act = Acquire lock mode | Release lock

record thread =
  th_todo :: "act list"
  th_held :: "(lock \<times> mode) list"

definition holds_lock :: "lock \<Rightarrow> thread \<Rightarrow> bool" where
  "holds_lock l t = (l \<in> fst ` set (th_held t))"

definition waits_to_write :: "lock \<Rightarrow> thread \<Rightarrow> bool" where
  "waits_to_write l t = (case th_todo t of a # _ \<Rightarrow> a = Acquire l Exclusive | [] \<Rightarrow> False)"

fun granted :: "bool \<Rightarrow> thread list \<Rightarrow> lock \<Rightarrow> mode \<Rightarrow> bool" where
  "granted wp ts l Exclusive = list_all (\<lambda>t. \<not> holds_lock l t) ts"
| "granted wp ts l Shared =
     (list_all (\<lambda>t. (l, Exclusive) \<notin> set (th_held t)) ts \<and> (wp \<longrightarrow> list_all (\<lambda>t. \<not> waits_to_write l t) ts))"

text \<open>The next action of thread \<open>i\<close>, when it can be taken.\<close>

definition act_step :: "bool \<Rightarrow> nat \<Rightarrow> thread list \<Rightarrow> thread list option" where
  "act_step wp i ts =
     (if i < length ts
      then (case th_todo (ts ! i) of
              [] \<Rightarrow> None
            | Acquire l m # rest \<Rightarrow>
                if granted wp ts l m
                then Some (ts[i := \<lparr>th_todo = rest, th_held = (l, m) # th_held (ts ! i)\<rparr>]) else None
            | Release l # rest \<Rightarrow>
                Some (ts[i := \<lparr>th_todo = rest, th_held = filter (\<lambda>h. fst h \<noteq> l) (th_held (ts ! i))\<rparr>]))
      else None)"

inductive lock_step :: "bool \<Rightarrow> thread list \<Rightarrow> thread list \<Rightarrow> bool" for wp where
  act: "act_step wp i ts = Some ts' \<Longrightarrow> lock_step wp ts ts'"

inductive_cases lock_stepE: "lock_step wp ts ts'"

section \<open>The operations of the store\<close>

definition record_access_locks :: "act list" where
  "record_access_locks = [Acquire OrderLock Exclusive, Release OrderLock]"

text \<open>\<open>found\<close>: the key is there.\<close>

definition delete_locks :: "bool \<Rightarrow> act list" where
  "delete_locks found =
     [Acquire DataLock Exclusive] @
     (if found then [Acquire OrderLock Exclusive, Release OrderLock] else []) @ [Release DataLock]"

text \<open>What a lookup meets: no item, an expired one (and whether the delete that follows finds it), a live one.\<close>

datatype probe = Missing | Stale bool | Live

fun get_locks :: "probe \<Rightarrow> act list" where
  "get_locks Missing = [Acquire DataLock Shared, Release DataLock]"
| "get_locks (Stale found) = [Acquire DataLock Shared, Release DataLock] @ delete_locks found"
| "get_locks Live = [Acquire DataLock Shared] @ record_access_locks @ [Release DataLock]"

fun probe_locks :: "probe \<Rightarrow> act list" where
  "probe_locks Live = record_access_locks"
| "probe_locks _ = []"

fun expired_locks :: "probe \<Rightarrow> act list" where
  "expired_locks (Stale found) = delete_locks found"
| "expired_locks _ = []"

definition get_multi_locks :: "probe list \<Rightarrow> act list" where
  "get_multi_locks ps =
     [Acquire DataLock Shared] @ concat (map probe_locks ps) @ [Release DataLock] @ concat (map expired_locks ps)"

definition find_lru_locks :: "act list" where
  "find_lru_locks = [Acquire OrderLock Shared, Acquire DataLock Shared, Release DataLock, Release OrderLock]"

text \<open>
  An eviction: for each round whether the delete found the chosen key, and whether the loop ended
  because no key was left.
\<close>

type_synonym eviction = "bool list \<times> bool"

definition ensure_locks :: "eviction \<Rightarrow> act list" where
  "ensure_locks ev =
     concat (map (\<lambda>found. find_lru_locks @ delete_locks found) (fst ev)) @ (if snd ev then find_lru_locks else [])"

definition store_locks :: "act list" where
  "store_locks = [Acquire DataLock Exclusive] @ record_access_locks @ [Release DataLock]"

definition set_locks :: "eviction \<Rightarrow> act list" where
  "set_locks ev = ensure_locks ev @ store_locks"

text \<open>\<^verbatim>\<open>add\<close> and \<^verbatim>\<open>replace\<close>: the check, and the store when it succeeds.\<close>

definition checked_set_locks :: "eviction option \<Rightarrow> act list" where
  "checked_set_locks r =
     [Acquire DataLock Shared, Release DataLock] @ (case r of Some ev \<Rightarrow> set_locks ev | None \<Rightarrow> [])"

definition cas_locks :: "eviction option \<Rightarrow> act list" where
  "cas_locks r =
     [Acquire DataLock Exclusive, Release DataLock] @
     (case r of Some ev \<Rightarrow> ensure_locks ev @ store_locks | None \<Rightarrow> [])"

text \<open>
  \<^verbatim>\<open>append\<close> and \<^verbatim>\<open>prepend\<close>: no live item; the data fits; or room is made first, and then the item is
  still there or not.
\<close>

datatype extension = NoItem | Fits | Makes_Room eviction bool

fun extend_locks :: "extension \<Rightarrow> act list" where
  "extend_locks NoItem = [Acquire DataLock Exclusive, Release DataLock]"
| "extend_locks Fits = store_locks"
| "extend_locks (Makes_Room ev still) =
     [Acquire DataLock Exclusive, Release DataLock] @ ensure_locks ev @
     (if still then store_locks else [Acquire DataLock Exclusive, Release DataLock])"

definition cleanup_locks :: "bool list \<Rightarrow> act list" where
  "cleanup_locks fs = [Acquire DataLock Shared, Release DataLock] @ concat (map delete_locks fs)"

definition flush_all_locks :: "act list" where
  "flush_all_locks =
     [Acquire DataLock Exclusive, Acquire OrderLock Exclusive, Release OrderLock, Release DataLock]"

definition stats_locks :: "act list" where
  "stats_locks = [Acquire DataLock Shared, Release DataLock]"

datatype lock_op =
    LGet probe
  | LGetMulti "probe list"
  | LSet eviction
  | LAddOrReplace "eviction option"
  | LCas "eviction option"
  | LDelete bool
  | LAppendOrPrepend extension
  | LCleanup "bool list"
  | LFlushAll
  | LStats

fun locks_of :: "lock_op \<Rightarrow> act list" where
  "locks_of (LGet p) = get_locks p"
| "locks_of (LGetMulti ps) = get_multi_locks ps"
| "locks_of (LSet ev) = set_locks ev"
| "locks_of (LAddOrReplace r) = checked_set_locks r"
| "locks_of (LCas r) = cas_locks r"
| "locks_of (LDelete found) = delete_locks found"
| "locks_of (LAppendOrPrepend x) = extend_locks x"
| "locks_of (LCleanup fs) = cleanup_locks fs"
| "locks_of LFlushAll = flush_all_locks"
| "locks_of LStats = stats_locks"

text \<open>Whether an operation looks for a key to evict.\<close>

fun evicts :: "lock_op \<Rightarrow> bool" where
  "evicts (LSet ev) = (ev \<noteq> ([], False))"
| "evicts (LAddOrReplace (Some ev)) = (ev \<noteq> ([], False))"
| "evicts (LCas (Some ev)) = (ev \<noteq> ([], False))"
| "evicts (LAppendOrPrepend (Makes_Room ev still)) = (ev \<noteq> ([], False))"
| "evicts _ = False"

definition start :: "lock_op list \<Rightarrow> thread" where
  "start ops = \<lparr>th_todo = concat (map locks_of ops), th_held = []\<rparr>"

definition finished :: "thread \<Rightarrow> bool" where
  "finished t = (th_todo t = [] \<and> th_held t = [])"

section \<open>Exclusion\<close>

text \<open>A lock held for writing is held by one thread only.\<close>

definition exclusion :: "thread list \<Rightarrow> bool" where
  "exclusion ts =
     (\<forall>i<length ts. \<forall>j<length ts. \<forall>l. i \<noteq> j \<longrightarrow> (l, Exclusive) \<in> set (th_held (ts ! i)) \<longrightarrow> \<not> holds_lock l (ts ! j))"

lemma granted_fresh:
  "granted wp ts l m \<Longrightarrow> t \<in> set ts \<Longrightarrow> (l, Exclusive) \<notin> set (th_held t) \<and> (m = Exclusive \<longrightarrow> \<not> holds_lock l t)"
  by (cases m) (force simp: list_all_iff holds_lock_def)+

lemma lock_step_exclusion:
  assumes "lock_step wp ts ts'" "exclusion ts"
  shows "exclusion ts'"
proof -
  obtain i where act: "act_step wp i ts = Some ts'" using assms(1) by (rule lock_stepE)
  then have i: "i < length ts" by (auto simp: act_step_def split: if_splits)
  consider l m r where "th_todo (ts ! i) = Acquire l m # r" "granted wp ts l m"
      "ts' = ts[i := \<lparr>th_todo = r, th_held = (l, m) # th_held (ts ! i)\<rparr>]"
    | l r where "ts' = ts[i := \<lparr>th_todo = r, th_held = filter (\<lambda>h. fst h \<noteq> l) (th_held (ts ! i))\<rparr>]"
    using act i by (auto simp: act_step_def split: list.splits act.splits if_splits)
  then show ?thesis
  proof cases
    case 1
    with assms(2) i granted_fresh [OF 1(2)] show ?thesis
      by (auto simp: exclusion_def holds_lock_def nth_list_update)
  next
    case 2
    with assms(2) i show ?thesis by (fastforce simp: exclusion_def holds_lock_def nth_list_update)
  qed
qed

section \<open>The order of the locks\<close>

text \<open>
  The discipline: items before access order, neither twice, everything released in the end.
\<close>

fun ordered :: "(lock \<times> mode) list \<Rightarrow> act list \<Rightarrow> bool" where
  "ordered held [] = (held = [])"
| "ordered held (Acquire DataLock m # r) = (held = [] \<and> ordered [(DataLock, m)] r)"
| "ordered held (Acquire OrderLock m # r) = (OrderLock \<notin> fst ` set held \<and> ordered ((OrderLock, m) # held) r)"
| "ordered held (Release l # r) = (l \<in> fst ` set held \<and> ordered (filter (\<lambda>h. fst h \<noteq> l) held) r)"

lemma ordered_append: "ordered h xs \<Longrightarrow> ordered [] ys \<Longrightarrow> ordered h (xs @ ys)"
  by (induction h xs rule: ordered.induct) auto

lemma ordered_concat: "(\<And>x. x \<in> set xss \<Longrightarrow> ordered [] x) \<Longrightarrow> ordered [] (concat xss)"
  by (induction xss) (auto intro: ordered_append)

lemma ordered_delete: "ordered [] (delete_locks found)"
  by (simp add: delete_locks_def)

lemma ordered_expired: "ordered [] (expired_locks p)"
  by (cases p) (simp_all add: ordered_delete)

lemma ordered_get_multi: "ordered [] (get_multi_locks ps)"
proof -
  have rest: "ordered [] (concat (map expired_locks qs))" for qs
    by (rule ordered_concat) (auto intro: ordered_expired)
  have "ordered [(DataLock, Shared)] (concat (map probe_locks ps) @ Release DataLock # concat (map expired_locks qs))" for qs
  proof (induction ps)
    case (Cons p ps)
    then show ?case by (cases p) (simp_all add: record_access_locks_def)
  qed (simp add: rest)
  then show ?thesis by (simp add: get_multi_locks_def)
qed

lemma ordered_op: "\<not> evicts op \<Longrightarrow> ordered [] (locks_of op)"
proof (induction op rule: locks_of.induct)
  case (1 p)
  then show ?case by (cases p) (simp_all add: record_access_locks_def delete_locks_def)
next
  case (8 fs)
  have "ordered [] (concat (map delete_locks fs))" by (rule ordered_concat) (auto simp: ordered_delete)
  then show ?case by (simp add: cleanup_locks_def)
next
  case (7 x)
  then show ?case by (cases x) (simp_all add: store_locks_def record_access_locks_def ensure_locks_def)
qed (auto simp: ordered_get_multi ordered_delete set_locks_def store_locks_def record_access_locks_def ensure_locks_def
    checked_set_locks_def cas_locks_def flush_all_locks_def stats_locks_def split: option.split)

lemma ordered_start: "(\<And>op. op \<in> set ops \<Longrightarrow> \<not> evicts op) \<Longrightarrow> ordered (th_held (start ops)) (th_todo (start ops))"
  by (auto simp: start_def intro!: ordered_concat ordered_op)

definition disciplined :: "thread list \<Rightarrow> bool" where
  "disciplined ts = list_all (\<lambda>t. ordered (th_held t) (th_todo t)) ts"

lemma act_step_disciplined:
  assumes "act_step wp i ts = Some ts'" "disciplined ts"
  shows "disciplined ts'"
proof -
  have i: "i < length ts" using assms(1) by (auto simp: act_step_def split: if_splits)
  then have "ordered (th_held (ts ! i)) (th_todo (ts ! i))" using assms(2) by (simp add: disciplined_def list_all_length)
  then obtain t where "ts' = ts[i := t]" "ordered (th_held t) (th_todo t)"
    using assms(1) i
    by (cases "(th_held (ts ! i), th_todo (ts ! i))" rule: ordered.cases) (auto simp: act_step_def split: if_splits)
  then show ?thesis
    using assms(2) i by (auto simp: disciplined_def list_all_length nth_list_update)
qed

text \<open>A lock nobody holds goes to somebody who asks for it.\<close>

lemma free_lock_granted:
  assumes free: "list_all (\<lambda>t. \<not> holds_lock l t) ts" and i: "i < length ts" "th_todo (ts ! i) = Acquire l m # r"
  shows "\<exists>j ts'. act_step wp j ts = Some ts'"
proof (cases "granted wp ts l m")
  case True
  with i show ?thesis by (intro exI [of _ i]) (simp add: act_step_def)
next
  case False
  have "(l, Exclusive) \<notin> set (th_held t)" if "t \<in> set ts" for t
    using free that by (force simp: list_all_iff holds_lock_def)
  with False free have "\<exists>t\<in>set ts. waits_to_write l t" by (cases m) (auto simp: list_all_iff)
  then obtain j where j: "j < length ts" "waits_to_write l (ts ! j)" by (metis in_set_conv_nth)
  then obtain r' where "th_todo (ts ! j) = Acquire l Exclusive # r'"
    by (auto simp: waits_to_write_def split: list.splits)
  with j(1) free have "act_step wp j ts \<noteq> None" by (simp add: act_step_def)
  then show ?thesis by blast
qed

lemma progress:
  assumes "disciplined ts" "\<not> list_all finished ts"
  shows "\<exists>i ts'. act_step wp i ts = Some ts'"
proof -
  have ord: "ordered (th_held (ts ! i)) (th_todo (ts ! i))" if "i < length ts" for i
    using assms(1) that by (simp add: disciplined_def list_all_length)
  have release: "\<exists>i ts'. act_step wp i ts = Some ts'" if "i < length ts" "th_todo (ts ! i) = Release l # r" for i l r
    using that by (intro exI [of _ i]) (simp add: act_step_def)
  consider (holds_order) i where "i < length ts" "holds_lock OrderLock (ts ! i)"
    | (holds_data) i where "i < length ts" "th_held (ts ! i) \<noteq> []" "list_all (\<lambda>t. \<not> holds_lock OrderLock t) ts"
    | (idle) "\<And>i. i < length ts \<Longrightarrow> th_held (ts ! i) = []"
    by (force simp: list_all_length)
  then show ?thesis
  proof cases
    case holds_order
    with ord [OF holds_order(1)] release [OF holds_order(1)] show ?thesis
      by (cases "(th_held (ts ! i), th_todo (ts ! i))" rule: ordered.cases) (auto simp: holds_lock_def)
  next
    case holds_data
    with ord [OF holds_data(1)] release [OF holds_data(1)] free_lock_granted [OF holds_data(3,1)] show ?thesis
      by (cases "(th_held (ts ! i), th_todo (ts ! i))" rule: ordered.cases) auto
  next
    case idle
    then have free: "list_all (\<lambda>t. \<not> holds_lock l t) ts" for l by (simp add: list_all_length holds_lock_def)
    from assms(2) obtain i where i: "i < length ts" "\<not> finished (ts ! i)" by (auto simp: list_all_length)
    with ord [OF i(1)] idle [OF i(1)] free_lock_granted [OF free i(1)] show ?thesis
      by (cases "(th_held (ts ! i), th_todo (ts ! i))" rule: ordered.cases) (auto simp: finished_def)
  qed
qed

section \<open>Runs\<close>

text \<open>Every action shortens what is left to do.\<close>

definition remaining :: "thread list \<Rightarrow> nat" where
  "remaining ts = sum_list (map (\<lambda>t. length (th_todo t)) ts)"

lemma act_step_shortens:
  assumes "act_step wp i ts = Some ts'"
  shows "remaining ts' < remaining ts"
proof -
  obtain t where t: "ts' = ts[i := t]" "i < length ts" "length (th_todo (ts ! i)) = Suc (length (th_todo t))"
    using assms by (auto simp: act_step_def split: list.splits act.splits if_splits)
  let ?f = "\<lambda>t. length (th_todo t)"
  have "?f (ts ! i) \<le> sum_list (map ?f ts)" using t(2) by (intro member_le_sum_list) auto
  then show ?thesis using t by (simp add: remaining_def map_update sum_list_update)
qed

lemma disciplined_run: "(lock_step wp)\<^sup>*\<^sup>* ts ts' \<Longrightarrow> disciplined ts \<Longrightarrow> disciplined ts'"
  by (induction rule: rtranclp_induct) (auto elim!: lock_stepE intro: act_step_disciplined)

lemma exclusion_run: "(lock_step wp)\<^sup>*\<^sup>* ts ts' \<Longrightarrow> exclusion ts \<Longrightarrow> exclusion ts'"
  by (induction rule: rtranclp_induct) (auto intro: lock_step_exclusion)

lemma can_finish:
  "disciplined ts \<Longrightarrow> \<exists>ts'. (lock_step wp)\<^sup>*\<^sup>* ts ts' \<and> list_all finished ts'"
proof (induction "remaining ts" arbitrary: ts rule: less_induct)
  case less
  show ?case
  proof (cases "list_all finished ts")
    case False
    obtain i ts1 where step: "act_step wp i ts = Some ts1" using progress [OF less.prems False] by blast
    obtain ts' where "(lock_step wp)\<^sup>*\<^sup>* ts1 ts'" "list_all finished ts'"
      using less.hyps [OF act_step_shortens [OF step] act_step_disciplined [OF step less.prems]] by blast
    with lock_step.act [OF step] show ?thesis by (meson converse_rtranclp_into_rtranclp)
  qed blast
qed

lemma start_exclusion: "exclusion (map start progs)"
  by (simp add: exclusion_def start_def)

text \<open>
  C21. Without eviction the locks cannot deadlock: however many threads run whatever operations,
  in any interleaving and with readers waiting for writers or not, as long as no operation has to
  make room, from every state they reach they can all run to their end and release all locks, no
  run is longer than the actions of the operations, and a lock held for writing is held by that
  thread only.
\<close>

theorem no_eviction_no_deadlock:
  assumes "\<forall>ops\<in>set progs. \<forall>op\<in>set ops. \<not> evicts op" "(lock_step wp)\<^sup>*\<^sup>* (map start progs) ts"
  shows "(\<exists>ts'. (lock_step wp)\<^sup>*\<^sup>* ts ts' \<and> list_all finished ts') \<and> exclusion ts
    \<and> (list_all finished ts \<or> (\<exists>ts'. lock_step wp ts ts')) \<and> (\<forall>ts'. lock_step wp ts ts' \<longrightarrow> remaining ts' < remaining ts)"
proof -
  have "disciplined (map start progs)"
    using assms(1) ordered_start by (simp add: disciplined_def list_all_iff)
  then have d: "disciplined ts" using disciplined_run [OF assms(2)] by blast
  then have "list_all finished ts \<or> (\<exists>ts'. lock_step wp ts ts')" using progress [OF d] lock_step.act by blast
  with can_finish [OF d] exclusion_run [OF assms(2) start_exclusion] show ?thesis
    by (auto elim!: lock_stepE dest: act_step_shortens)
qed

theorem no_eviction_no_deadlock_witness:
  "\<exists>ts'. (lock_step True)\<^sup>*\<^sup>* (map start [[LGet Live, LSet ([], False)], [LFlushAll]]) ts' \<and> list_all finished ts'"
  using no_eviction_no_deadlock [of "[[LGet Live, LSet ([], False)], [LFlushAll]]" True
      "map start [[LGet Live, LSet ([], False)], [LFlushAll]]"] by simp

text \<open>
  C35. Eviction can deadlock: of two clients that store, one that has to make room and one that has
  not, the first holds the access order and waits for the items, the second the items and waits for
  the access order. No thread can go on, and both have work left.
\<close>

theorem eviction_deadlocks:
  "\<exists>ts. (lock_step wp)\<^sup>*\<^sup>* [start [LSet ([], False)], start [LSet ([True], False)]] ts
    \<and> (\<nexists>ts'. lock_step wp ts ts') \<and> list_all (\<lambda>t. th_todo t \<noteq> []) ts"
proof -
  let ?a = "start [LSet ([], False)]" and ?b = "start [LSet ([True], False)]"
  let ?a' = "\<lparr>th_todo = tl (th_todo ?a), th_held = [(DataLock, Exclusive)]\<rparr>"
  let ?b' = "\<lparr>th_todo = tl (th_todo ?b), th_held = [(OrderLock, Shared)]\<rparr>"
  note eval = start_def set_locks_def ensure_locks_def store_locks_def record_access_locks_def find_lru_locks_def
    delete_locks_def act_step_def holds_lock_def waits_to_write_def
  have "lock_step wp [?a, ?b] [?a, ?b']" by (rule lock_step.act [of _ 1]) (simp add: eval)
  moreover have "lock_step wp [?a, ?b'] [?a', ?b']" by (rule lock_step.act [of _ 0]) (simp add: eval)
  moreover have "act_step wp i [?a', ?b'] = None" for i by (cases i) (simp_all add: eval nth_Cons split: nat.split)
  then have "\<nexists>ts'. lock_step wp [?a', ?b'] ts'" by (auto elim!: lock_stepE)
  moreover have "list_all (\<lambda>t. th_todo t \<noteq> []) [?a', ?b']" by (simp add: eval)
  ultimately show ?thesis by (meson converse_rtranclp_into_rtranclp rtranclp.rtrancl_refl)
qed

end
