(* ===== verification/Protocol_Base.thy ===== *)
theory Protocol_Base
  imports Rust_Std
begin

text \<open>
  What the four protocols share: the search for the end of a line, which each parser under
  \<^verbatim>\<open>src/src/protocols\<close> has as its own private \<^verbatim>\<open>find_crlf\<close> (the four are identical), and the
  contract of a parser that reads requests from the front of a growing buffer.

  The contract, the locale \<open>stream_parser\<close>, is what the event loops rely on when they call a
  parser again after every read: a verdict reached on a buffer is not changed by bytes that
  arrive later, and a complete request lies within the buffer. From it follows that the way a
  byte stream is cut into reads does not matter. Every parser of the development interprets it.
\<close>

section \<open>Lines\<close>

fun find_crlf :: "bytes \<Rightarrow> nat option" where
  "find_crlf (a # b # rest) =
     (if a = CHR 0x0D \<and> b = CHR 0x0A then Some 0 else map_option Suc (find_crlf (b # rest)))"
| "find_crlf _ = None"

lemma find_crlf_within: "find_crlf b = Some i \<Longrightarrow> i + 2 \<le> length b"
  by (induction b arbitrary: i rule: find_crlf.induct) (auto split: if_splits)

lemma find_crlf_append: "find_crlf b = Some i \<Longrightarrow> find_crlf (b @ c) = Some i"
  by (induction b arbitrary: i rule: find_crlf.induct) (auto split: if_splits)

lemma find_crlf_take:
  "find_crlf b = Some i \<Longrightarrow> take 2 (drop i b) = crlf \<and> find_crlf (take i b) = None"
proof (induction b arbitrary: i rule: find_crlf.induct)
  case (1 x y r)
  show ?case
  proof (cases "x = CHR 0x0D \<and> y = CHR 0x0A")
    case False
    with 1 obtain j where j: "i = Suc j" "find_crlf (y # r) = Some j" by auto
    with 1 False have IH: "take 2 (drop j (y # r)) = crlf" "find_crlf (take j (y # r)) = None"
      by auto
    show ?thesis
    proof (cases j)
      case (Suc k)
      with j IH False show ?thesis by auto
    qed (use j IH in \<open>auto simp: crlf_def\<close>)
  qed (use 1 in \<open>auto simp: crlf_def\<close>)
qed auto

text \<open>The first line end after a text that has none inside and no dangling carriage return.\<close>

lemma find_crlf_line: "find_crlf s = None \<Longrightarrow> find_crlf (s @ CHR 0x0D # CHR 0x0A # r) = Some (length s)"
  by (induction s rule: find_crlf.induct) (auto split: if_splits)

lemma find_crlf_no_cr: "CHR 0x0D \<notin> set s \<Longrightarrow> find_crlf s = None"
  by (induction s rule: find_crlf.induct) auto

lemma find_crlf_crlf: "find_crlf s = None \<Longrightarrow> find_crlf (s @ crlf @ r) = Some (length s)"
  by (simp add: crlf_def find_crlf_line)

lemma digits_no_cr: "list_all is_digit s \<Longrightarrow> CHR 0x0D \<notin> set s"
  by (auto simp: list_all_iff is_digit_def)

section \<open>Parsers of a byte stream\<close>

text \<open>
  The verdict on a buffer: nothing yet, a request with the number of bytes it takes, or a
  protocol error.
\<close>

datatype ('c, 'e) verdict = Partial | Item 'c nat | Bad 'e

text \<open>
  A reference consumer, part of the specification of a parser and not of the program: take requests
  off the front of the buffer while there are complete ones. The result is the requests, the bytes
  left, and the error that stopped it, if any. The event loops of the program handle one request per
  read instead.
\<close>

function drain :: "(bytes \<Rightarrow> ('c, 'e) verdict) \<Rightarrow> bytes \<Rightarrow> 'c list \<times> bytes \<times> 'e option" where
  "drain p b =
     (case p b of
        Partial \<Rightarrow> ([], b, None)
      | Bad e \<Rightarrow> ([], b, Some e)
      | Item c n \<Rightarrow>
          if n = 0 \<or> b = [] then ([], b, None)
          else (let (cs, r, e) = drain p (drop n b) in (c # cs, r, e)))"
  by pat_completeness auto
termination
  by (relation "measure (\<lambda>(p, b). length b)") auto

declare drain.simps [simp del]

text \<open>The reference consumer over a sequence of reads, each appended to what the last round left.\<close>

fun feed :: "(bytes \<Rightarrow> ('c, 'e) verdict) \<Rightarrow> bytes \<Rightarrow> bytes list \<Rightarrow> 'c list \<times> bytes \<times> 'e option" where
  "feed p r [] = ([], r, None)"
| "feed p r (chunk # chunks) =
     (case drain p (r @ chunk) of
        (cs, r', Some e) \<Rightarrow> (cs, r' @ concat chunks, Some e)
      | (cs, r', None) \<Rightarrow> (let (cs', r'', e) = feed p r' chunks in (cs @ cs', r'', e)))"

locale stream_parser =
  fixes p :: "bytes \<Rightarrow> ('c, 'e) verdict"
  assumes item_within: "p b = Item c n \<Longrightarrow> n \<le> length b"
    and item_stable: "p b = Item c n \<Longrightarrow> p (b @ x) = Item c n"
    and bad_stable: "p b = Bad e \<Longrightarrow> p (b @ x) = Bad e"
begin

lemma empty_no_progress: "p [] = Item c n \<Longrightarrow> n = 0"
  using item_within by fastforce

text \<open>More bytes after a buffer: what was taken off stays taken off.\<close>

lemma drain_append:
  "drain p (a @ b) =
     (case drain p a of
        (cs, r, Some e) \<Rightarrow> (cs, r @ b, Some e)
      | (cs, r, None) \<Rightarrow> (let (cs', r', e) = drain p (r @ b) in (cs @ cs', r', e)))"
proof (induction "length a" arbitrary: a rule: less_induct)
  case less
  show ?case
  proof (cases "p a")
    case Partial
    then show ?thesis by (simp add: drain.simps [of p a] split: prod.splits)
  next
    case (Bad e)
    then show ?thesis by (simp add: drain.simps [of p a] drain.simps [of p "a @ b"] bad_stable)
  next
    case (Item c n)
    show ?thesis
    proof (cases "n = 0 \<or> a = []")
      case True
      then show ?thesis using Item by (simp add: drain.simps [of p a] split: prod.splits)
    next
      case False
      have n: "n \<le> length a" by (rule item_within [OF Item])
      have "drain p (a @ b) = (let (cs, r, e) = drain p (drop n a @ b) in (c # cs, r, e))"
        using False n item_stable [OF Item, of b] by (subst drain.simps) simp
      also have "length (drop n a) < length a" using False n by simp
      note less.hyps [OF this]
      finally show ?thesis
        using False Item by (subst (2) drain.simps) (auto split: prod.splits option.splits)
    qed
  qed
qed

lemma drain_idle: "drain p a = (cs, r, None) \<Longrightarrow> drain p r = ([], r, None)"
proof (induction "length a" arbitrary: a cs rule: less_induct)
  case less
  show ?case
  proof (cases "p a")
    case (Item c n)
    show ?thesis
    proof (cases "n = 0 \<or> a = []")
      case False
      then have "length (drop n a) < length a" using item_within [OF Item] by simp
      moreover have "\<exists>cs'. drain p (drop n a) = (cs', r, None)"
        using less.prems False Item by (subst (asm) drain.simps) (auto split: prod.splits)
      ultimately show ?thesis using less.hyps by blast
    qed (use less.prems Item in \<open>auto simp: drain.simps [of p a] drain.simps [of p r] drain.simps [of p "[]"]\<close>)
  qed (use less.prems in \<open>auto simp: drain.simps [of p a] drain.simps [of p r]\<close>)
qed

text \<open>Fragmentation: the reads together give what one read of everything gives.\<close>

lemma feed_concat:
  "drain p r = ([], r, None) \<Longrightarrow> feed p r chunks = drain p (r @ concat chunks)"
proof (induction chunks arbitrary: r)
  case (Cons chunk chunks)
  obtain cs r' e where d: "drain p (r @ chunk) = (cs, r', e)" by (metis prod_cases3)
  show ?case
  proof (cases e)
    case None
    with d have "drain p r' = ([], r', None)" by (simp add: drain_idle)
    with Cons.IH d None drain_append [of "r @ chunk" "concat chunks"] show ?thesis by simp
  next
    case (Some err)
    with d drain_append [of "r @ chunk" "concat chunks"] show ?thesis by simp
  qed
qed simp

lemma fragmentation: "p [] = Partial \<Longrightarrow> feed p [] chunks = drain p (concat chunks)"
  using feed_concat [of "[]"] by (simp add: drain.simps)

text \<open>Before its last byte has arrived a request is not yet one, and not an error either.\<close>

lemma prefix_partial: "p (a @ b) = Item c n \<Longrightarrow> length a < n \<Longrightarrow> p a = Partial"
  using item_within item_stable bad_stable by (cases "p a") fastforce+

end

text \<open>
  A parser with the encoding it reads: every valid request is recognised at the front of a
  buffer that starts with its encoding.
\<close>

locale stream_codec = stream_parser p
  for p :: "bytes \<Rightarrow> ('c, 'e) verdict" +
  fixes enc :: "'c \<Rightarrow> bytes"
    and ok :: "'c \<Rightarrow> bool"
  assumes decode: "ok c \<Longrightarrow> p (enc c @ x) = Item c (length (enc c))"
    and enc_nonempty: "ok c \<Longrightarrow> enc c \<noteq> []"
    and empty_partial: "p [] = Partial"
begin

lemma drain_encoded: "list_all ok cs \<Longrightarrow> drain p (concat (map enc cs)) = (cs, [], None)"
proof (induction cs)
  case Nil
  then show ?case by (simp add: drain.simps empty_partial)
next
  case (Cons c cs)
  then have "ok c" by simp
  then show ?case
    using Cons decode [of c "concat (map enc cs)"] enc_nonempty [of c] by (subst drain.simps) auto
qed

text \<open>Pipelined requests, cut into reads in any way: all of them, in order, and nothing else.\<close>

lemma pipeline:
  assumes "list_all ok cs" "concat chunks = concat (map enc cs)"
  shows "feed p [] chunks = (cs, [], None)"
  using fragmentation [OF empty_partial, of chunks] drain_encoded [OF assms(1)] assms(2) by simp

lemma encoded_prefix_partial:
  assumes "ok c" "k < length (enc c)"
  shows "p (take k (enc c)) = Partial"
proof (rule prefix_partial)
  show "p (take k (enc c) @ drop k (enc c)) = Item c (length (enc c))"
    using decode [OF assms(1), of "[]"] by simp
qed (use assms(2) in simp)

end

end
