(* ===== verification/Memcached.thy ===== *)
theory Memcached
  imports Protocol_Base
begin

text \<open>
  The memcached text protocol, \<^verbatim>\<open>src/src/protocols/memcached/parser.rs\<close>: the commands, the parser
  of a command line, the parser of a storage command with its data block, and the responses.
  \<open>print_request\<close> is the client's side, which the repository does not have; the theory shows
  that the parser reads back every request a client can print, whatever follows it in the
  buffer, and that the parser satisfies the contract of \<^verbatim>\<open>Protocol_Base\<close>.
\<close>

section \<open>Commands and results\<close>

datatype mc_command =
    Get "bytes list"
  | Gets "bytes list"
  | Set bytes u32 u64 nat bool
  | Add bytes u32 u64 nat bool
  | Replace bytes u32 u64 nat bool
  | Append bytes u32 u64 nat bool
  | Prepend bytes u32 u64 nat bool
  | Cas bytes u32 u64 nat u64 bool
  | Delete bytes bool
  | Incr bytes u64 bool
  | Decr bytes u64 bool
  | FlushAll u64 bool
  | Stats
  | Version
  | Quit

datatype parse_error =
    Incomplete
  | InvalidCommand bytes
  | KeyTooLong bytes
  | InvalidNumber bytes
  | UnknownCommand bytes

datatype mc_result =
    Complete mc_command nat
  | NeedData nat nat
  | Error parse_error

definition max_key_length :: nat where
  "max_key_length = 250"

section \<open>The parser\<close>

fun collect_keys :: "bytes list \<Rightarrow> parse_error + bytes list" where
  "collect_keys [] = Inr []"
| "collect_keys (key # keys) =
     (if length key > max_key_length then Inl (KeyTooLong key)
      else (case collect_keys keys of Inl e \<Rightarrow> Inl e | Inr ks \<Rightarrow> Inr (key # ks)))"

definition parse_get :: "bytes list \<Rightarrow> bool \<Rightarrow> nat \<Rightarrow> mc_result" where
  "parse_get parts with_cas command_bytes =
     (if length parts < 2 then Error (InvalidCommand ''get requires at least one key'')
      else (case collect_keys (drop 1 parts) of
              Inl e \<Rightarrow> Error e
            | Inr keys \<Rightarrow> Complete (if with_cas then Gets keys else Get keys) command_bytes))"

definition parse_storage :: "bytes list \<Rightarrow> bytes \<Rightarrow> nat \<Rightarrow> mc_result" where
  "parse_storage parts cmd command_bytes =
     (if length parts < 5
      then Error (InvalidCommand (cmd @ '' requires key, flags, exptime, and bytes''))
      else if length (parts ! 1) > max_key_length then Error (KeyTooLong (parts ! 1))
      else if parse_u32 (parts ! 2) = None
      then Error (InvalidNumber (''Invalid flags: '' @ parts ! 2))
      else if parse_u64 (parts ! 3) = None
      then Error (InvalidNumber (''Invalid exptime: '' @ parts ! 3))
      else (case parse_usize (parts ! 4) of
              Some bytes \<Rightarrow> NeedData command_bytes bytes
            | None \<Rightarrow> Error (InvalidNumber (''Invalid bytes: '' @ parts ! 4))))"

definition parse_cas :: "bytes list \<Rightarrow> nat \<Rightarrow> mc_result" where
  "parse_cas parts command_bytes =
     (if length parts < 6
      then Error (InvalidCommand ''cas requires key, flags, exptime, bytes, and cas unique'')
      else if length (parts ! 1) > max_key_length then Error (KeyTooLong (parts ! 1))
      else (case parse_usize (parts ! 4) of
              Some bytes \<Rightarrow> NeedData command_bytes bytes
            | None \<Rightarrow> Error (InvalidNumber (''Invalid bytes: '' @ parts ! 4))))"

text \<open>\<^verbatim>\<open>parts.len() > i && parts[i].eq_ignore_ascii_case("noreply")\<close>\<close>

definition noreply_at :: "bytes list \<Rightarrow> nat \<Rightarrow> bool" where
  "noreply_at parts i = (length parts > i \<and> eq_ignore_ascii_case (parts ! i) ''noreply'')"

definition parse_delete :: "bytes list \<Rightarrow> nat \<Rightarrow> mc_result" where
  "parse_delete parts command_bytes =
     (if length parts < 2 then Error (InvalidCommand ''delete requires a key'')
      else if length (parts ! 1) > max_key_length then Error (KeyTooLong (parts ! 1))
      else Complete (Delete (parts ! 1) (noreply_at parts 2)) command_bytes)"

definition parse_incr_decr :: "bytes list \<Rightarrow> bool \<Rightarrow> nat \<Rightarrow> mc_result" where
  "parse_incr_decr parts is_incr command_bytes =
     (if length parts < 3
      then Error (InvalidCommand ((if is_incr then ''incr'' else ''decr'') @ '' requires key and value''))
      else if length (parts ! 1) > max_key_length then Error (KeyTooLong (parts ! 1))
      else (case parse_u64 (parts ! 2) of
              None \<Rightarrow> Error (InvalidNumber (''Invalid value: '' @ parts ! 2))
            | Some value \<Rightarrow>
                Complete ((if is_incr then Incr else Decr) (parts ! 1) value (noreply_at parts 3))
                  command_bytes))"

definition parse_flush_all :: "bytes list \<Rightarrow> nat \<Rightarrow> mc_result" where
  "parse_flush_all parts command_bytes =
     (let (delay, noreply) =
        (if length parts > 1
         then (if eq_ignore_ascii_case (parts ! 1) ''noreply'' then (0, True)
               else (case parse_u64 (parts ! 1) of Some n \<Rightarrow> n | None \<Rightarrow> 0, noreply_at parts 2))
         else (0, False))
      in Complete (FlushAll delay noreply) command_bytes)"

text \<open>
  The start of both parsers: the first line of the buffer, decoded and split, with the
  position of its end.
\<close>

definition command_line :: "bytes \<Rightarrow> parse_error + nat \<times> bytes list" where
  "command_line buffer =
     (case find_crlf buffer of
        None \<Rightarrow> Inl Incomplete
      | Some line_end \<Rightarrow>
          (case from_utf8 (take line_end buffer) of
             None \<Rightarrow> Inl (InvalidCommand ''Invalid UTF-8 in command'')
           | Some line \<Rightarrow>
               let parts = split_whitespace line in
               if parts = [] then Inl (InvalidCommand ''Empty command'')
               else Inr (line_end, parts)))"

definition mc_parse :: "unicode \<Rightarrow> bytes \<Rightarrow> mc_result" where
  "mc_parse U buffer =
     (case command_line buffer of
        Inl e \<Rightarrow> Error e
      | Inr (line_end, parts) \<Rightarrow>
          let command_name = to_lowercase U (parts ! 0);
              command_line_bytes = line_end + 2
          in if command_name = ''get'' then parse_get parts False command_line_bytes
             else if command_name = ''gets'' then parse_get parts True command_line_bytes
             else if command_name = ''set'' then parse_storage parts ''set'' command_line_bytes
             else if command_name = ''add'' then parse_storage parts ''add'' command_line_bytes
             else if command_name = ''replace'' then parse_storage parts ''replace'' command_line_bytes
             else if command_name = ''append'' then parse_storage parts ''append'' command_line_bytes
             else if command_name = ''prepend'' then parse_storage parts ''prepend'' command_line_bytes
             else if command_name = ''cas'' then parse_cas parts command_line_bytes
             else if command_name = ''delete'' then parse_delete parts command_line_bytes
             else if command_name = ''incr'' then parse_incr_decr parts True command_line_bytes
             else if command_name = ''decr'' then parse_incr_decr parts False command_line_bytes
             else if command_name = ''flush_all'' then parse_flush_all parts command_line_bytes
             else if command_name = ''stats'' then Complete Stats command_line_bytes
             else if command_name = ''version'' then Complete Version command_line_bytes
             else if command_name = ''quit'' then Complete Quit command_line_bytes
             else Error (UnknownCommand command_name))"

text \<open>The size of the data block, and whether the command is \<^verbatim>\<open>cas\<close>.\<close>

definition data_size :: "bytes \<Rightarrow> bytes list \<Rightarrow> parse_error + nat \<times> bool" where
  "data_size command_name parts =
     (if command_name \<in> {''set'', ''add'', ''replace'', ''append'', ''prepend''}
      then (if length parts < 5 then Inl (InvalidCommand ''Storage command missing parameters'')
            else (case parse_usize (parts ! 4) of
                    Some b \<Rightarrow> Inr (b, False) | None \<Rightarrow> Inl (InvalidNumber ''Invalid bytes'')))
      else if command_name = ''cas''
      then (if length parts < 6 then Inl (InvalidCommand ''cas command missing parameters'')
            else (case parse_usize (parts ! 4) of
                    Some b \<Rightarrow> Inr (b, True) | None \<Rightarrow> Inl (InvalidNumber ''Invalid bytes'')))
      else Inl (InvalidCommand ''Not a storage command''))"

definition build_command :: "bytes \<Rightarrow> bytes list \<Rightarrow> nat \<Rightarrow> bool \<Rightarrow> mc_command" where
  "build_command command_name parts data_bytes is_cas =
     (let key = parts ! 1;
          flags = (case parse_u32 (parts ! 2) of Some f \<Rightarrow> f | None \<Rightarrow> 0);
          exptime = (case parse_u64 (parts ! 3) of Some e \<Rightarrow> e | None \<Rightarrow> 0);
          noreply = (if is_cas then noreply_at parts 6 else noreply_at parts 5)
      in if command_name = ''set'' then Set key flags exptime data_bytes noreply
         else if command_name = ''add'' then Add key flags exptime data_bytes noreply
         else if command_name = ''replace'' then Replace key flags exptime data_bytes noreply
         else if command_name = ''append'' then Append key flags exptime data_bytes noreply
         else if command_name = ''prepend'' then Prepend key flags exptime data_bytes noreply
         else Cas key flags exptime data_bytes
                (case parse_u64 (parts ! 5) of Some c \<Rightarrow> c | None \<Rightarrow> 0) noreply)"

text \<open>
  The sums of lengths wrap in a release build, and the look at the terminator is bounds-checked:
  a size near \<^verbatim>\<open>usize::MAX\<close> makes it panic.
\<close>

definition parse_with_data :: "unicode \<Rightarrow> bytes \<Rightarrow> mc_result outcome" where
  "parse_with_data U buffer =
     (case command_line buffer of
        Inl e \<Rightarrow> Returned (Error e)
      | Inr (line_end, parts) \<Rightarrow>
          let command_name = to_lowercase U (parts ! 0);
              command_line_bytes = line_end + 2
          in (case data_size command_name parts of
                Inl e \<Rightarrow> Returned (Error e)
              | Inr (data_bytes, is_cas) \<Rightarrow>
                  let data_end = uadd command_line_bytes data_bytes;
                      total_needed = uadd data_end 2;
                      bad = Returned (Error (InvalidCommand
                        (''Data block must end with '' @ [CHR 0x5C, CHR ''r'', CHR 0x5C, CHR ''n''])))
                  in if length buffer < total_needed then Returned (Error Incomplete)
                     else if data_end \<ge> length buffer then Panicked
                     else if buffer ! data_end \<noteq> CHR 0x0D then bad
                     else if uadd data_end 1 \<ge> length buffer then Panicked
                     else if buffer ! uadd data_end 1 \<noteq> CHR 0x0A then bad
                     else if length (parts ! 1) > max_key_length
                     then Returned (Error (KeyTooLong (parts ! 1)))
                     else Returned (Complete (build_command command_name parts data_bytes is_cas)
                                      total_needed)))"

definition extract_data :: "bytes \<Rightarrow> nat \<Rightarrow> nat \<Rightarrow> bytes option outcome" where
  "extract_data buffer command_bytes data_bytes =
     (let total = uadd (uadd command_bytes data_bytes) 2 in
      if length buffer < total then Returned None
      else (case slice command_bytes (uadd command_bytes data_bytes) buffer of
              Returned d \<Rightarrow> Returned (Some d)
            | Panicked \<Rightarrow> Panicked))"

section \<open>Responses\<close>

definition response_value :: "bytes \<Rightarrow> u32 \<Rightarrow> bytes \<Rightarrow> u64 option \<Rightarrow> bytes" where
  "response_value key flags data cas_token =
     (case cas_token of
        Some cas_unique \<Rightarrow>
          ''VALUE '' @ key @ '' '' @ show_nat (unat flags) @ '' '' @ show_nat (length data) @ '' ''
            @ show_nat (unat cas_unique) @ crlf
      | None \<Rightarrow>
          ''VALUE '' @ key @ '' '' @ show_nat (unat flags) @ '' '' @ show_nat (length data) @ crlf)
     @ data @ crlf"

definition response_end :: bytes where "response_end = ''END'' @ crlf"
definition response_stored :: bytes where "response_stored = ''STORED'' @ crlf"
definition response_not_stored :: bytes where "response_not_stored = ''NOT_STORED'' @ crlf"
definition response_exists :: bytes where "response_exists = ''EXISTS'' @ crlf"
definition response_not_found :: bytes where "response_not_found = ''NOT_FOUND'' @ crlf"
definition response_deleted :: bytes where "response_deleted = ''DELETED'' @ crlf"
definition response_ok :: bytes where "response_ok = ''OK'' @ crlf"
definition response_error :: bytes where "response_error = ''ERROR'' @ crlf"

definition response_client_error :: "bytes \<Rightarrow> bytes" where
  "response_client_error msg = ''CLIENT_ERROR '' @ msg @ crlf"

definition response_server_error :: "bytes \<Rightarrow> bytes" where
  "response_server_error msg = ''SERVER_ERROR '' @ msg @ crlf"

definition response_version :: bytes where
  "response_version = ''VERSION grow-a-cache 0.1.0'' @ crlf"

definition response_numeric :: "u64 \<Rightarrow> bytes" where
  "response_numeric value = show_nat (unat value) @ crlf"

definition response_stat :: "bytes \<Rightarrow> bytes \<Rightarrow> bytes" where
  "response_stat name value = ''STAT '' @ name @ '' '' @ value @ crlf"

lemmas response_defs = response_value_def response_end_def response_stored_def
  response_not_stored_def response_exists_def response_not_found_def response_deleted_def
  response_ok_def response_error_def response_client_error_def response_server_error_def
  response_version_def response_numeric_def response_stat_def crlf_def

lemmas [rust_eval] = max_key_length_def parse_get_def parse_storage_def parse_cas_def noreply_at_def
  parse_delete_def parse_incr_decr_def parse_flush_all_def command_line_def mc_parse_def
  data_size_def build_command_def parse_with_data_def extract_data_def uadd_def slice_def

section \<open>Stability under later bytes\<close>

lemma command_line_append:
  "command_line b = Inr x \<Longrightarrow> command_line (b @ c) = Inr x"
  "command_line b = Inl e \<Longrightarrow> e \<noteq> Incomplete \<Longrightarrow> command_line (b @ c) = Inl e"
  by (auto simp: command_line_def find_crlf_append dest: find_crlf_within split: option.splits)

lemma command_line_within: "command_line b = Inr (e, parts) \<Longrightarrow> e + 2 \<le> length b \<and> parts \<noteq> []"
  by (auto simp: command_line_def Let_def dest: find_crlf_within split: option.splits if_splits)

lemma command_line_Incomplete: "command_line b = Inl Incomplete \<longleftrightarrow> find_crlf b = None"
  by (auto simp: command_line_def Let_def split: option.splits)

lemma mc_parse_line:
  "command_line b = Inr (e, parts) \<Longrightarrow> command_line b' = Inr (e, parts) \<Longrightarrow> mc_parse U b = mc_parse U b'"
  by (simp add: mc_parse_def)

lemma mc_parse_append:
  assumes "mc_parse U b \<noteq> Error Incomplete"
  shows "mc_parse U (b @ c) = mc_parse U b"
proof (cases "command_line b")
  case (Inl e)
  with assms have "e \<noteq> Incomplete" by (auto simp: mc_parse_def)
  with Inl command_line_append(2) [OF Inl, of c] show ?thesis by (simp add: mc_parse_def)
next
  case (Inr x)
  then obtain e parts where x: "command_line b = Inr (e, parts)" by (metis surj_pair)
  with command_line_append(1) [OF x, of c] show ?thesis by (metis mc_parse_line)
qed

lemma parse_get_result: "parse_get parts w n = Complete c m \<Longrightarrow> m = n" "parse_get parts w n \<noteq> NeedData x y"
  by (auto simp: parse_get_def split: if_splits sum.splits)

lemma parse_storage_result:
  "parse_storage parts cmd n \<noteq> Complete c m"
  "parse_storage parts cmd n = NeedData x y \<longleftrightarrow>
     5 \<le> length parts \<and> length (parts ! 1) \<le> max_key_length \<and> parse_u32 (parts ! 2) \<noteq> None \<and>
     parse_u64 (parts ! 3) \<noteq> None \<and> parse_usize (parts ! 4) = Some y \<and> x = n"
  by (auto simp: parse_storage_def split: option.splits)

lemma parse_cas_result:
  "parse_cas parts n \<noteq> Complete c m"
  "parse_cas parts n = NeedData x y \<longleftrightarrow>
     6 \<le> length parts \<and> length (parts ! 1) \<le> max_key_length \<and> parse_usize (parts ! 4) = Some y \<and> x = n"
  by (auto simp: parse_cas_def split: option.splits)

lemma parse_other_result:
  "parse_delete parts n = Complete c m \<Longrightarrow> m = n" "parse_delete parts n \<noteq> NeedData x y"
  "parse_incr_decr parts i n = Complete c m \<Longrightarrow> m = n" "parse_incr_decr parts i n \<noteq> NeedData x y"
  "parse_flush_all parts n = Complete c m \<Longrightarrow> m = n" "parse_flush_all parts n \<noteq> NeedData x y"
  by (auto simp: parse_delete_def parse_incr_decr_def parse_flush_all_def Let_def
      split: if_splits option.splits)

lemmas parse_results = parse_get_result parse_storage_result parse_cas_result parse_other_result

lemma mc_parse_Complete_within:
  assumes "mc_parse U b = Complete c n"
  shows "2 \<le> n \<and> n \<le> length b"
proof -
  obtain e parts where l: "command_line b = Inr (e, parts)"
    using assms by (auto simp: mc_parse_def split: sum.splits)
  with assms have "n = e + 2"
    by (auto simp: mc_parse_def Let_def parse_results split: if_splits)
  with command_line_within [OF l] show ?thesis by simp
qed

lemma mc_parse_NeedDataE:
  assumes "mc_parse U b = NeedData cb db"
  obtains e parts where "command_line b = Inr (e, parts)" "cb = e + 2"
    "data_size (to_lowercase U (parts ! 0)) parts = Inr (db, to_lowercase U (parts ! 0) = ''cas'')"
    "length (parts ! 1) \<le> max_key_length"
proof -
  obtain e parts where l: "command_line b = Inr (e, parts)"
    using assms by (auto simp: mc_parse_def split: sum.splits)
  with assms that [OF l] show ?thesis
    by (auto simp: mc_parse_def Let_def parse_results data_size_def split: if_splits)
qed

section \<open>The request at the front of a buffer\<close>

text \<open>
  What a connection's buffer holds next, with lengths added as natural numbers: a command, with
  its data block when it has one. A block whose terminator is wrong is never a request, and the
  parser reports nothing for it.
\<close>

datatype mc_failure = Syntax parse_error | TooLarge nat

definition mc_command_of :: "unicode \<Rightarrow> bytes \<Rightarrow> nat \<Rightarrow> mc_command" where
  "mc_command_of U b db =
     (case command_line b of
        Inr (e, parts) \<Rightarrow>
          build_command (to_lowercase U (parts ! 0)) parts db (to_lowercase U (parts ! 0) = ''cas'')
      | Inl _ \<Rightarrow> Quit)"

definition mc_next :: "unicode \<Rightarrow> nat \<Rightarrow> bytes \<Rightarrow> (mc_command \<times> bytes, mc_failure) verdict" where
  "mc_next U limit b =
     (case mc_parse U b of
        Complete c n \<Rightarrow> Item (c, []) n
      | NeedData cb db \<Rightarrow>
          if db > limit then Bad (TooLarge cb)
          else if length b < cb + db + 2 then Partial
          else if take 2 (drop (cb + db) b) = crlf
          then Item (mc_command_of U b db, take db (drop cb b)) (cb + db + 2)
          else Partial
      | Error e \<Rightarrow> if e = Incomplete then Partial else Bad (Syntax e))"

lemma mc_command_of_append:
  "mc_parse U b = NeedData cb db \<Longrightarrow> mc_command_of U (b @ c) db' = mc_command_of U b db'"
  by (erule mc_parse_NeedDataE) (auto simp: mc_command_of_def command_line_append)

interpretation memcached: stream_parser "mc_next U limit" for U limit
proof
  fix b :: bytes and c n
  assume i: "mc_next U limit b = Item c n"
  then show "n \<le> length b"
    by (auto simp: mc_next_def dest: mc_parse_Complete_within split: mc_result.splits if_splits)
next
  fix b x :: bytes and c n
  assume i: "mc_next U limit b = Item c n"
  then have "mc_parse U b \<noteq> Error Incomplete" by (auto simp: mc_next_def)
  note same = mc_parse_append [OF this, of x]
  show "mc_next U limit (b @ x) = Item c n"
  proof (cases "mc_parse U b")
    case (NeedData cb db)
    with i have "cb + db + 2 \<le> length b" by (auto simp: mc_next_def split: if_splits)
    with i NeedData same mc_command_of_append [OF NeedData, of x] show ?thesis
      by (simp add: mc_next_def split: if_splits)
  qed (use i same in \<open>auto simp: mc_next_def split: if_splits\<close>)
next
  fix b x :: bytes and e
  assume i: "mc_next U limit b = Bad e"
  then have "mc_parse U b \<noteq> Error Incomplete" by (auto simp: mc_next_def)
  with i mc_parse_append [OF this, of x] show "mc_next U limit (b @ x) = Bad e"
    by (cases "mc_parse U b") (auto simp: mc_next_def split: if_splits)
qed

text \<open>What the machine code of \<^verbatim>\<open>parse_with_data\<close> computes when the lengths do not wrap.\<close>

lemma take_2_crlf:
  "i + 2 \<le> length b \<Longrightarrow> take 2 (drop i b) = crlf \<longleftrightarrow> b ! i = CHR 0x0D \<and> b ! Suc i = CHR 0x0A"
proof -
  assume "i + 2 \<le> length b"
  then have "take 2 (drop i b) = [b ! i, b ! Suc i]"
    by (simp add: take_Suc_conv_app_nth numeral_2_eq_2)
  then show ?thesis by (simp add: crlf_def)
qed

lemma parse_with_data_spec:
  assumes "mc_parse U b = NeedData cb db" "cb + db + 2 < 2 ^ 64" "cb + db + 2 \<le> length b"
  shows "parse_with_data U b = Returned
    (if take 2 (drop (cb + db) b) = crlf then Complete (mc_command_of U b db) (cb + db + 2)
     else Error (InvalidCommand
            (''Data block must end with '' @ [CHR 0x5C, CHR ''r'', CHR 0x5C, CHR ''n''])))"
proof -
  obtain e parts where l: "command_line b = Inr (e, parts)" "cb = e + 2"
    "data_size (to_lowercase U (parts ! 0)) parts = Inr (db, to_lowercase U (parts ! 0) = ''cas'')"
    "length (parts ! 1) \<le> max_key_length"
    by (rule mc_parse_NeedDataE [OF assms(1)])
  have "uadd (e + 2) db = cb + db" "uadd (cb + db) 2 = cb + db + 2" "uadd (cb + db) 1 = Suc (cb + db)"
    using assms(2) l(2) by (simp_all add: uadd_no_wrap)
  with l assms(3) take_2_crlf [OF assms(3)] show ?thesis
    by (simp add: parse_with_data_def Let_def mc_command_of_def)
qed

section \<open>Printing and reading requests\<close>

definition noreply_word :: "bool \<Rightarrow> bytes list" where
  "noreply_word b = (if b then [''noreply''] else [])"

fun print_words :: "mc_command \<Rightarrow> bytes list" where
  "print_words (Get ks) = ''get'' # ks"
| "print_words (Gets ks) = ''gets'' # ks"
| "print_words (Set k f e n r) =
     [''set'', k, show_nat (unat f), show_nat (unat e), show_nat n] @ noreply_word r"
| "print_words (Add k f e n r) =
     [''add'', k, show_nat (unat f), show_nat (unat e), show_nat n] @ noreply_word r"
| "print_words (Replace k f e n r) =
     [''replace'', k, show_nat (unat f), show_nat (unat e), show_nat n] @ noreply_word r"
| "print_words (Append k f e n r) =
     [''append'', k, show_nat (unat f), show_nat (unat e), show_nat n] @ noreply_word r"
| "print_words (Prepend k f e n r) =
     [''prepend'', k, show_nat (unat f), show_nat (unat e), show_nat n] @ noreply_word r"
| "print_words (Cas k f e n c r) =
     [''cas'', k, show_nat (unat f), show_nat (unat e), show_nat n, show_nat (unat c)] @ noreply_word r"
| "print_words (Delete k r) = [''delete'', k] @ noreply_word r"
| "print_words (Incr k v r) = [''incr'', k, show_nat (unat v)] @ noreply_word r"
| "print_words (Decr k v r) = [''decr'', k, show_nat (unat v)] @ noreply_word r"
| "print_words (FlushAll t r) = [''flush_all'', show_nat (unat t)] @ noreply_word r"
| "print_words Stats = [''stats'']"
| "print_words Version = [''version'']"
| "print_words Quit = [''quit'']"

fun data_length :: "mc_command \<Rightarrow> nat option" where
  "data_length (Set k f e n r) = Some n"
| "data_length (Add k f e n r) = Some n"
| "data_length (Replace k f e n r) = Some n"
| "data_length (Append k f e n r) = Some n"
| "data_length (Prepend k f e n r) = Some n"
| "data_length (Cas k f e n c r) = Some n"
| "data_length _ = None"

definition print_line :: "mc_command \<Rightarrow> bytes" where
  "print_line c = unwords (print_words c) @ crlf"

definition print_request :: "mc_command \<Rightarrow> bytes \<Rightarrow> bytes" where
  "print_request c d = print_line c @ (if data_length c = None then [] else d @ crlf)"

definition key_ok :: "bytes \<Rightarrow> bool" where
  "key_ok k = (is_word k \<and> length k \<le> max_key_length)"

fun keys_of :: "mc_command \<Rightarrow> bytes list" where
  "keys_of (Get ks) = ks"
| "keys_of (Gets ks) = ks"
| "keys_of (Set k f e n r) = [k]"
| "keys_of (Add k f e n r) = [k]"
| "keys_of (Replace k f e n r) = [k]"
| "keys_of (Append k f e n r) = [k]"
| "keys_of (Prepend k f e n r) = [k]"
| "keys_of (Cas k f e n c r) = [k]"
| "keys_of (Delete k r) = [k]"
| "keys_of (Incr k v r) = [k]"
| "keys_of (Decr k v r) = [k]"
| "keys_of (FlushAll t r) = []"
| "keys_of Stats = []"
| "keys_of Version = []"
| "keys_of Quit = []"

definition request_ok :: "nat \<Rightarrow> mc_command \<Rightarrow> bytes \<Rightarrow> bool" where
  "request_ok limit c d =
     (list_all key_ok (keys_of c) \<and> c \<noteq> Get [] \<and> c \<noteq> Gets [] \<and>
      (case data_length c of
         None \<Rightarrow> d = []
       | Some n \<Rightarrow> n = length d \<and> n \<le> limit \<and> n \<le> usize_max))"

lemma lowercase_names [simp]:
  "to_lowercase U ''get'' = ''get''" "to_lowercase U ''gets'' = ''gets''"
  "to_lowercase U ''set'' = ''set''" "to_lowercase U ''add'' = ''add''"
  "to_lowercase U ''replace'' = ''replace''" "to_lowercase U ''append'' = ''append''"
  "to_lowercase U ''prepend'' = ''prepend''" "to_lowercase U ''cas'' = ''cas''"
  "to_lowercase U ''delete'' = ''delete''" "to_lowercase U ''incr'' = ''incr''"
  "to_lowercase U ''decr'' = ''decr''" "to_lowercase U ''flush_all'' = ''flush_all''"
  "to_lowercase U ''stats'' = ''stats''" "to_lowercase U ''version'' = ''version''"
  "to_lowercase U ''quit'' = ''quit''"
  by (simp_all add: to_lowercase_def is_ascii_def ascii_lower_def)

lemma is_word_names [simp]:
  "is_word ''get''" "is_word ''gets''" "is_word ''set''" "is_word ''add''" "is_word ''replace''"
  "is_word ''append''" "is_word ''prepend''" "is_word ''cas''" "is_word ''delete''" "is_word ''incr''"
  "is_word ''decr''" "is_word ''flush_all''" "is_word ''stats''" "is_word ''version''"
  "is_word ''quit''" "is_word ''noreply''"
  by (rule ascii_word; simp)+

lemma print_words_are_words: "list_all key_ok (keys_of c) \<Longrightarrow> list_all is_word (print_words c)"
  by (cases c) (auto simp: key_ok_def noreply_word_def list_all_iff)

lemma command_line_print:
  assumes "list_all is_word ws" "ws \<noteq> []"
  shows "command_line (unwords ws @ crlf @ r) = Inr (length (unwords ws), ws)"
proof -
  have "find_crlf (unwords ws @ crlf @ r) = Some (length (unwords ws))"
    by (intro find_crlf_crlf find_crlf_no_cr unwords_no_cr assms)
  with assms show ?thesis
    by (simp add: command_line_def from_utf8_unwords split_whitespace_unwords Let_def)
qed

lemma collect_keys_ok: "list_all key_ok ks \<Longrightarrow> collect_keys ks = Inr ks"
  by (induction ks) (auto simp: key_ok_def)

lemma length_print_line: "length (print_line c) = length (unwords (print_words c)) + 2"
  by (simp add: print_line_def)

text \<open>No decimal number is the word \<^verbatim>\<open>noreply\<close>.\<close>

lemma show_nat_not_noreply: "\<not> eq_ignore_ascii_case (show_nat n) ''noreply''"
proof
  assume e: "eq_ignore_ascii_case (show_nat n) ''noreply''"
  obtain c r where c: "show_nat n = c # r" by (cases "show_nat n") auto
  with show_nat_all_digits [of n] have "is_digit c" by simp
  with e c show False by (auto simp: eq_ignore_ascii_case_def ascii_lower_def is_digit_def)
qed

lemma parse_printed_line:
  assumes "request_ok limit c d"
  shows "mc_parse U (print_line c @ r) =
    (case data_length c of
       None \<Rightarrow> Complete c (length (print_line c))
     | Some n \<Rightarrow> NeedData (length (print_line c)) n)"
proof -
  have keys: "list_all key_ok (keys_of c)" using assms by (simp add: request_ok_def)
  have "print_words c \<noteq> []" by (cases c) auto
  then have l: "command_line (print_line c @ r) = Inr (length (unwords (print_words c)), print_words c)"
    using command_line_print [OF print_words_are_words [OF keys], of r] by (simp add: print_line_def)
  show ?thesis
    unfolding mc_parse_def l length_print_line
    using assms keys
    by (cases c)
      (auto simp: request_ok_def parse_get_def collect_keys_ok parse_storage_def parse_cas_def
        parse_delete_def parse_incr_decr_def parse_flush_all_def noreply_at_def noreply_word_def
        key_ok_def parse_u32_show_nat parse_u64_show_nat parse_usize_show_nat show_nat_not_noreply
        neq_Nil_conv not_less)
qed

lemma command_of_printed:
  assumes "request_ok limit c d" "data_length c = Some n"
  shows "mc_command_of U (print_line c @ r) n = c"
proof -
  have keys: "list_all key_ok (keys_of c)" using assms by (simp add: request_ok_def)
  have "print_words c \<noteq> []" by (cases c) auto
  then have l: "command_line (print_line c @ r) = Inr (length (unwords (print_words c)), print_words c)"
    using command_line_print [OF print_words_are_words [OF keys], of r] by (simp add: print_line_def)
  show ?thesis
    unfolding mc_command_of_def l
    using assms
    by (cases c)
      (auto simp: build_command_def noreply_at_def noreply_word_def parse_u32_show_nat parse_u64_show_nat)
qed

lemma print_request_nonempty [simp]: "print_request c d \<noteq> []"
  by (simp add: print_request_def print_line_def crlf_def)

lemma mc_next_print:
  assumes "request_ok limit c d"
  shows "mc_next U limit (print_request c d @ rest) = Item (c, d) (length (print_request c d))"
proof (cases "data_length c")
  case None
  with assms parse_printed_line [OF assms, of U rest] show ?thesis
    by (simp add: mc_next_def print_request_def request_ok_def)
next
  case (Some n)
  with assms have n: "n = length d" "n \<le> limit" by (auto simp: request_ok_def)
  have b: "print_request c d @ rest = print_line c @ d @ crlf @ rest"
    using Some by (simp add: print_request_def)
  have len: "length (print_request c d) = length (print_line c) + n + 2"
    using Some n by (simp add: print_request_def)
  show ?thesis
    unfolding b len
    using Some n parse_printed_line [OF assms, of U "d @ crlf @ rest"]
      command_of_printed [OF assms Some, of U "d @ crlf @ rest"]
    by (simp add: mc_next_def)
qed

interpretation memcached: stream_codec "mc_next U limit" "\<lambda>(c, d). print_request c d"
  "\<lambda>(c, d). request_ok limit c d" for U limit
proof
  fix c x
  assume "(case c of (c, d) \<Rightarrow> request_ok limit c d)"
  then show "mc_next U limit ((case c of (c, d) \<Rightarrow> print_request c d) @ x)
      = Item c (length (case c of (c, d) \<Rightarrow> print_request c d))"
    by (cases c) (simp add: mc_next_print)
qed (auto simp: mc_next_def mc_parse_def command_line_def)

text \<open>
  C17. The memcached parser reads back what a client prints: for every command whose keys are
  words of at most 250 bytes, whose announced size is the size of its data block and within
  the limit, the printed request is recognised whole, with its data, whatever follows it; and
  before its last byte has arrived it is neither a request nor an error.
\<close>

theorem memcached_roundtrip:
  assumes "request_ok limit c d"
  shows "mc_next U limit (print_request c d @ rest) = Item (c, d) (length (print_request c d))
    \<and> (\<forall>k<length (print_request c d). mc_next U limit (take k (print_request c d)) = Partial)"
  using assms mc_next_print memcached.encoded_prefix_partial [of limit "(c, d)"] by simp

theorem memcached_roundtrip_witness:
  "mc_next \<lparr>uni_lower = id, uni_upper = id\<rparr> 1024
     (print_request (Set ''k'' 1 60 5 False) ''hello'' @ ''get k'')
   = Item (Set ''k'' 1 60 5 False, ''hello'') (length (print_request (Set ''k'' 1 60 5 False) ''hello''))"
proof -
  have "request_ok 1024 (Set ''k'' 1 60 5 False) ''hello''"
    using ascii_word [of "''k''"]
    by (simp add: request_ok_def key_ok_def max_key_length_def usize_max_def)
  then show ?thesis using memcached_roundtrip by blast
qed

text \<open>
  The parser would allow pipelining: for a consumer that goes on as long as there is a complete
  request, a client's requests, with their data blocks and cut into reads at arbitrary positions, are
  recognised all, in order, with nothing left over. The event loops are not such consumers, they
  serve one request per read.
\<close>

lemma memcached_pipeline:
  assumes "list_all (\<lambda>(c, d). request_ok limit c d) requests"
    "concat reads = concat (map (\<lambda>(c, d). print_request c d) requests)"
  shows "feed (mc_next U limit) [] reads = (requests, [], None)"
  using assms by (rule memcached.pipeline)

text \<open>
  A data block with a wrong terminator is never resolved: once the announced block and two
  more bytes are in the buffer and those two are not a line end, the verdict stays \<^verbatim>\<open>Partial\<close>
  whatever the client sends afterwards.
\<close>

lemma bad_terminator_never_resolved:
  assumes "mc_parse U b = NeedData cb db" "db \<le> limit" "cb + db + 2 \<le> length b"
    "take 2 (drop (cb + db) b) \<noteq> crlf"
  shows "mc_next U limit (b @ later) = Partial"
  using assms mc_parse_append [of U b later] by (simp add: mc_next_def)

end
