(* ===== verification/Resp.thy ===== *)
theory Resp
  imports Protocol_Base
begin

text \<open>
  The Redis protocol, \<^verbatim>\<open>src/src/protocols/resp/parser.rs\<close>: frames, their encoding, and the
  recursive parser. The parser reserves the vector of an array's elements from the announced
  length before it reads them, which panics when the size exceeds \<^verbatim>\<open>isize::MAX\<close>; the size of a
  \<^verbatim>\<open>Frame\<close> in memory, which the compiler chooses, is the parameter \<open>fsz\<close>. The sums of lengths in
  \<^verbatim>\<open>parse_bulk_string\<close> are of a slice length and an \<^verbatim>\<open>i64\<close>, so they stay within \<^verbatim>\<open>usize\<close>.

  The theory shows that the parser inverts the encoding with any bytes after it, answers
  \<^verbatim>\<open>Incomplete\<close> on every proper prefix of an encoded frame, never reads past the buffer, and
  satisfies the contract of \<^verbatim>\<open>Protocol_Base\<close>.
\<close>

section \<open>Frames\<close>

datatype frame =
    Simple bytes
  | ErrorF bytes
  | Integer int
  | Bulk "bytes option"
  | Array "frame list option"

fun encode :: "frame \<Rightarrow> bytes" where
  "encode (Simple s) = ''+'' @ s @ crlf"
| "encode (ErrorF s) = ''-'' @ s @ crlf"
| "encode (Integer n) = '':'' @ show_int n @ crlf"
| "encode (Bulk None) = ''$-1'' @ crlf"
| "encode (Bulk (Some data)) = ''$'' @ show_nat (length data) @ crlf @ data @ crlf"
| "encode (Array None) = ''*-1'' @ crlf"
| "encode (Array (Some frames)) =
     ''*'' @ show_nat (length frames) @ crlf @ concat (map encode frames)"

datatype resp_result =
    RespComplete frame nat
  | RespIncomplete
  | RespError bytes
  | RespPanic

section \<open>The parser\<close>

text \<open>\<^verbatim>\<open>buffer[0] as char\<close> in a formatted string: the code point as UTF-8.\<close>

definition latin1_utf8 :: "byte \<Rightarrow> bytes" where
  "latin1_utf8 c =
     (if (of_char c :: nat) < 128 then [c]
      else [char_of (192 + (of_char c :: nat) div 64), char_of (128 + (of_char c :: nat) mod 64)])"

definition parse_simple_string :: "bytes \<Rightarrow> resp_result" where
  "parse_simple_string buffer =
     (case find_crlf buffer of
        Some e \<Rightarrow>
          (case from_utf8 (take (e - 1) (drop 1 buffer)) of
             Some s \<Rightarrow> RespComplete (Simple s) (e + 2)
           | None \<Rightarrow> RespError ''Invalid UTF-8 in simple string'')
      | None \<Rightarrow> RespIncomplete)"

definition parse_error_string :: "bytes \<Rightarrow> resp_result" where
  "parse_error_string buffer =
     (case find_crlf buffer of
        Some e \<Rightarrow>
          (case from_utf8 (take (e - 1) (drop 1 buffer)) of
             Some s \<Rightarrow> RespComplete (ErrorF s) (e + 2)
           | None \<Rightarrow> RespError ''Invalid UTF-8 in error'')
      | None \<Rightarrow> RespIncomplete)"

definition parse_integer :: "bytes \<Rightarrow> resp_result" where
  "parse_integer buffer =
     (case find_crlf buffer of
        Some e \<Rightarrow>
          (case from_utf8 (take (e - 1) (drop 1 buffer)) of
             Some s \<Rightarrow>
               (case parse_i64 s of
                  Some n \<Rightarrow> RespComplete (Integer n) (e + 2)
                | None \<Rightarrow> RespError (''Invalid integer: '' @ s))
           | None \<Rightarrow> RespError ''Invalid UTF-8 in integer'')
      | None \<Rightarrow> RespIncomplete)"

definition parse_bulk_string :: "bytes \<Rightarrow> resp_result" where
  "parse_bulk_string buffer =
     (case find_crlf buffer of
        Some len_end \<Rightarrow>
          (case from_utf8 (take (len_end - 1) (drop 1 buffer)) of
             None \<Rightarrow> RespError ''Invalid UTF-8 in bulk string length''
           | Some len_str \<Rightarrow>
               (case parse_i64 len_str of
                  None \<Rightarrow> RespError (''Invalid bulk string length: '' @ len_str)
                | Some len \<Rightarrow>
                    if len < 0 then RespComplete (Bulk None) (len_end + 2)
                    else let data_start = len_end + 2;
                             data_end = data_start + nat len;
                             total_len = data_end + 2
                         in if length buffer < total_len then RespIncomplete
                            else if buffer ! data_end \<noteq> CHR 0x0D \<or> buffer ! (data_end + 1) \<noteq> CHR 0x0A
                            then RespError ''Bulk string missing trailing CRLF''
                            else RespComplete (Bulk (Some (take (nat len) (drop data_start buffer))))
                                   total_len))
      | None \<Rightarrow> RespIncomplete)"

text \<open>
  The parser and the loop over the elements of an array: \<open>parse_elements fsz n b offset frames\<close>
  reads \<open>n\<close> more. The remaining input shrinks with every nested call, and the count with every
  round of the loop.
\<close>

function resp_parse :: "nat \<Rightarrow> bytes \<Rightarrow> resp_result"
  and parse_array :: "nat \<Rightarrow> bytes \<Rightarrow> resp_result"
  and parse_elements :: "nat \<Rightarrow> nat \<Rightarrow> bytes \<Rightarrow> nat \<Rightarrow> frame list \<Rightarrow> resp_result" where
  "resp_parse fsz buffer =
     (if buffer = [] then RespIncomplete
      else if hd buffer = CHR ''+'' then parse_simple_string buffer
      else if hd buffer = CHR ''-'' then parse_error_string buffer
      else if hd buffer = CHR '':'' then parse_integer buffer
      else if hd buffer = CHR ''$'' then parse_bulk_string buffer
      else if hd buffer = CHR ''*'' then parse_array fsz buffer
      else RespError (''Unknown frame type: '' @ latin1_utf8 (hd buffer)))"
| "parse_array fsz buffer =
     (case find_crlf buffer of
        None \<Rightarrow> RespIncomplete
      | Some len_end \<Rightarrow>
          (case from_utf8 (take (len_end - 1) (drop 1 buffer)) of
             None \<Rightarrow> RespError ''Invalid UTF-8 in array length''
           | Some len_str \<Rightarrow>
               (case parse_i64 len_str of
                  None \<Rightarrow> RespError (''Invalid array length: '' @ len_str)
                | Some len \<Rightarrow>
                    if len < 0 then RespComplete (Array None) (len_end + 2)
                    else if nat len * fsz > i64_max then RespPanic
                    else parse_elements fsz (nat len) buffer (len_end + 2) [])))"
| "parse_elements fsz n buffer offset frames =
     (if n = 0 then RespComplete (Array (Some frames)) offset
      else if offset \<ge> length buffer then RespIncomplete
      else (case resp_parse fsz (drop offset buffer) of
              RespComplete frame consumed \<Rightarrow>
                parse_elements fsz (n - 1) buffer (offset + consumed) (frames @ [frame])
            | r \<Rightarrow> r))"
  by pat_completeness auto
termination
  by (relation "measures
      [\<lambda>x. (case x of Inl (_, b) \<Rightarrow> length b | Inr (Inl (_, b)) \<Rightarrow> length b
              | Inr (Inr (_, _, b, off, _)) \<Rightarrow> length b - off),
       \<lambda>x. (case x of Inl _ \<Rightarrow> 1 | Inr (Inl _) \<Rightarrow> 0 | Inr (Inr (_, n, _, _, _)) \<Rightarrow> 2 + n)]")
    (auto dest!: find_crlf_within)

declare resp_parse.simps [simp del] parse_array.simps [simp del] parse_elements.simps [simp del]

lemmas [rust_eval] = latin1_utf8_def parse_simple_string_def parse_error_string_def parse_integer_def
  parse_bulk_string_def resp_parse.simps parse_array.simps parse_elements.simps

section \<open>Stability under later bytes\<close>

text \<open>
  A result other than \<^verbatim>\<open>Incomplete\<close> is final, and a complete frame takes at least one byte of the
  buffer and none beyond it.
\<close>

definition settled :: "bytes \<Rightarrow> nat \<Rightarrow> resp_result \<Rightarrow> resp_result \<Rightarrow> bool" where
  "settled b m r r' =
     (r \<noteq> RespIncomplete \<longrightarrow> r' = r \<and> (\<forall>f n. r = RespComplete f n \<longrightarrow> m \<le> n \<and> n \<le> length b))"

lemma settledD:
  assumes "settled b m r r'" "r = RespComplete f n"
  shows "r' = RespComplete f n" "m \<le> n" "n \<le> length b"
  using assms by (auto simp: settled_def)

lemma take_header_append:
  "find_crlf b = Some e \<Longrightarrow> take (e - 1) (drop 1 (b @ x)) = take (e - 1) (drop 1 b)"
  by (drule find_crlf_within) auto

lemma scalar_settled:
  "settled b 2 (parse_simple_string b) (parse_simple_string (b @ x))"
  "settled b 2 (parse_error_string b) (parse_error_string (b @ x))"
  "settled b 2 (parse_integer b) (parse_integer (b @ x))"
  by (cases "find_crlf b";
      auto simp: settled_def parse_simple_string_def parse_error_string_def parse_integer_def
        find_crlf_append take_header_append dest: find_crlf_within split: option.splits)+

lemma bulk_settled: "settled b 2 (parse_bulk_string b) (parse_bulk_string (b @ x))"
proof (cases "find_crlf b")
  case (Some e)
  then show ?thesis
    using find_crlf_within [OF Some]
    by (auto simp: settled_def parse_bulk_string_def find_crlf_append take_header_append Let_def
        nth_append_less split: option.splits)
qed (simp add: settled_def parse_bulk_string_def)

text \<open>One round of each of the recursive parsers, given that those it calls are settled.\<close>

lemma parse_array_settled:
  assumes IH: "\<And>e s len. find_crlf b = Some e \<Longrightarrow> from_utf8 (take (e - 1) (drop 1 b)) = Some s \<Longrightarrow> parse_i64 s = Some len \<Longrightarrow>
      \<not> (len < 0 \<or> nat len * fsz > i64_max) \<Longrightarrow> e + 2 \<le> length b \<Longrightarrow>
      settled b (e + 2) (parse_elements fsz (nat len) b (e + 2) []) (parse_elements fsz (nat len) (b @ x) (e + 2) [])"
  shows "settled b 1 (parse_array fsz b) (parse_array fsz (b @ x))"
proof (cases "find_crlf b")
  case (Some e)
  note e = find_crlf_within [OF Some] find_crlf_append [OF Some] take_header_append [OF Some]
  show ?thesis
  proof (cases "Option.bind (from_utf8 (take (e - 1) (drop 1 b))) parse_i64")
    case None
    with Some e show ?thesis by (auto simp: settled_def parse_array.simps bind_eq_None_conv split: option.splits)
  next
    case len: (Some len)
    then obtain t where t: "from_utf8 (take (e - 1) (drop 1 b)) = Some t" "parse_i64 t = Some len"
      by (auto simp: bind_eq_Some_conv)
    show ?thesis
    proof (cases "len < 0 \<or> nat len * fsz > i64_max")
      case True
      with t Some e show ?thesis by (auto simp: settled_def parse_array.simps)
    next
      case False
      with IH [OF Some t False] e(1) t Some e show ?thesis by (simp add: parse_array.simps) (auto simp: settled_def)
    qed
  qed
qed (simp add: settled_def parse_array.simps)

lemma parse_elements_settled:
  assumes off: "off \<le> length b"
    and elem: "n \<noteq> 0 \<Longrightarrow> off < length b \<Longrightarrow>
      settled (drop off b) 1 (resp_parse fsz (drop off b)) (resp_parse fsz (drop off b @ x))"
    and rest: "\<And>f c. n \<noteq> 0 \<Longrightarrow> off < length b \<Longrightarrow> resp_parse fsz (drop off b) = RespComplete f c \<Longrightarrow> off + c \<le> length b \<Longrightarrow>
      settled b (off + c) (parse_elements fsz (n - 1) b (off + c) (fs @ [f]))
        (parse_elements fsz (n - 1) (b @ x) (off + c) (fs @ [f]))"
  shows "settled b off (parse_elements fsz n b off fs) (parse_elements fsz n (b @ x) off fs)"
proof (cases "n = 0 \<or> off \<ge> length b")
  case True
  with off show ?thesis
    by (auto simp: settled_def parse_elements.simps [of fsz n b] parse_elements.simps [of fsz n "b @ x"])
next
  case False
  then have IH: "settled (drop off b) 1 (resp_parse fsz (drop off b)) (resp_parse fsz (drop off b @ x))"
    using elem by simp
  show ?thesis
  proof (cases "resp_parse fsz (drop off b)")
    case (RespComplete f c)
    from settledD [OF IH this] have c: "resp_parse fsz (drop off b @ x) = RespComplete f c" "1 \<le> c"
      "off + c \<le> length b" using False by auto
    with rest [of f c] False RespComplete show ?thesis
      by (simp add: parse_elements.simps [of fsz n b] parse_elements.simps [of fsz n "b @ x"])
        (auto simp: settled_def)
  qed (use IH False in \<open>auto simp: settled_def parse_elements.simps [of fsz n b]
        parse_elements.simps [of fsz n "b @ x"]\<close>)
qed

lemma resp_settled:
  "settled b 1 (resp_parse fsz b) (resp_parse fsz (b @ x))"
  "settled b 1 (parse_array fsz b) (parse_array fsz (b @ x))"
  "off \<le> length b \<Longrightarrow>
     settled b off (parse_elements fsz n b off fs) (parse_elements fsz n (b @ x) off fs)"
proof (induction fsz b and fsz b and fsz n b off fs rule: resp_parse_parse_array_parse_elements.induct)
  case (1 fsz b)
  have weaken: "settled b 2 r r' \<Longrightarrow> settled b 1 r r'" for r r' by (auto simp: settled_def)
  show ?case
  proof (cases "b = []")
    case False
    then have "hd (b @ x) = hd b" by simp
    with False 1 scalar_settled [of b x, THEN weaken] bulk_settled [of b x, THEN weaken] show ?thesis
      by (simp add: resp_parse.simps [of fsz b] resp_parse.simps [of fsz "b @ x"])
        (simp add: settled_def)
  qed (simp add: settled_def resp_parse.simps)
next
  case (2 fsz b)
  then show ?case by (intro parse_array_settled) auto
next
  case (3 fsz n b off fs)
  note elem = 3(1) and rest = 3(2)
  show ?case
  proof (rule parse_elements_settled [OF 3(3)], goal_cases)
    case 1
    with elem show ?case by simp
  next
    case (2 f c)
    with rest show ?case by simp
  qed
qed

text \<open>The parser as a verdict on the front of a stream.\<close>

datatype resp_failure = Rejected bytes | Crashed

definition resp_next :: "nat \<Rightarrow> bytes \<Rightarrow> (frame, resp_failure) verdict" where
  "resp_next fsz b =
     (case resp_parse fsz b of
        RespComplete f n \<Rightarrow> Item f n
      | RespIncomplete \<Rightarrow> Partial
      | RespError e \<Rightarrow> Bad (Rejected e)
      | RespPanic \<Rightarrow> Bad Crashed)"

interpretation resp: stream_parser "resp_next fsz" for fsz
proof
  fix b x :: bytes and f n e
  note st = resp_settled(1) [of b fsz x, unfolded settled_def]
  show "n \<le> length b" if "resp_next fsz b = Item f n"
    using that st by (auto simp: resp_next_def split: resp_result.splits)
  show "resp_next fsz (b @ x) = Item f n" if "resp_next fsz b = Item f n"
    using that st by (auto simp: resp_next_def split: resp_result.splits)
  show "resp_next fsz (b @ x) = Bad e" if "resp_next fsz b = Bad e"
    using that st by (auto simp: resp_next_def split: resp_result.splits)
qed

section \<open>Encoding and parsing\<close>

fun frame_ok :: "nat \<Rightarrow> frame \<Rightarrow> bool" where
  "frame_ok fsz (Simple s) = (find_crlf s = None \<and> from_utf8 s \<noteq> None)"
| "frame_ok fsz (ErrorF s) = (find_crlf s = None \<and> from_utf8 s \<noteq> None)"
| "frame_ok fsz (Integer n) = (- (2 ^ 63) \<le> n \<and> n \<le> int i64_max)"
| "frame_ok fsz (Bulk None) = True"
| "frame_ok fsz (Bulk (Some d)) = (length d \<le> i64_max)"
| "frame_ok fsz (Array None) = True"
| "frame_ok fsz (Array (Some fs)) =
     (length fs \<le> i64_max \<and> length fs * fsz \<le> i64_max \<and> list_all (frame_ok fsz) fs)"

lemma find_crlf_Cons_None: "c \<noteq> CHR 0x0D \<Longrightarrow> find_crlf s = None \<Longrightarrow> find_crlf (c # s) = None"
  by (cases s) auto

lemma find_crlf_header:
  "c \<noteq> CHR 0x0D \<Longrightarrow> find_crlf s = None \<Longrightarrow> find_crlf (c # s @ crlf @ r) = Some (length s + 1)"
  using find_crlf_crlf [OF find_crlf_Cons_None, of c s r] by simp

lemma show_int_no_crlf: "find_crlf (show_int n) = None"
  using digits_no_cr [OF show_nat_all_digits]
  by (intro find_crlf_no_cr) (auto simp: show_int_def)

lemma show_nat_no_crlf: "find_crlf (show_nat n) = None"
  by (intro find_crlf_no_cr digits_no_cr show_nat_all_digits)

lemma is_ascii_Cons: "is_ascii (c # s) \<longleftrightarrow> (of_char c :: nat) < 128 \<and> is_ascii s"
  by (simp add: is_ascii_def)

lemma from_utf8_show_int: "from_utf8 (show_int n) = Some (show_int n)"
  by (rule from_utf8_ascii) (simp add: show_int_def is_ascii_Cons)

lemma from_utf8_show_nat: "from_utf8 (show_nat n) = Some (show_nat n)"
  by (simp add: from_utf8_ascii)

lemma parse_i64_show_nat: "n \<le> i64_max \<Longrightarrow> parse_i64 (show_nat n) = Some (int n)"
  using parse_i64_show_int [of "int n"] by (simp add: show_int_def)

lemma parse_i64_minus_one: "find_crlf ''-1'' = None" "from_utf8 ''-1'' = Some ''-1''"
  "parse_i64 ''-1'' = Some (- 1)"
  by (simp_all add: rust_eval)

lemma encode_nonempty [simp]: "encode f \<noteq> []"
  by (cases f rule: encode.cases) auto

lemma parse_elements_encoded:
  assumes "\<forall>f\<in>set fs. \<forall>r. resp_parse fsz (encode f @ r) = RespComplete f (length (encode f))"
    and "off \<le> length b" "drop off b = concat (map encode fs) @ rest"
  shows "parse_elements fsz (length fs) b off acc =
    RespComplete (Array (Some (acc @ fs))) (off + length (concat (map encode fs)))"
  using assms
proof (induction fs arbitrary: off acc)
  case Nil
  then show ?case by (simp add: parse_elements.simps)
next
  case (Cons f fs)
  let ?off = "off + length (encode f)"
  have "drop off b \<noteq> []" using Cons.prems(3) by simp
  then have "off < length b" by simp
  have "drop ?off b = drop (length (encode f)) (drop off b)" by (simp add: add.commute)
  then have rest: "drop ?off b = concat (map encode fs) @ rest" using Cons.prems(3) by simp
  have "length (drop off b) = length (encode f) + length (concat (map encode fs) @ rest)"
    using Cons.prems(3) by simp
  then have "?off \<le> length b" using \<open>off < length b\<close> by simp
  with Cons.IH [of ?off "acc @ [f]"] Cons.prems rest
  have "parse_elements fsz (length fs) b ?off (acc @ [f]) =
      RespComplete (Array (Some (acc @ f # fs))) (?off + length (concat (map encode fs)))"
    by simp
  with Cons.prems \<open>off < length b\<close> show ?case
    by (subst parse_elements.simps) (simp add: add.assoc)
qed

lemma resp_parse_encode:
  "frame_ok fsz f \<Longrightarrow> resp_parse fsz (encode f @ r) = RespComplete f (length (encode f))"
proof (induction fsz f arbitrary: r rule: frame_ok.induct)
  case (1 fsz s)
  then show ?case
    using find_crlf_header [of "CHR ''+''" s r]
    by (auto simp: resp_parse.simps parse_simple_string_def from_utf8_def split: if_splits)
next
  case (2 fsz s)
  then show ?case
    using find_crlf_header [of "CHR ''-''" s r]
    by (auto simp: resp_parse.simps parse_error_string_def from_utf8_def split: if_splits)
next
  case (3 fsz n)
  then show ?case
    using find_crlf_header [of "CHR '':''", OF _ show_int_no_crlf, of n r]
    by (simp add: resp_parse.simps parse_integer_def from_utf8_show_int parse_i64_show_int)
next
  case (4 fsz)
  show ?case
    using find_crlf_header [of "CHR ''$''", OF _ parse_i64_minus_one(1), of r] parse_i64_minus_one
    by (simp add: resp_parse.simps parse_bulk_string_def)
next
  case (5 fsz d)
  let ?h = "length (show_nat (length d))"
  have crlf: "(encode (Bulk (Some d)) @ r) ! (?h + 3 + length d) = CHR 0x0D"
    "(encode (Bulk (Some d)) @ r) ! (?h + 4 + length d) = CHR 0x0A"
    by (simp_all add: nth_append crlf_def)
  show ?case
    using 5 find_crlf_header [of "CHR ''$''", OF _ show_nat_no_crlf, of "length d" "d @ crlf @ r"] crlf
    by (simp add: resp_parse.simps parse_bulk_string_def from_utf8_show_nat parse_i64_show_nat
        Let_def nth_append)
next
  case (6 fsz)
  show ?case
    using find_crlf_header [of "CHR ''*''", OF _ parse_i64_minus_one(1), of r] parse_i64_minus_one
    by (simp add: resp_parse.simps parse_array.simps)
next
  case (7 fsz fs)
  then have fs: "\<forall>f\<in>set fs. \<forall>r. resp_parse fsz (encode f @ r) = RespComplete f (length (encode f))"
    by (auto simp: list_all_iff)
  let ?b = "encode (Array (Some fs)) @ r"
  let ?off = "Suc (Suc (Suc (length (show_nat (length fs)))))"
  have "drop ?off ?b = concat (map encode fs) @ r" by (simp add: crlf_def numeral_3_eq_3)
  from parse_elements_encoded [OF fs _ this, of "[]"]
  have "parse_elements fsz (length fs) ?b ?off [] =
      RespComplete (Array (Some fs)) (?off + length (concat (map encode fs)))"
    by simp
  then show ?case
    using 7(2) find_crlf_header [of "CHR ''*''", OF _ show_nat_no_crlf, of "length fs"
        "concat (map encode fs) @ r"]
    by (simp add: resp_parse.simps parse_array.simps from_utf8_show_nat parse_i64_show_nat)
qed

interpretation resp: stream_codec "resp_next fsz" encode "frame_ok fsz" for fsz
  by unfold_locales (simp_all add: resp_next_def resp_parse_encode resp_parse.simps [of _ "[]"])

text \<open>
  C16. RESP round trip: the parser reads back every frame whose strings are UTF-8 lines, whose
  integers fit \<^verbatim>\<open>i64\<close> and whose lengths fit memory, nested to any depth, whatever follows it in
  the buffer; on every proper prefix of the encoding it answers \<^verbatim>\<open>Incomplete\<close>.
\<close>

theorem resp_roundtrip:
  assumes "frame_ok fsz f"
  shows "resp_parse fsz (encode f @ rest) = RespComplete f (length (encode f))
    \<and> (\<forall>k<length (encode f). resp_parse fsz (take k (encode f)) = RespIncomplete)"
proof (intro conjI allI impI)
  fix k assume "k < length (encode f)"
  then have "resp_next fsz (take k (encode f)) = Partial"
    by (rule resp.encoded_prefix_partial [OF assms])
  then show "resp_parse fsz (take k (encode f)) = RespIncomplete"
    by (auto simp: resp_next_def split: resp_result.splits)
qed (rule resp_parse_encode [OF assms])

theorem resp_roundtrip_witness:
  "resp_parse 32 (encode (Array (Some [Bulk (Some ''GET''), Array (Some [Integer (- 7), Bulk None])])) @ ''+'')
   = RespComplete (Array (Some [Bulk (Some ''GET''), Array (Some [Integer (- 7), Bulk None])]))
       (length (encode (Array (Some [Bulk (Some ''GET''), Array (Some [Integer (- 7), Bulk None])]))))"
  using resp_roundtrip [of 32 "Array (Some [Bulk (Some ''GET''), Array (Some [Integer (- 7), Bulk None])])"]
  by (simp add: i64_max_def)

text \<open>
  Pipelining over RESP: a client's frames, cut into reads at arbitrary positions, are
  recognised all, in order, with no byte left over and no error.
\<close>

lemma resp_pipeline:
  assumes "list_all (frame_ok fsz) frames" "concat reads = concat (map encode frames)"
  shows "feed (resp_next fsz) [] reads = (frames, [], None)"
  using assms by (rule resp.pipeline)

text \<open>
  C32. What the reservation costs: an array header that announces \<open>n\<close> elements, with \<open>n\<close> frames
  larger than \<^verbatim>\<open>isize::MAX\<close> bytes, makes the parser panic, whatever follows, before any element
  has arrived.
\<close>

theorem resp_header_panic:
  assumes "n \<le> i64_max" "n * fsz > i64_max"
  shows "resp_parse fsz (''*'' @ show_nat n @ crlf @ rest) = RespPanic"
  using find_crlf_header [of "CHR ''*''", OF _ show_nat_no_crlf, of n rest] assms
  by (simp add: resp_parse.simps parse_array.simps from_utf8_show_nat parse_i64_show_nat)

theorem resp_header_panic_witness:
  "resp_parse 32 (''*'' @ show_nat (2 ^ 60) @ crlf @ []) = RespPanic"
  by (rule resp_header_panic) (simp_all add: i64_max_def)

end
