(* ===== verification/Ping.thy ===== *)
theory Ping
  imports Protocol_Base
begin

text \<open>
  The line-based ping protocol, \<^verbatim>\<open>src/src/protocols/ping/parser.rs\<close>: the parser and the responses.
  An output buffer is a list of fixed length; a function that writes into one returns it. The
  parser satisfies the contract of \<^verbatim>\<open>Protocol_Base\<close> together with the encoding a client uses.
\<close>

datatype ping_command = PingCmd | PingMsg bytes | PingQuit

datatype ping_result = PingComplete ping_command nat | PingIncomplete | PingError

definition ping_parse :: "bytes \<Rightarrow> ping_result" where
  "ping_parse input =
     (case find_crlf input of
        None \<Rightarrow> PingIncomplete
      | Some line_end \<Rightarrow>
          let line = take line_end input; consumed = line_end + 2
          in if eq_ignore_ascii_case line ''PING'' then PingComplete PingCmd consumed
             else if eq_ignore_ascii_case line ''QUIT'' then PingComplete PingQuit consumed
             else if length line > 5 \<and> eq_ignore_ascii_case (take 5 line) ''PING ''
             then PingComplete (PingMsg (drop 5 line)) consumed
             else PingError)"

definition response_pong :: bytes where
  "response_pong = ''PONG'' @ crlf"

definition response_pong_msg :: "bytes \<Rightarrow> bytes \<Rightarrow> bytes \<times> nat" where
  "response_pong_msg msg output =
     (let needed = 5 + length msg + 2 in
      if length output < needed then (output, 0)
      else (blit (5 + length msg) crlf (blit 5 msg (blit 0 ''PONG '' output)), needed))"

definition ping_response_error :: bytes where
  "ping_response_error = ''ERROR unknown command'' @ crlf"

lemma response_pong_msg_writes:
  assumes "7 + length msg \<le> length output"
  shows "response_pong_msg msg output =
    (''PONG '' @ msg @ crlf @ drop (7 + length msg) output, 7 + length msg)"
proof -
  have "blit 5 msg (blit 0 ''PONG '' output) = blit 0 (''PONG '' @ msg) output"
    using blit_append [of 0 "output" "''PONG ''" msg] by (simp add: numeral_eq_Suc)
  moreover have "blit (5 + length msg) crlf (blit 0 (''PONG '' @ msg) output) =
      blit 0 ((''PONG '' @ msg) @ crlf) output"
    using blit_append [of 0 "output" "''PONG '' @ msg" crlf] by (simp add: numeral_eq_Suc)
  ultimately show ?thesis
    using assms by (simp add: response_pong_msg_def Let_def blit_0 add.commute numeral_eq_Suc)
qed

section \<open>The stream contract\<close>

definition ping_next :: "bytes \<Rightarrow> (ping_command, unit) verdict" where
  "ping_next b =
     (case ping_parse b of
        PingComplete c n \<Rightarrow> Item c n | PingIncomplete \<Rightarrow> Partial | PingError \<Rightarrow> Bad ())"

fun ping_encode :: "ping_command \<Rightarrow> bytes" where
  "ping_encode PingCmd = ''PING'' @ crlf"
| "ping_encode (PingMsg m) = ''PING '' @ m @ crlf"
| "ping_encode PingQuit = ''QUIT'' @ crlf"

fun ping_ok :: "ping_command \<Rightarrow> bool" where
  "ping_ok (PingMsg m) = (m \<noteq> [] \<and> find_crlf m = None)"
| "ping_ok _ = True"

lemma ping_parse_append: "ping_parse b \<noteq> PingIncomplete \<Longrightarrow> ping_parse (b @ x) = ping_parse b"
proof -
  assume "ping_parse b \<noteq> PingIncomplete"
  then obtain e where e: "find_crlf b = Some e" by (auto simp: ping_parse_def split: option.splits)
  with find_crlf_within [OF e] show ?thesis by (simp add: ping_parse_def find_crlf_append)
qed

lemma find_crlf_ping_msg: "find_crlf m = None \<Longrightarrow> find_crlf (''PING '' @ m) = None"
  by (cases m) auto

lemma ping_parse_encode: "ping_ok c \<Longrightarrow> ping_parse (ping_encode c @ x) = PingComplete c (length (ping_encode c))"
proof (cases c)
  case (PingMsg m)
  assume "ping_ok c"
  with PingMsg have "m \<noteq> []" "find_crlf m = None" by simp_all
  note m = this(1) find_crlf_ping_msg [OF this(2)]
  have "find_crlf (ping_encode c @ x) = Some (length (''PING '' @ m))"
    using find_crlf_crlf [OF m(2), of x] PingMsg by simp
  then have "ping_parse (ping_encode c @ x) =
      (if eq_ignore_ascii_case (''PING '' @ m) ''PING'' then PingComplete PingCmd (length m + 7)
       else if eq_ignore_ascii_case (''PING '' @ m) ''QUIT'' then PingComplete PingQuit (length m + 7)
       else PingComplete (PingMsg m) (length m + 7))"
    using m(1) PingMsg by (simp add: ping_parse_def Let_def)
  moreover have "\<not> eq_ignore_ascii_case (''PING '' @ m) ''PING''"
    "\<not> eq_ignore_ascii_case (''PING '' @ m) ''QUIT''"
    by (auto dest!: eq_ignore_ascii_case_length)
  ultimately show ?thesis using PingMsg by simp
qed (simp_all add: ping_parse_def crlf_def eq_ignore_ascii_case_def ascii_lower_def)

interpretation ping: stream_codec ping_next ping_encode ping_ok
proof
  fix b x :: bytes and c n e
  show "n \<le> length b" if "ping_next b = Item c n"
    using that
    by (auto simp: ping_next_def ping_parse_def Let_def dest: find_crlf_within
        split: ping_result.splits option.splits if_splits)
  show "ping_next (b @ x) = Item c n" if "ping_next b = Item c n"
    using that ping_parse_append [of b x] by (auto simp: ping_next_def split: ping_result.splits)
  show "ping_next (b @ x) = Bad e" if "ping_next b = Bad e"
    using that ping_parse_append [of b x] by (auto simp: ping_next_def split: ping_result.splits)
  show "ping_encode c \<noteq> []" by (cases c) auto
  show "ping_next [] = Partial" by (simp add: ping_next_def ping_parse_def)
  show "ping_next (ping_encode c @ x) = Item c (length (ping_encode c))" if "ping_ok c"
    using ping_parse_encode [OF that] by (simp add: ping_next_def)
qed

end
