(* ===== verification/Echo.thy ===== *)
theory Echo
  imports Protocol_Base
begin

text \<open>
  The length-prefixed echo protocol, \<^verbatim>\<open>src/src/protocols/echo/parser.rs\<close>: the parser of a header
  and the responses. \<open>echo_next\<close> is the header with the data that must follow it, which is what
  the request layer waits for; with the client's encoding it satisfies the contract of
  \<^verbatim>\<open>Protocol_Base\<close>.
\<close>

datatype echo_command = EchoCmd nat nat | EchoQuit

datatype echo_result = EchoComplete echo_command | EchoIncomplete | EchoInvalidLength

definition echo_parse :: "bytes \<Rightarrow> echo_result" where
  "echo_parse input =
     (case find_crlf input of
        None \<Rightarrow> EchoIncomplete
      | Some line_end \<Rightarrow>
          let line = take line_end input in
          if eq_ignore_ascii_case line ''QUIT'' then EchoComplete EchoQuit
          else (case from_utf8 line of
                  None \<Rightarrow> EchoInvalidLength
                | Some length_str \<Rightarrow>
                    (case parse_usize length_str of
                       None \<Rightarrow> EchoInvalidLength
                     | Some len \<Rightarrow> EchoComplete (EchoCmd len (line_end + 2)))))"

definition echo_response_header :: "nat \<Rightarrow> bytes \<Rightarrow> bytes \<times> nat" where
  "echo_response_header len output =
     (let header = show_nat len @ crlf in
      if length output < length header then (output, 0)
      else (blit 0 header output, length header))"

definition echo_response_error :: "bytes \<Rightarrow> bytes" where
  "echo_response_error msg = ''ERROR '' @ msg @ crlf"

section \<open>The stream contract\<close>

datatype echo_request = EchoData bytes | EchoEnd

datatype echo_failure = BadLength | EchoTooLarge nat

definition echo_next :: "nat \<Rightarrow> bytes \<Rightarrow> (echo_request, echo_failure) verdict" where
  "echo_next limit b =
     (case echo_parse b of
        EchoIncomplete \<Rightarrow> Partial
      | EchoInvalidLength \<Rightarrow> Bad BadLength
      | EchoComplete EchoQuit \<Rightarrow> Item EchoEnd 6
      | EchoComplete (EchoCmd len header_len) \<Rightarrow>
          if len > limit then Bad (EchoTooLarge header_len)
          else if length b < header_len + len then Partial
          else Item (EchoData (take len (drop header_len b))) (header_len + len))"

fun echo_encode :: "echo_request \<Rightarrow> bytes" where
  "echo_encode (EchoData d) = show_nat (length d) @ crlf @ d"
| "echo_encode EchoEnd = ''QUIT'' @ crlf"

fun echo_ok :: "nat \<Rightarrow> echo_request \<Rightarrow> bool" where
  "echo_ok limit (EchoData d) = (length d \<le> limit \<and> length d \<le> usize_max)"
| "echo_ok limit EchoEnd = True"

lemma echo_parse_append: "echo_parse b \<noteq> EchoIncomplete \<Longrightarrow> echo_parse (b @ x) = echo_parse b"
proof -
  assume "echo_parse b \<noteq> EchoIncomplete"
  then obtain e where e: "find_crlf b = Some e" by (auto simp: echo_parse_def split: option.splits)
  with find_crlf_within [OF e] show ?thesis by (simp add: echo_parse_def find_crlf_append)
qed

lemma echo_parse_header: "echo_parse b = EchoComplete (EchoCmd len h) \<Longrightarrow> 2 \<le> h \<and> h \<le> length b \<and> len \<le> usize_max"
  by (auto simp: echo_parse_def Let_def dest!: find_crlf_within dest: parse_usize_bound
      split: option.splits if_splits)

lemma echo_parse_quit: "echo_parse b = EchoComplete EchoQuit \<Longrightarrow> 6 \<le> length b"
  by (auto simp: echo_parse_def Let_def dest!: find_crlf_within eq_ignore_ascii_case_length
      split: option.splits if_splits)

lemma show_nat_not_quit: "\<not> eq_ignore_ascii_case (show_nat n) ''QUIT''"
proof
  assume e: "eq_ignore_ascii_case (show_nat n) ''QUIT''"
  obtain c r where c: "show_nat n = c # r" by (cases "show_nat n") auto
  with show_nat_all_digits [of n] have "is_digit c" by simp
  with e c show False by (auto simp: eq_ignore_ascii_case_def ascii_lower_def is_digit_def)
qed

lemma echo_parse_print:
  "n \<le> usize_max \<Longrightarrow>
    echo_parse (show_nat n @ crlf @ x) = EchoComplete (EchoCmd n (length (show_nat n) + 2))"
  using find_crlf_crlf [OF find_crlf_no_cr [OF digits_no_cr [OF show_nat_all_digits]], of n x]
  by (simp add: echo_parse_def show_nat_not_quit from_utf8_ascii parse_usize_show_nat)

interpretation echo: stream_codec "echo_next limit" echo_encode "echo_ok limit" for limit
proof
  fix b x :: bytes and c n e
  show "n \<le> length b" if "echo_next limit b = Item c n"
    using that
    by (auto simp: echo_next_def dest: echo_parse_quit
        split: echo_result.splits echo_command.splits if_splits)
  show "echo_next limit (b @ x) = Item c n" if "echo_next limit b = Item c n"
    using that echo_parse_append [of b x] echo_parse_header [of b]
    by (auto simp: echo_next_def split: echo_result.splits echo_command.splits if_splits)
  show "echo_next limit (b @ x) = Bad e" if "echo_next limit b = Bad e"
    using that echo_parse_append [of b x]
    by (auto simp: echo_next_def split: echo_result.splits echo_command.splits if_splits)
  show "echo_encode c \<noteq> []" by (cases c) auto
  show "echo_next limit [] = Partial" by (simp add: echo_next_def echo_parse_def)
  show "echo_next limit (echo_encode c @ x) = Item c (length (echo_encode c))" if "echo_ok limit c"
  proof (cases c)
    case (EchoData d)
    with that echo_parse_print [of "length d" "d @ x"] show ?thesis by (simp add: echo_next_def)
  next
    case EchoEnd
    then show ?thesis
      by (simp add: echo_next_def echo_parse_def crlf_def eq_ignore_ascii_case_def ascii_lower_def)
  qed
qed

end
