(* ===== verification/Request.thy ===== *)
theory Request
  imports Storage_Correct Memcached Resp Ping Echo
begin

text \<open>
  The request layer, \<^verbatim>\<open>src/src/request.rs\<close>: it parses the front of an input buffer, runs the
  command against the store and writes the response into an output buffer.

  A function gets the store and the output buffer and returns them changed, with a
  \<open>process_result\<close>; a panic anywhere below it is \<open>Panicked\<close>. \<open>clk i\<close> is what the clock reads in
  the \<open>i\<close>-th operation on the store during the request. \<open>U\<close> holds the Unicode case tables and
  \<open>fsz\<close> the size of a RESP frame in memory.
\<close>

section \<open>Results\<close>

datatype protocol = ProtoMemcached | ProtoResp | ProtoPing | ProtoEcho

datatype process_result =
    PNeedData
  | PNeedChain nat nat
  | PResponse nat nat
  | PLargeResponse nat bytes
  | PQuit
  | PError

definition copy_response :: "bytes \<Rightarrow> bytes \<Rightarrow> bytes \<times> nat" where
  "copy_response response output =
     (let len = min (length response) (length output)
      in (blit 0 (take len response) output, len))"

definition reply :: "bool \<Rightarrow> bytes \<Rightarrow> bytes" where
  "reply noreply response = (if noreply then [] else response)"

section \<open>Memcached commands\<close>

definition handle_incr_decr ::
  "(nat \<Rightarrow> nat) \<Rightarrow> bytes \<Rightarrow> u64 \<Rightarrow> bool \<Rightarrow> storage \<Rightarrow> storage \<times> bytes outcome" where
  "handle_incr_decr clk key delta is_incr s =
     (let non_numeric = response_client_error ''cannot increment or decrement non-numeric value'' in
      case get (clk 0) key s of
        (s1, None) \<Rightarrow> (s1, Returned response_not_found)
      | (s1, Some item) \<Rightarrow>
          (case from_utf8 (ci_value item) of
             None \<Rightarrow> (s1, Returned non_numeric)
           | Some str \<Rightarrow>
               (case parse_u64 (trim str) of
                  None \<Rightarrow> (s1, Returned non_numeric)
                | Some current \<Rightarrow>
                    let new_value = (if is_incr then current + delta
                                     else if current < delta then 0 else current - delta);
                        (s2, r) = set_item (clk 1) key (show_nat (unat new_value)) (ci_flags item) 0 s1
                    in (s2, map_outcome (\<lambda>_. response_numeric new_value) r))))"

fun execute_command :: "(nat \<Rightarrow> nat) \<Rightarrow> mc_command \<Rightarrow> storage \<Rightarrow> storage \<times> bytes outcome" where
  "execute_command clk (Get keys) s =
     apsnd (map_outcome (\<lambda>items.
         concat (map (\<lambda>(key, item). response_value key (ci_flags item) (ci_value item) None) items)
         @ response_end))
       (get_multi (clk 0) keys s)"
| "execute_command clk (Gets keys) s =
     apsnd (map_outcome (\<lambda>items.
         concat (map (\<lambda>(key, item). response_value key (ci_flags item) (ci_value item)
                                       (Some (ci_cas_unique item))) items)
         @ response_end))
       (get_multi (clk 0) keys s)"
| "execute_command clk (Delete key noreply) s =
     apsnd (map_outcome (\<lambda>r. reply noreply
         (if r = Deleted then response_deleted else response_not_found)))
       (delete key s)"
| "execute_command clk (Incr key value noreply) s =
     apsnd (map_outcome (reply noreply)) (handle_incr_decr clk key value True s)"
| "execute_command clk (Decr key value noreply) s =
     apsnd (map_outcome (reply noreply)) (handle_incr_decr clk key value False s)"
| "execute_command clk (FlushAll delay noreply) s =
     apsnd (map_outcome (\<lambda>_. reply noreply response_ok)) (flush_all s)"
| "execute_command clk Stats s =
     (s, map_outcome (\<lambda>st.
           response_stat ''curr_items'' (show_nat (ss_item_count st))
           @ response_stat ''bytes'' (show_nat (ss_memory_used st))
           @ response_stat ''limit_maxbytes'' (show_nat (ss_max_memory st))
           @ response_end)
         (stats s))"
| "execute_command clk Version s = (s, Returned response_version)"
| "execute_command clk Quit s = (s, Returned [])"
| "execute_command clk (Set key flags exptime n noreply) s = (s, Returned response_error)"
| "execute_command clk (Add key flags exptime n noreply) s = (s, Returned response_error)"
| "execute_command clk (Replace key flags exptime n noreply) s = (s, Returned response_error)"
| "execute_command clk (Append key flags exptime n noreply) s = (s, Returned response_error)"
| "execute_command clk (Prepend key flags exptime n noreply) s = (s, Returned response_error)"
| "execute_command clk (Cas key flags exptime n token noreply) s = (s, Returned response_error)"

definition stored_or_not :: "bool \<Rightarrow> storage_result \<Rightarrow> bytes" where
  "stored_or_not noreply r = reply noreply (if r = Stored then response_stored else response_not_stored)"

fun execute_storage_command ::
  "(nat \<Rightarrow> nat) \<Rightarrow> mc_command \<Rightarrow> bytes \<Rightarrow> storage \<Rightarrow> storage \<times> bytes outcome" where
  "execute_storage_command clk (Set key flags exptime n noreply) data s =
     apsnd (map_outcome (stored_or_not noreply)) (set_item (clk 0) key data flags exptime s)"
| "execute_storage_command clk (Add key flags exptime n noreply) data s =
     apsnd (map_outcome (stored_or_not noreply)) (add (clk 0) key data flags exptime s)"
| "execute_storage_command clk (Replace key flags exptime n noreply) data s =
     apsnd (map_outcome (stored_or_not noreply)) (replace (clk 0) key data flags exptime s)"
| "execute_storage_command clk (Append key flags exptime n noreply) data s =
     apsnd (map_outcome (stored_or_not noreply)) (append_item (clk 0) key data s)"
| "execute_storage_command clk (Prepend key flags exptime n noreply) data s =
     apsnd (map_outcome (stored_or_not noreply)) (prepend_item (clk 0) key data s)"
| "execute_storage_command clk (Cas key flags exptime n token noreply) data s =
     apsnd (map_outcome (\<lambda>r. reply noreply
         (if r = Stored then response_stored
          else if r = CasMismatch then response_exists
          else if r = NotFound then response_not_found
          else response_not_stored)))
       (cas (clk 0) key data flags exptime token s)"
| "execute_storage_command clk _ data s = (s, Returned response_error)"

text \<open>Write a response and report how much of the input it answers.\<close>

definition answer ::
  "nat \<Rightarrow> bytes \<Rightarrow> storage \<times> bytes outcome \<Rightarrow> storage \<times> (process_result \<times> bytes) outcome" where
  "answer consumed output x =
     apsnd (map_outcome (\<lambda>response.
         let (output', len) = copy_response response output in (PResponse consumed len, output'))) x"

definition is_retrieval :: "mc_command \<Rightarrow> bool" where
  "is_retrieval c = (case c of Get _ \<Rightarrow> True | Gets _ \<Rightarrow> True | _ \<Rightarrow> False)"

definition process_memcached ::
  "unicode \<Rightarrow> (nat \<Rightarrow> nat) \<Rightarrow> bytes \<Rightarrow> bytes \<Rightarrow> storage \<Rightarrow> nat \<Rightarrow>
   storage \<times> (process_result \<times> bytes) outcome" where
  "process_memcached U clk input output s max_value_size =
     (let too_large = response_client_error ''value too large'' in
      case mc_parse U input of
        Complete command consumed \<Rightarrow>
          if command = Quit then (s, Returned (PQuit, output))
          else (case data_length command of
                  Some bytes \<Rightarrow>
                    if bytes > max_value_size
                    then answer consumed output (s, Returned too_large)
                    else let data_end = uadd (uadd consumed bytes) 2 in
                         if length input < data_end
                         then (s, Returned (if bytes > length output
                                            then PNeedChain consumed bytes else PNeedData, output))
                         else (case slice consumed (uadd consumed bytes) input of
                                 Panicked \<Rightarrow> (s, Panicked)
                               | Returned data \<Rightarrow>
                                   answer data_end output (execute_storage_command clk command data s))
                | None \<Rightarrow>
                    if is_retrieval command
                    then (case execute_command clk command s of
                            (s', Panicked) \<Rightarrow> (s', Panicked)
                          | (s', Returned response) \<Rightarrow>
                              if length response > length output
                              then (s', Returned (PLargeResponse consumed response, output))
                              else answer consumed output (s', Returned response))
                    else answer consumed output (execute_command clk command s))
      | NeedData command_bytes data_bytes \<Rightarrow>
          if data_bytes > max_value_size
          then answer (uadd command_bytes 2) output (s, Returned too_large)
          else let total_needed = uadd (uadd command_bytes data_bytes) 2 in
               if length input \<ge> total_needed
               then (case parse_with_data U input of
                       Panicked \<Rightarrow> (s, Panicked)
                     | Returned (Complete command consumed) \<Rightarrow>
                         (case slice command_bytes (uadd command_bytes data_bytes) input of
                            Panicked \<Rightarrow> (s, Panicked)
                          | Returned data \<Rightarrow>
                              answer consumed output (execute_storage_command clk command data s))
                     | Returned _ \<Rightarrow> (s, Returned (PNeedData, output)))
               else (s, Returned (if data_bytes > length output
                                  then PNeedChain command_bytes data_bytes else PNeedData, output))
      | Error e \<Rightarrow> (s, Returned (if e = Incomplete then PNeedData else PError, output)))"

section \<open>RESP commands\<close>

fun del_loop :: "frame list \<Rightarrow> storage \<Rightarrow> int \<Rightarrow> storage \<times> int outcome" where
  "del_loop [] s count = (s, Returned count)"
| "del_loop (Bulk (Some key) # args) s count =
     (case delete (from_utf8_lossy key) s of
        (s', Panicked) \<Rightarrow> (s', Panicked)
      | (s', Returned r) \<Rightarrow> del_loop args s' (if r = Deleted then count + 1 else count))"
| "del_loop (_ # args) s count = del_loop args s count"

fun exists_loop :: "(nat \<Rightarrow> nat) \<Rightarrow> frame list \<Rightarrow> storage \<Rightarrow> int \<Rightarrow> storage \<times> int" where
  "exists_loop clk [] s count = (s, count)"
| "exists_loop clk (Bulk (Some key) # args) s count =
     (case get (clk 0) (from_utf8_lossy key) s of
        (s', Some item) \<Rightarrow> exists_loop (\<lambda>i. clk (Suc i)) args s' (count + 1)
      | (s', None) \<Rightarrow> exists_loop (\<lambda>i. clk (Suc i)) args s' count)"
| "exists_loop clk (_ # args) s count = exists_loop clk args s count"

definition wrong_arguments :: "bytes \<Rightarrow> frame" where
  "wrong_arguments cmd = ErrorF (''ERR wrong number of arguments for '' @ [CHR 0x27] @ cmd @ [CHR 0x27] @ '' command'')"

definition execute_resp_command ::
  "unicode \<Rightarrow> (nat \<Rightarrow> nat) \<Rightarrow> frame \<Rightarrow> storage \<Rightarrow> storage \<times> frame outcome" where
  "execute_resp_command U clk frame s =
     (case frame of
        Array (Some args) \<Rightarrow>
          if args = [] then (s, Returned (ErrorF ''ERR empty command''))
          else (case args ! 0 of
                  Bulk (Some name) \<Rightarrow>
                    let cmd = to_uppercase U (from_utf8_lossy name) in
                    if cmd = ''PING''
                    then (s, Returned (if length args > 1 then args ! 1 else Simple ''PONG''))
                    else if cmd = ''GET''
                    then (if length args \<noteq> 2 then (s, Returned (wrong_arguments ''get''))
                          else (case args ! 1 of
                                  Bulk (Some k) \<Rightarrow>
                                    (case get (clk 0) (from_utf8_lossy k) s of
                                       (s', Some item) \<Rightarrow> (s', Returned (Bulk (Some (ci_value item))))
                                     | (s', None) \<Rightarrow> (s', Returned (Bulk None)))
                                | _ \<Rightarrow> (s, Returned (ErrorF ''ERR invalid key''))))
                    else if cmd = ''SET''
                    then (if length args < 3 then (s, Returned (wrong_arguments ''set''))
                          else (case args ! 1 of
                                  Bulk (Some k) \<Rightarrow>
                                    (case args ! 2 of
                                       Bulk (Some v) \<Rightarrow>
                                         apsnd (map_outcome (\<lambda>_. Simple ''OK''))
                                           (set_item (clk 0) (from_utf8_lossy k) v 0 0 s)
                                     | _ \<Rightarrow> (s, Returned (ErrorF ''ERR invalid value'')))
                                | _ \<Rightarrow> (s, Returned (ErrorF ''ERR invalid key''))))
                    else if cmd = ''DEL''
                    then (if length args < 2 then (s, Returned (wrong_arguments ''del''))
                          else apsnd (map_outcome Integer) (del_loop (drop 1 args) s 0))
                    else if cmd = ''EXISTS''
                    then (if length args < 2 then (s, Returned (wrong_arguments ''exists''))
                          else apsnd (\<lambda>n. Returned (Integer n)) (exists_loop clk (drop 1 args) s 0))
                    else if cmd = ''FLUSHALL'' \<or> cmd = ''FLUSHDB''
                    then apsnd (map_outcome (\<lambda>_. Simple ''OK'')) (flush_all s)
                    else if cmd = ''DBSIZE''
                    then (s, map_outcome (\<lambda>st. Integer (int (ss_item_count st))) (stats s))
                    else if cmd = ''QUIT'' then (s, Returned (Simple ''OK''))
                    else (s, Returned (ErrorF (''ERR unknown command '' @ [CHR 0x27] @ cmd @ [CHR 0x27])))
                | _ \<Rightarrow> (s, Returned (ErrorF ''ERR invalid command'')))
      | _ \<Rightarrow> (s, Returned (ErrorF ''ERR invalid command format'')))"

text \<open>The early check: a \<^verbatim>\<open>SET\<close>, compared byte by byte, whose value is over the limit.\<close>

definition set_too_large :: "frame \<Rightarrow> nat \<Rightarrow> bool" where
  "set_too_large frame max_value_size =
     (case frame of
        Array (Some (Bulk (Some cmd) # _ # Bulk (Some value) # _)) \<Rightarrow>
          eq_ignore_ascii_case cmd ''SET'' \<and> length value > max_value_size
      | _ \<Rightarrow> False)"

definition process_resp ::
  "unicode \<Rightarrow> nat \<Rightarrow> (nat \<Rightarrow> nat) \<Rightarrow> bytes \<Rightarrow> bytes \<Rightarrow> storage \<Rightarrow> nat \<Rightarrow>
   storage \<times> (process_result \<times> bytes) outcome" where
  "process_resp U fsz clk input output s max_value_size =
     (case resp_parse fsz input of
        RespComplete frame consumed \<Rightarrow>
          if set_too_large frame max_value_size
          then (let encoded = encode (ErrorF ''ERR value too large'');
                    len = min (length encoded) (length output)
                in (s, Returned (PResponse consumed len, blit 0 (take len encoded) output)))
          else (case execute_resp_command U clk frame s of
                  (s', Panicked) \<Rightarrow> (s', Panicked)
                | (s', Returned response) \<Rightarrow>
                    let encoded = encode response in
                    if length encoded > length output
                    then (s', Returned (PLargeResponse consumed encoded, output))
                    else (s', Returned (PResponse consumed (length encoded), blit 0 encoded output)))
      | RespIncomplete \<Rightarrow> (s, Returned (PNeedData, output))
      | RespError _ \<Rightarrow> (s, Returned (PError, output))
      | RespPanic \<Rightarrow> (s, Panicked))"

section \<open>Ping and echo\<close>

definition process_ping :: "bytes \<Rightarrow> bytes \<Rightarrow> process_result \<times> bytes" where
  "process_ping input output =
     (case ping_parse input of
        PingComplete PingCmd consumed \<Rightarrow>
          (let len = min (length response_pong) (length output)
           in (PResponse consumed len, blit 0 (take len response_pong) output))
      | PingComplete (PingMsg msg) consumed \<Rightarrow>
          (let (output', response_len) = response_pong_msg msg output
           in if response_len = 0 then (PError, output') else (PResponse consumed response_len, output'))
      | PingComplete PingQuit consumed \<Rightarrow> (PQuit, output)
      | PingIncomplete \<Rightarrow> (PNeedData, output)
      | PingError \<Rightarrow>
          (let len = min (length ping_response_error) (length output)
           in (PResponse 0 len, blit 0 (take len ping_response_error) output)))"

text \<open>\<^verbatim>\<open>copy_from_slice\<close> panics when the two slices have different lengths.\<close>

definition process_echo :: "bytes \<Rightarrow> bytes \<Rightarrow> nat \<Rightarrow> (process_result \<times> bytes) outcome" where
  "process_echo input output max_value_size =
     (case echo_parse input of
        EchoComplete EchoQuit \<Rightarrow> Returned (PQuit, output)
      | EchoComplete (EchoCmd len header_len) \<Rightarrow>
          if len > max_value_size
          then (let err = echo_response_error ''value too large'';
                    n = min (length err) (length output)
                in Returned (PResponse header_len n, blit 0 (take n err) output))
          else
            let total_needed = uadd header_len len in
            if length input < total_needed
            then Returned (if len > length output then PNeedChain header_len len else PNeedData, output)
            else
              let (output', resp_header_len) = echo_response_header len output;
                  response_len = uadd resp_header_len len
              in (case slice header_len total_needed input of
                    Panicked \<Rightarrow> Panicked
                  | Returned data \<Rightarrow>
                      if response_len > length output
                      then Returned (PLargeResponse total_needed (take resp_header_len output' @ data), output')
                      else if resp_header_len + length data \<noteq> response_len then Panicked
                      else Returned (PResponse total_needed response_len,
                                     blit resp_header_len data output'))
      | EchoIncomplete \<Rightarrow> Returned (PNeedData, output)
      | EchoInvalidLength \<Rightarrow>
          (let err = echo_response_error ''invalid length'';
               n = min (length err) (length output)
           in Returned (PResponse 0 n, blit 0 (take n err) output)))"

end
