(* ===== verification/Request_Correct.thy ===== *)
theory Request_Correct
  imports Request
begin

text \<open>
  The properties of the request layer: the memcached handler implements the stream semantics of
  \<^verbatim>\<open>Memcached\<close> exactly, a value written over the wire is the value read back over the wire, in
  both protocols; the arithmetic of \<^verbatim>\<open>incr\<close> and \<^verbatim>\<open>decr\<close>; the size limit; ping and echo.
\<close>

section \<open>Responses in a buffer\<close>

lemma copy_response_fits:
  "length r \<le> length out \<Longrightarrow> copy_response r out = (r @ drop (length r) out, length r)"
  by (simp add: copy_response_def blit_0 Let_def)

text \<open>The bytes a result sends to the client.\<close>

fun delivered :: "process_result \<times> bytes \<Rightarrow> bytes" where
  "delivered (PResponse consumed n, out) = take n out"
| "delivered (PLargeResponse consumed d, out) = d"
| "delivered _ = []"

lemma answer_Returned:
  "answer n out (s, Returned r) =
     (s, Returned (PResponse n (min (length r) (length out)),
                   blit 0 (take (min (length r) (length out)) r) out))"
  by (simp add: answer_def copy_response_def Let_def)

lemma answer_Panicked: "answer n out (s, Panicked) = (s, Panicked)"
  by (simp add: answer_def)

lemma delivered_answer:
  "length r \<le> length out \<Longrightarrow>
    map_outcome delivered (snd (answer n out (s, Returned r))) = Returned r"
  by (simp add: answer_Returned blit_0)

section \<open>The memcached handler\<close>

definition mc_execute ::
  "(nat \<Rightarrow> nat) \<Rightarrow> mc_command \<Rightarrow> bytes \<Rightarrow> storage \<Rightarrow> storage \<times> bytes outcome" where
  "mc_execute clk c d s =
     (if data_length c = None then execute_command clk c s else execute_storage_command clk c d s)"

definition mc_respond ::
  "nat \<Rightarrow> mc_command \<Rightarrow> bytes \<Rightarrow> storage \<times> bytes outcome \<Rightarrow> storage \<times> (process_result \<times> bytes) outcome" where
  "mc_respond n c out x =
     (case x of
        (s, Returned r) \<Rightarrow>
          if is_retrieval c \<and> length r > length out then (s, Returned (PLargeResponse n r, out))
          else answer n out (s, Returned r)
      | (s, Panicked) \<Rightarrow> (s, Panicked))"

definition mc_wait :: "unicode \<Rightarrow> bytes \<Rightarrow> bytes \<Rightarrow> process_result" where
  "mc_wait U input out =
     (case mc_parse U input of
        NeedData cb db \<Rightarrow>
          if length input < cb + db + 2 \<and> db > length out then PNeedChain cb db else PNeedData
      | _ \<Rightarrow> PNeedData)"

lemma mc_parse_Complete_no_data: "mc_parse U b = Complete c n \<Longrightarrow> data_length c = None"
  by (auto simp: mc_parse_def parse_get_def parse_storage_def parse_cas_def parse_delete_def
      parse_incr_decr_def parse_flush_all_def Let_def split: sum.splits if_splits option.splits)

lemma build_command_data: "data_length (build_command nm parts db is_cas) = Some db"
  by (simp add: build_command_def Let_def)

lemma mc_command_of_data: "mc_parse U b = NeedData cb db \<Longrightarrow> data_length (mc_command_of U b db) = Some db"
  by (erule mc_parse_NeedDataE) (simp add: mc_command_of_def build_command_data)

lemma mc_parse_NeedData_within: "mc_parse U b = NeedData cb db \<Longrightarrow> 2 \<le> cb \<and> cb \<le> length b"
  by (erule mc_parse_NeedDataE) (auto dest: command_line_within)

lemma data_not_retrieval: "data_length c = Some n \<Longrightarrow> \<not> is_retrieval c \<and> c \<noteq> Quit"
  by (cases c) (auto simp: is_retrieval_def)

text \<open>The stream semantics as a handler: what to do with the request that \<open>mc_next\<close> finds.\<close>

definition mc_stream ::
  "unicode \<Rightarrow> (nat \<Rightarrow> nat) \<Rightarrow> bytes \<Rightarrow> bytes \<Rightarrow> storage \<Rightarrow> nat \<Rightarrow> storage \<times> (process_result \<times> bytes) outcome" where
  "mc_stream U clk input out s limit =
     (case mc_next U limit input of
        Item (c, d) n \<Rightarrow>
          if c = Quit then (s, Returned (PQuit, out)) else mc_respond n c out (mc_execute clk c d s)
      | Bad (Syntax e) \<Rightarrow> (s, Returned (PError, out))
      | Bad (TooLarge cb) \<Rightarrow>
          answer (cb + 2) out (s, Returned (response_client_error ''value too large''))
      | Partial \<Rightarrow> (s, Returned (mc_wait U input out, out)))"

lemma process_memcached_stream:
  assumes "length input + limit + 4 < 2 ^ 64"
  shows "process_memcached U clk input out s limit = mc_stream U clk input out s limit"
proof (cases "mc_parse U input")
  case (Complete c n)
  with mc_parse_Complete_no_data [OF this] show ?thesis
    by (auto simp: process_memcached_def mc_stream_def mc_next_def mc_execute_def mc_respond_def answer_Panicked
        split: prod.splits outcome.splits)
next
  case (NeedData cb db)
  have cb: "cb \<le> length input" using mc_parse_NeedData_within [OF NeedData] by simp
  show ?thesis
  proof (cases "db > limit \<or> length input < cb + db + 2")
    case True
    have "uadd cb 2 = cb + 2" "db \<le> limit \<Longrightarrow> uadd (uadd cb db) 2 = cb + db + 2"
      using cb assms by (simp_all add: uadd_no_wrap)
    with True NeedData show ?thesis
      by (auto simp: process_memcached_def mc_stream_def mc_next_def mc_wait_def)
  next
    case False
    then have eqs: "uadd cb db = cb + db" "uadd (cb + db) 2 = cb + db + 2" "cb + db + 2 < 2 ^ 64"
      using cb assms by (simp_all add: uadd_no_wrap)
    have sl: "slice cb (cb + db) input = Returned (take db (drop cb input))"
      using False by (simp add: slice_ok)
    note spec = parse_with_data_spec [OF NeedData eqs(3)]
    show ?thesis
      using False NeedData eqs sl spec mc_command_of_data [OF NeedData]
        data_not_retrieval [OF mc_command_of_data [OF NeedData]]
      by (auto simp: process_memcached_def mc_stream_def mc_next_def mc_execute_def mc_respond_def mc_wait_def
          answer_Panicked split: prod.splits outcome.splits)
  qed
next
  case (Error e)
  then show ?thesis by (auto simp: process_memcached_def mc_stream_def mc_next_def mc_wait_def)
qed

text \<open>
  C2. The memcached handler refines the stream semantics: on every buffer it answers exactly the
  request that \<open>mc_next\<close> finds at its front, consuming exactly its bytes; it waits, without
  touching the store or the output, when there is none yet; it closes on a syntax error; and it
  reports a value over the limit. No length computation wraps.
\<close>

theorem process_memcached_refines:
  assumes "length input + limit + 4 < 2 ^ 64"
  shows "process_memcached U clk input out s limit = mc_stream U clk input out s limit"
  using assms by (rule process_memcached_stream)

theorem process_memcached_refines_witness:
  "process_memcached \<lparr>uni_lower = id, uni_upper = id\<rparr> (\<lambda>_. 0) (''version'' @ crlf @ ''ge'') (replicate 64 (CHR 0x00))
     (storage_new length 100 0) 10
   = mc_respond (length (''version'' @ crlf)) Version (replicate 64 (CHR 0x00))
       (mc_execute (\<lambda>_. 0) Version [] (storage_new length 100 0))"
  using process_memcached_refines [of "''version'' @ crlf @ ''ge''" 10
      "\<lparr>uni_lower = id, uni_upper = id\<rparr>" "\<lambda>_. 0" "replicate 64 (CHR 0x00)" "storage_new length 100 0"]
  by (simp add: mc_stream_def mc_next_def crlf_def rust_eval)

section \<open>Over the wire\<close>

lemma get_multi_single:
  "\<not> st_poisoned s \<Longrightarrow> map_of (st_data s) k = Some it \<Longrightarrow> \<not> is_expired now it \<Longrightarrow>
    get_multi now [k] s = (record_access k s, Returned [(k, it)])"
  by (simp add: get_multi_def)

lemma new_item_alive:
  "(\<And>t. e = Some t \<Longrightarrow> now' < t) \<Longrightarrow> \<not> is_expired now' (new_item now v f e c)"
  by (auto simp: is_expired_def not_le split: option.split)

lemma handle_printed_request:
  assumes "request_ok limit c d" "length (print_request c d @ rest) + limit + 4 < 2 ^ 64" "c \<noteq> Quit"
  shows "process_memcached U clk (print_request c d @ rest) out s limit =
    mc_respond (length (print_request c d)) c out (mc_execute clk c d s)"
  using process_memcached_stream [OF assms(2), of U clk out s] mc_next_print [OF assms(1), of U rest]
    assms(3)
  by (simp add: mc_stream_def)

lemma delivered_respond:
  assumes "length r \<le> length out \<or> is_retrieval c"
  shows "map_outcome delivered (snd (mc_respond n c out (s, Returned r))) = Returned r"
    "fst (mc_respond n c out (s, Returned r)) = s"
  using assms delivered_answer [of r out n s] by (auto simp: mc_respond_def answer_Returned)

text \<open>
  C3. A value written over the memcached protocol is the value read back: the client sends a
  \<^verbatim>\<open>set\<close> request with any key and any data (binary data, line ends in it, evictions forced by
  it), followed by anything; the answer is \<^verbatim>\<open>STORED\<close>; and a \<^verbatim>\<open>get\<close> of that key on the resulting
  store, before the expiry, delivers exactly the key, the flags and the data, in the buffer or
  as a large response.
\<close>

theorem set_get_over_memcached:
  assumes "key_ok k" "length v \<le> limit" "length v \<le> usize_max"
    and "\<not> st_poisoned s" "calculate_expiry (clk 0) ttl s = Returned e"
    and "\<forall>t. e = Some t \<longrightarrow> clk' 0 < t"
    and "length (print_request (Set k f ttl (length v) False) v @ rest) + limit + 4 < 2 ^ 64"
    and "length (print_request (Get [k]) [] @ rest') + limit + 4 < 2 ^ 64"
    and "8 \<le> length out"
  shows "let (s', r) = process_memcached U clk
             (print_request (Set k f ttl (length v) False) v @ rest) out s limit;
           (s'', r') = process_memcached U clk' (print_request (Get [k]) [] @ rest') out' s' limit
         in map_outcome delivered r = Returned (''STORED'' @ crlf)
          \<and> map_outcome delivered r' = Returned (''VALUE '' @ k @ '' '' @ show_nat (unat f) @ '' '' @ show_nat (length v) @ crlf
               @ v @ crlf @ ''END'' @ crlf)"
proof -
  let ?c = "Set k f ttl (length v) False" and ?g = "Get [k]"
  let ?it = "new_item (clk 0) v f e (st_cas_counter s)"
  have ok: "request_ok limit ?c v" "request_ok limit ?g []" using assms(1-3) by (simp_all add: request_ok_def)
  note set = set_item_ok [OF assms(4,5), of k v f]
  obtain t where t: "set_item (clk 0) k v f ttl s = (t, Returned Stored)" using set(1) by blast
  then have "mc_execute clk ?c v s = (t, Returned response_stored)"
    by (simp add: mc_execute_def stored_or_not_def reply_def)
  moreover have "length response_stored \<le> length out" using assms(9) by (simp add: response_stored_def)
  ultimately have p1: "map_outcome delivered (snd (process_memcached U clk (print_request ?c v @ rest) out s limit))
        = Returned response_stored"
    "fst (process_memcached U clk (print_request ?c v @ rest) out s limit) = t"
    using handle_printed_request [OF ok(1) assms(7), of U clk out s] delivered_respond [of response_stored out]
    by auto
  have "map_of (st_data t) k = Some ?it" using set(2) by (simp add: t hm_simps)
  moreover have "\<not> is_expired (clk' 0) ?it" using assms(6) by (intro new_item_alive) auto
  ultimately have "get_multi (clk' 0) [k] t = (record_access k t, Returned [(k, ?it)])"
    using set(8) by (intro get_multi_single) (simp_all add: t)
  then have "mc_execute clk' ?g [] t = (record_access k t, Returned (response_value k f v None @ response_end))"
    by (simp add: mc_execute_def)
  then have "map_outcome delivered (snd (process_memcached U clk' (print_request ?g [] @ rest') out' t limit))
      = Returned (response_value k f v None @ response_end)"
    using handle_printed_request [OF ok(2) assms(8), of U clk' out' t] delivered_respond(1) [of _ out' ?g]
    by (simp add: is_retrieval_def)
  with p1 show ?thesis by (simp add: split_beta response_stored_def response_value_def response_end_def)
qed

theorem set_get_over_memcached_witness:
  "let (s', r) = process_memcached \<lparr>uni_lower = id, uni_upper = id\<rparr> (\<lambda>_. 5)
         (print_request (Set ''k'' 3 0 2 False) crlf @ []) (replicate 64 (CHR 0x00)) (storage_new length 1000 0) 10;
       (s'', r') = process_memcached \<lparr>uni_lower = id, uni_upper = id\<rparr> (\<lambda>_. 9)
         (print_request (Get [''k'']) [] @ []) (replicate 64 (CHR 0x00)) s' 10
   in map_outcome delivered r = Returned (''STORED'' @ crlf)
    \<and> map_outcome delivered r' = Returned (''VALUE k 3 2'' @ crlf @ crlf @ crlf @ ''END'' @ crlf)"
  using set_get_over_memcached [of "''k''" crlf 10 "storage_new length 1000 0" "\<lambda>_. 5" 0 None "\<lambda>_. 9" 3
      "[]" "[]" "replicate 64 (CHR 0x00)" "\<lparr>uni_lower = id, uni_upper = id\<rparr>" "replicate 64 (CHR 0x00)"]
    ascii_word [of "''k''"]
  by (simp add: key_ok_def max_key_length_def usize_max_def storage_new_def calculate_expiry_def
      print_request_def print_line_def noreply_word_def rust_eval)

section \<open>Increment and decrement\<close>

text \<open>
  C27. Arithmetic on stored numbers: when the item under the key is the decimal text of a 64-bit
  number \<open>n\<close>, \<^verbatim>\<open>incr\<close> stores and answers \<open>n + delta\<close> modulo \<open>2 ^ 64\<close> and \<^verbatim>\<open>decr\<close> stores and answers
  \<open>n - delta\<close>, stopping at zero. The flags are kept; the expiry becomes that of the store's
  default, not that of the item.
\<close>

theorem incr_decr_arithmetic:
  fixes n delta :: u64
  assumes "get (clk 0) k s = (s1, Some it)" "ci_value it = show_nat (unat n)"
    and "calculate_expiry (clk 1) 0 s1 = Returned e"
  shows "let (s', r) = handle_incr_decr clk k delta is_incr s;
             m = (if is_incr then (unat n + unat delta) mod 2 ^ 64 else unat n - unat delta)
         in r = Returned (show_nat m @ crlf) \<and>
            map_of (st_data s') k =
              Some (new_item (clk 1) (show_nat m) (ci_flags it) e (st_cas_counter s))"
proof -
  let ?w = "if is_incr then n + delta else if n < delta then 0 else n - delta"
  define m where "m = (if is_incr then (unat n + unat delta) mod 2 ^ 64 else unat n - unat delta)"
  have m: "unat ?w = m"
    by (auto simp: m_def unat_word_ariths unat_sub word_less_nat_alt word_le_nat_alt not_less)
  have s1: "\<not> st_poisoned s1" "st_cas_counter s1 = st_cas_counter s"
    using assms(1) by (cases rule: get_cases [of s "clk 0" k]; auto)+
  note set = set_item_ok [OF s1(1) assms(3), of k "show_nat m" "ci_flags it"]
  obtain t where t: "set_item (clk 1) k (show_nat m) (ci_flags it) 0 s1 = (t, Returned Stored)"
    using set(1) by blast
  have "from_utf8 (ci_value it) = Some (show_nat (unat n))" by (simp add: assms(2) from_utf8_ascii)
  moreover have "parse_u64 (trim (show_nat (unat n))) = Some n"
    by (simp add: trim_word parse_u64_show_nat)
  ultimately have "handle_incr_decr clk k delta is_incr s = (t, Returned (response_numeric ?w))"
    using t m assms(1) by (simp add: handle_incr_decr_def Let_def del: unat_of_nat split del: if_split)
  moreover have "map_of (st_data t) k =
      Some (new_item (clk 1) (show_nat m) (ci_flags it) e (st_cas_counter s))"
    using set(2) [unfolded t fst_conv] s1(2) by (simp add: hm_simps)
  moreover have "response_numeric ?w = show_nat m @ crlf" by (simp only: response_numeric_def m)
  ultimately show ?thesis by (simp only: Let_def m_def [symmetric] prod.case simp_thms)
qed

theorem incr_decr_arithmetic_witness:
  "let s = fst (set_item 0 ''n'' ''7'' 5 0 (storage_new length 1000 0));
       (s', r) = handle_incr_decr (\<lambda>_. 1) ''n'' 9 False s
   in r = Returned (show_nat 0 @ crlf) \<and>
      map_of (st_data s') ''n'' = Some (new_item 1 (show_nat 0) 5 None 2)"
  using incr_decr_arithmetic [of "\<lambda>_. 1" "''n''" "fst (set_item 0 ''n'' ''7'' 5 0 (storage_new length 1000 0))"
      _ "new_item 0 ''7'' 5 None 1" 7 None 9 False]
  by (simp add: storage_eval new_item_def Let_def rust_eval)

section \<open>RESP\<close>

lemma uppercase_names [simp]:
  "to_uppercase U ''GET'' = ''GET''" "to_uppercase U ''SET'' = ''SET''"
  by (simp_all add: to_uppercase_def is_ascii_def ascii_upper_def)

lemma lossy_names [simp]: "from_utf8_lossy ''GET'' = ''GET''" "from_utf8_lossy ''SET'' = ''SET''"
  by (rule from_utf8_lossy_valid, rule utf8_chars_ascii, simp add: is_ascii_def)+

definition resp_set :: "bytes \<Rightarrow> bytes \<Rightarrow> frame" where
  "resp_set k v = Array (Some [Bulk (Some ''SET''), Bulk (Some k), Bulk (Some v)])"

definition resp_get :: "bytes \<Rightarrow> frame" where
  "resp_get k = Array (Some [Bulk (Some ''GET''), Bulk (Some k)])"

lemma handle_encoded_frame:
  assumes "frame_ok fsz f" "\<not> set_too_large f limit" "execute_resp_command U clk f s = (s', Returned g)"
  shows "fst (process_resp U fsz clk (encode f @ rest) out s limit) = s'"
    "map_outcome delivered (snd (process_resp U fsz clk (encode f @ rest) out s limit)) = Returned (encode g)"
  using assms resp_parse_encode [OF assms(1), of rest]
  by (simp_all add: process_resp_def Let_def blit_0)

text \<open>
  C4. The same over RESP: any key bytes and any value up to the limit; the \<^verbatim>\<open>SET\<close> answers \<^verbatim>\<open>+OK\<close>,
  and a \<^verbatim>\<open>GET\<close> on the resulting store delivers a response that a RESP client decodes to exactly
  that value.
\<close>

theorem set_get_over_resp:
  assumes "length v \<le> limit" "length v \<le> i64_max" "length k \<le> i64_max" "3 * fsz \<le> i64_max"
    and "\<not> st_poisoned s" "calculate_expiry (clk 0) 0 s = Returned e"
    and "\<forall>t. e = Some t \<longrightarrow> clk' 0 < t"
  shows "let (s', r) = process_resp U fsz clk (encode (resp_set k v) @ rest) out s limit;
             (s'', r') = process_resp U fsz clk' (encode (resp_get k) @ rest') out' s' limit
         in map_outcome delivered r = Returned (''+OK'' @ crlf)
          \<and> map_outcome (\<lambda>x. resp_parse fsz (delivered x)) r' =
              Returned (RespComplete (Bulk (Some v)) (length (encode (Bulk (Some v)))))"
proof -
  let ?k = "from_utf8_lossy k"
  let ?it = "new_item (clk 0) v 0 e (st_cas_counter s)"
  have ok: "frame_ok fsz (resp_set k v)" "frame_ok fsz (resp_get k)"
    using assms(2-4) by (simp_all add: resp_set_def resp_get_def i64_max_def)
  have small: "\<not> set_too_large (resp_set k v) limit" "\<not> set_too_large (resp_get k) limit"
    using assms(1) by (simp_all add: set_too_large_def resp_set_def resp_get_def)
  note set = set_item_ok [OF assms(5,6), of ?k v 0]
  obtain t where t: "set_item (clk 0) ?k v 0 0 s = (t, Returned Stored)" using set(1) by blast
  then have "execute_resp_command U clk (resp_set k v) s = (t, Returned (Simple ''OK''))"
    by (simp add: execute_resp_command_def resp_set_def)
  note p1 = handle_encoded_frame [OF ok(1) small(1) this, of rest out]
  have "map_of (st_data t) ?k = Some ?it" using set(2) by (simp add: t hm_simps)
  moreover have "\<not> is_expired (clk' 0) ?it" using assms(7) by (intro new_item_alive) auto
  ultimately have "get (clk' 0) ?k t = (record_access ?k t, Some ?it)"
    using set(8) by (simp add: get_def t)
  then have "execute_resp_command U clk' (resp_get k) t = (record_access ?k t, Returned (Bulk (Some v)))"
    by (simp add: execute_resp_command_def resp_get_def)
  note p2 = handle_encoded_frame(2) [OF ok(2) small(2) this, of rest' out']
  have dec: "resp_parse fsz (encode (Bulk (Some v))) = RespComplete (Bulk (Some v)) (length (encode (Bulk (Some v))))"
    using resp_parse_encode [of fsz "Bulk (Some v)" "[]"] assms(2) by simp
  have "map_outcome (\<lambda>x. resp_parse fsz (delivered x)) r' = map_outcome (resp_parse fsz) (map_outcome delivered r')"
    for r' :: "(process_result \<times> bytes) outcome" by (cases r') simp_all
  with p1 p2 dec show ?thesis by (simp add: split_beta Let_def)
qed

theorem set_get_over_resp_witness:
  "let (s', r) = process_resp \<lparr>uni_lower = id, uni_upper = id\<rparr> 32 (\<lambda>_. 5) (encode (resp_set ''k'' crlf) @ [])
         (replicate 64 (CHR 0x00)) (storage_new length 1000 0) 10;
       (s'', r') = process_resp \<lparr>uni_lower = id, uni_upper = id\<rparr> 32 (\<lambda>_. 9) (encode (resp_get ''k'') @ ''*'') [] s' 10
   in map_outcome delivered r = Returned (''+OK'' @ crlf)
    \<and> map_outcome (\<lambda>x. resp_parse 32 (delivered x)) r' =
        Returned (RespComplete (Bulk (Some crlf)) (length (encode (Bulk (Some crlf)))))"
  by (rule set_get_over_resp [where e = None])
    (simp_all add: i64_max_def storage_new_def calculate_expiry_def)

subsection \<open>The size limit\<close>

lemma uppercase_ascii_SET:
  assumes "is_ascii name" "to_uppercase U (from_utf8_lossy name) = ''SET''"
  shows "eq_ignore_ascii_case name ''SET''"
proof -
  have "from_utf8_lossy name = name" using utf8_chars_ascii [OF assms(1)] by (rule from_utf8_lossy_valid)
  with assms have "map ascii_upper name = ''SET''" by (simp add: to_uppercase_def)
  then have "map ascii_lower (map ascii_upper name) = map ascii_lower ''SET''" by simp
  then show ?thesis by (simp add: eq_ignore_ascii_case_def ascii_lower_upper comp_def)
qed

lemma get_le: "map_of (st_data (fst (get now k s))) \<subseteq>\<^sub>m map_of (st_data s)"
  by (cases rule: get_cases [of s now k]) (auto simp: delete_le)

lemma del_loop_le: "map_of (st_data (fst (del_loop args s n))) \<subseteq>\<^sub>m map_of (st_data s)"
proof (induction args arbitrary: s n)
  case (Cons a args)
  show ?case
  proof (cases "\<exists>key. a = Bulk (Some key)")
    case True
    then obtain key where a: "a = Bulk (Some key)" by blast
    obtain s' r where r: "delete (from_utf8_lossy key) s = (s', r)" by fastforce
    then have "map_of (st_data s') \<subseteq>\<^sub>m map_of (st_data s)" using delete_le [of "from_utf8_lossy key" s] by simp
    with r a show ?thesis by (cases r) (auto intro: map_le_trans [OF Cons.IH])
  next
    case False
    then have "del_loop (a # args) s n = del_loop args s n"
      by (cases "(a # args, s, n)" rule: del_loop.cases) auto
    with Cons.IH show ?thesis by simp
  qed
qed simp

lemma exists_loop_le: "map_of (st_data (fst (exists_loop clk args s n))) \<subseteq>\<^sub>m map_of (st_data s)"
proof (induction args arbitrary: clk s n)
  case (Cons a args)
  show ?case
  proof (cases "\<exists>key. a = Bulk (Some key)")
    case True
    then obtain key where a: "a = Bulk (Some key)" by blast
    obtain s' r where r: "get (clk 0) (from_utf8_lossy key) s = (s', r)" by fastforce
    then have "map_of (st_data s') \<subseteq>\<^sub>m map_of (st_data s)"
      using get_le [of "clk 0" "from_utf8_lossy key" s] by simp
    with r a show ?thesis by (cases r) (auto intro: map_le_trans [OF Cons.IH])
  next
    case False
    then have "exists_loop clk (a # args) s n = exists_loop clk args s n"
      by (cases "(clk, a # args, s, n)" rule: exists_loop.cases) auto
    with Cons.IH show ?thesis by simp
  qed
qed simp

lemma set_item_new_or_old:
  "map_of (st_data (fst (set_item now k v f ttl s))) k' = Some it \<Longrightarrow>
    ci_value it = v \<or> map_of (st_data s) k' = Some it"
proof (cases "st_poisoned s \<or> calculate_expiry now ttl s = Panicked")
  case True
  assume "map_of (st_data (fst (set_item now k v f ttl s))) k' = Some it"
  with True set_item_poisoned [of s now k v f ttl] show ?thesis by (auto simp: set_item_panics)
next
  case False
  assume a: "map_of (st_data (fst (set_item now k v f ttl s))) k' = Some it"
  from False obtain e where e: "calculate_expiry now ttl s = Returned e" and np: "\<not> st_poisoned s"
    by (cases "calculate_expiry now ttl s") auto
  note ok = set_item_ok [OF np e, of k v f]
  have "map_of (st_data (ensure_memory_available now n (s\<lparr>st_cas_counter := c\<rparr>))) k' = Some it
      \<Longrightarrow> map_of (st_data s) k' = Some it" for n c
    using ensure_le [of now n "s\<lparr>st_cas_counter := c\<rparr>"] by (force simp: map_le_def dom_def)
  with a ok(2) show ?thesis by (auto simp: hm_simps split: if_splits)
qed

text \<open>No command but \<^verbatim>\<open>SET\<close> adds an item.\<close>

lemma execute_resp_le:
  assumes "args ! 0 = Bulk (Some name)" "to_uppercase U (from_utf8_lossy name) \<noteq> ''SET''"
  shows "map_of (st_data (fst (execute_resp_command U clk (Array (Some args)) s))) \<subseteq>\<^sub>m map_of (st_data s)"
proof -
  have "fst (case get now k s of (s', Some item) \<Rightarrow> (s', Returned (Bulk (Some (ci_value item))))
      | (s', None) \<Rightarrow> (s', Returned (Bulk None))) = fst (get now k s)" for now k
    by (simp split: prod.split option.split)
  then show ?thesis
    using assms
    by (simp add: execute_resp_command_def Let_def get_le del_loop_le exists_loop_le flush_all_def
        split: frame.split option.split)
qed

lemma execute_resp_other:
  "(\<nexists>args name. frame = Array (Some args) \<and> args \<noteq> [] \<and> args ! 0 = Bulk (Some name)) \<Longrightarrow>
    fst (execute_resp_command U clk frame s) = s"
  by (auto simp: execute_resp_command_def split: frame.splits option.splits)

lemma execute_resp_values:
  assumes "map_of (st_data (fst (execute_resp_command U clk frame s))) k' = Some it"
    "map_of (st_data s) k' \<noteq> Some it"
  shows "\<exists>name k args. frame = Array (Some (Bulk (Some name) # Bulk (Some k) # Bulk (Some (ci_value it)) # args))
    \<and> to_uppercase U (from_utf8_lossy name) = ''SET''"
proof -
  have le: "\<not> map_of (st_data t) \<subseteq>\<^sub>m map_of (st_data s)" if "map_of (st_data t) k' = Some it" for t
    using that assms(2) by (force simp: map_le_def dom_def)
  from assms execute_resp_other [of frame U clk s] obtain args name
    where f: "frame = Array (Some args)" "args \<noteq> []" and n: "args ! 0 = Bulk (Some name)"
    by metis
  have cmd: "to_uppercase U (from_utf8_lossy name) = ''SET''"
    using le [OF assms(1)] execute_resp_le [OF n] f(1) by blast
  have len: "3 \<le> length args" using assms f n cmd by (simp add: execute_resp_command_def split: if_splits)
  then obtain a b c rest where args: "args = a # b # c # rest"
    by (metis Suc_le_length_iff numeral_3_eq_3)
  then have "\<exists>k v. b = Bulk (Some k) \<and> c = Bulk (Some v) \<and> ci_value it = v"
    using assms f n cmd
    by (simp add: execute_resp_command_def split: frame.splits option.splits)
      (metis set_item_new_or_old)
  with f n cmd args show ?thesis by auto
qed

text \<open>
  C30. The size limit over RESP: as long as the command name is ASCII, no request, whatever it
  is, brings a value longer than \<^verbatim>\<open>max_value_size\<close> into the store.
\<close>

theorem resp_value_limit:
  assumes "\<And>name args n. resp_parse fsz input = RespComplete (Array (Some (Bulk (Some name) # args))) n
      \<Longrightarrow> is_ascii name"
    and "map_of (st_data (fst (process_resp U fsz clk input out s limit))) k = Some it"
  shows "length (ci_value it) \<le> limit \<or> map_of (st_data s) k = Some it"
proof (rule ccontr)
  assume neg: "\<not> ?thesis"
  then obtain frame n where f: "resp_parse fsz input = RespComplete frame n" "\<not> set_too_large frame limit"
    "map_of (st_data (fst (execute_resp_command U clk frame s))) k = Some it"
    using assms(2)
    by (auto simp: process_resp_def Let_def split: resp_result.splits if_splits prod.splits outcome.splits)
  from execute_resp_values [OF f(3)] neg obtain name key args where
    a: "frame = Array (Some (Bulk (Some name) # Bulk (Some key) # Bulk (Some (ci_value it)) # args))"
      "to_uppercase U (from_utf8_lossy name) = ''SET''"
    by blast
  have "is_ascii name" using assms(1) f(1) a(1) by blast
  with a(2) have "eq_ignore_ascii_case name ''SET''" by (rule uppercase_ascii_SET [rotated])
  with f(2) a(1) neg show False by (simp add: set_too_large_def)
qed

theorem resp_value_limit_witness:
  "length (ci_value (new_item 5 ''v'' 0 None 1)) \<le> 10 \<or>
   map_of (st_data (storage_new length 1000 0)) ''k'' = Some (new_item 5 ''v'' 0 None 1)"
proof (rule resp_value_limit [where fsz = 32 and U = "\<lparr>uni_lower = id, uni_upper = id\<rparr>" and clk = "\<lambda>_. 5"
      and input = "encode (resp_set ''k'' ''v'') @ []" and out = "[]"])
  have p: "resp_parse 32 (encode (resp_set ''k'' ''v'') @ []) =
      RespComplete (resp_set ''k'' ''v'') (length (encode (resp_set ''k'' ''v'')))"
    by (rule resp_parse_encode) (simp add: resp_set_def i64_max_def)
  show "is_ascii name"
    if "resp_parse 32 (encode (resp_set ''k'' ''v'') @ []) = RespComplete (Array (Some (Bulk (Some name) # args))) n"
    for name args n
    using that unfolding p by (auto simp: resp_set_def is_ascii_def)
  have "from_utf8_lossy ''k'' = ''k''"
    by (rule from_utf8_lossy_valid, rule utf8_chars_ascii) (simp add: is_ascii_def)
  then have "execute_resp_command \<lparr>uni_lower = id, uni_upper = id\<rparr> (\<lambda>_. 5) (resp_set ''k'' ''v'') (storage_new length 1000 0)
      = apsnd (map_outcome (\<lambda>_. Simple ''OK'')) (set_item 5 ''k'' ''v'' 0 0 (storage_new length 1000 0))"
    by (simp add: execute_resp_command_def resp_set_def)
  moreover have "\<not> set_too_large (resp_set ''k'' ''v'') 10"
    by (simp add: resp_set_def set_too_large_def)
  ultimately show "map_of (st_data (fst (process_resp \<lparr>uni_lower = id, uni_upper = id\<rparr> 32 (\<lambda>_. 5)
      (encode (resp_set ''k'' ''v'') @ []) [] (storage_new length 1000 0) 10))) ''k''
      = Some (new_item 5 ''v'' 0 None 1)"
    unfolding process_resp_def p by (simp add: storage_eval new_item_def Let_def)
qed

text \<open>
  Where the limit does not hold: the early check folds ASCII case only, the command dispatch
  folds Unicode case. With U+017F (long s), which the Unicode tables map to the letter S in
  upper case, in the place of the S, a value of any length is stored.
\<close>

lemma resp_limit_bypass:
  fixes k v :: bytes
  defines "name \<equiv> [CHR 0xC5, CHR 0xBF, CHR ''E'', CHR ''T'']"
  assumes "uni_upper U name = ''SET''"
    and "length v \<le> i64_max" "length k \<le> i64_max" "3 * fsz \<le> i64_max"
    and "\<not> st_poisoned s" "calculate_expiry (clk 0) 0 s = Returned e"
  shows "map_of (st_data (fst (process_resp U fsz clk
           (encode (Array (Some [Bulk (Some name), Bulk (Some k), Bulk (Some v)])) @ rest) out s limit)))
           (from_utf8_lossy k) = Some (new_item (clk 0) v 0 e (st_cas_counter s))"
proof -
  let ?f = "Array (Some [Bulk (Some name), Bulk (Some k), Bulk (Some v)])"
  let ?k = "from_utf8_lossy k"
  have lossy: "from_utf8_lossy name = name" and "\<not> is_ascii name"
    by (simp_all add: name_def rust_eval)
  then have upper: "to_uppercase U (from_utf8_lossy name) = ''SET''"
    using assms(2) by (simp add: to_uppercase_def)
  have ok: "frame_ok fsz ?f" using assms(3-5) by (simp add: name_def i64_max_def)
  have small: "\<not> set_too_large ?f limit"
    by (simp add: set_too_large_def name_def eq_ignore_ascii_case_def)
  note set = set_item_ok [OF assms(6,7), of ?k v 0]
  obtain t where t: "set_item (clk 0) ?k v 0 0 s = (t, Returned Stored)" using set(1) by blast
  then have "execute_resp_command U clk ?f s = (t, Returned (Simple ''OK''))"
    using upper by (simp add: execute_resp_command_def)
  from handle_encoded_frame(1) [OF ok small this] set(2) show ?thesis by (simp add: t hm_simps)
qed

text \<open>
  What a memcached value over the limit does to the stream: the command is refused, and the
  bytes reported as consumed are the command line and two more, so the next command is read
  from inside the refused data block.
\<close>

lemma too_large_leaves_data:
  fixes out :: bytes
  defines "refusal \<equiv> response_client_error ''value too large''"
  assumes "request_ok big c d" "data_length c = Some n" "n > limit"
    and "length (print_request c d @ rest) + limit + 4 < 2 ^ 64" "length refusal \<le> length out"
  shows "process_memcached U clk (print_request c d @ rest) out s limit =
      (s, Returned (PResponse (length (print_line c) + 2) (length refusal), refusal @ drop (length refusal) out))
    \<and> drop (length (print_line c) + 2) (print_request c d @ rest) = drop 2 (d @ crlf @ rest)"
proof
  have b: "print_request c d @ rest = print_line c @ d @ crlf @ rest"
    using assms(3) by (simp add: print_request_def)
  then show "drop (length (print_line c) + 2) (print_request c d @ rest) = drop 2 (d @ crlf @ rest)"
    by (simp add: add.commute)
  have "mc_next U limit (print_request c d @ rest) = Bad (TooLarge (length (print_line c)))"
    using parse_printed_line [OF assms(2), of U "d @ crlf @ rest"] assms(3,4)
    unfolding b by (simp add: mc_next_def)
  then show "process_memcached U clk (print_request c d @ rest) out s limit =
      (s, Returned (PResponse (length (print_line c) + 2) (length refusal), refusal @ drop (length refusal) out))"
    unfolding process_memcached_stream [OF assms(5)] mc_stream_def
    using assms(6) by (simp add: answer_Returned blit_0 refusal_def)
qed

section \<open>Ping and echo\<close>

text \<open>
  Ping answers: every message without a line end inside comes back after \<^verbatim>\<open>PONG\<close>, when the
  output has room for it, and the handler consumes exactly the request.
\<close>

lemma ping_answers:
  assumes "ping_ok (PingMsg m)" "7 + length m \<le> length out"
  shows "process_ping (ping_encode (PingMsg m) @ rest) out =
    (PResponse (length (ping_encode (PingMsg m))) (7 + length m),
     ''PONG '' @ m @ crlf @ drop (7 + length m) out)"
  unfolding process_ping_def ping_parse_encode [OF assms(1)]
  using response_pong_msg_writes [OF assms(2)] by simp

text \<open>
  An unknown ping command is answered but not consumed: whatever arrives later, the handler
  reports zero bytes consumed, so a caller that keeps its buffer meets the same line again.
\<close>

lemma ping_error_consumes_nothing:
  assumes "ping_parse b = PingError"
  shows "fst (process_ping (b @ later) out) = PResponse 0 (min 23 (length out))"
  using ping_parse_append [of b later] assms
  by (simp add: process_ping_def Let_def ping_response_error_def)

text \<open>
  Echo: data up to the limit comes back as the same length-prefixed message, byte for byte,
  in the buffer or as a large response, and exactly the request is consumed.
\<close>

lemma echo_answers:
  assumes "length d \<le> limit" "length (echo_encode (EchoData d)) < 2 ^ 64"
    "length (show_nat (length d)) + 2 \<le> length out"
  shows "case process_echo (echo_encode (EchoData d) @ rest) out limit of
    Returned (r, out') \<Rightarrow>
      delivered (r, out') = echo_encode (EchoData d) \<and>
      (if length (echo_encode (EchoData d)) \<le> length out
       then r = PResponse (length (echo_encode (EchoData d))) (length (echo_encode (EchoData d)))
       else r = PLargeResponse (length (echo_encode (EchoData d))) (echo_encode (EchoData d)))
  | Panicked \<Rightarrow> False"
proof -
  let ?h = "show_nat (length d) @ crlf"
  have "length d \<le> usize_max" using assms(2) by (simp add: usize_max_def)
  then have parse: "echo_parse (?h @ d @ rest) = EchoComplete (EchoCmd (length d) (length ?h))"
    using echo_parse_print [of "length d" "d @ rest"] by simp
  have sum: "uadd (length ?h) (length d) = length ?h + length d" using assms(2) by (simp add: uadd_no_wrap)
  have sl: "slice (length ?h) (length ?h + length d) (?h @ d @ rest) = Returned d"
    by (simp add: slice_ok)
  have header: "echo_response_header (length d) out = (?h @ drop (length ?h) out, length ?h)"
    using assms(3) by (simp add: echo_response_header_def blit_0)
  have "blit (length ?h) d (?h @ drop (length ?h) out) = ?h @ d @ drop (length ?h + length d) out"
    by (simp add: blit_def add_ac)
  with assms parse sum sl header show ?thesis
    by (simp add: process_echo_def Let_def)
qed

end
