(* ===== verification/Typing.thy ===== *)
theory Typing
  imports Request_Correct
begin

text \<open>
  What the types of the program promise and the byte lists of the model do not show by themselves.
  A Rust \<^verbatim>\<open>String\<close> or \<^verbatim>\<open>&str\<close> is well-formed UTF-8: the keys of both hash maps of the store, the keys
  of a parsed command, the text of a simple string or an error of RESP. An \<^verbatim>\<open>i64\<close> is within its range.
  The theory shows that the parsers produce only such values and that requests leave only such keys
  in the store.
\<close>

section \<open>Strings\<close>

definition is_string :: "bytes \<Rightarrow> bool" where
  "is_string b = (utf8_chars b \<noteq> None)"

lemma word_is_string: "is_word w \<Longrightarrow> is_string w"
  by (auto simp: is_word_def is_string_def split: option.splits)

lemma from_utf8_is_string: "from_utf8 b = Some s \<Longrightarrow> is_string s"
  by (simp add: from_utf8_Some is_string_def)

lemma is_string_append: "is_string a \<Longrightarrow> is_string b \<Longrightarrow> is_string (a @ b)"
  by (auto simp: is_string_def utf8_chars_append)

text \<open>Lossy decoding always gives a string.\<close>

lemma from_utf8_lossy_is_string: "is_string (from_utf8_lossy b)"
proof (induction b rule: from_utf8_lossy.induct)
  case (1 b)
  show ?case
  proof (cases "b = []")
    case True
    then show ?thesis by (simp add: from_utf8_lossy.simps is_string_def)
  next
    case False
    obtain ok n where st: "utf8_step b = (ok, n)" by fastforce
    have mark: "is_string [CHR 0xEF, CHR 0xBF, CHR 0xBD]" by (simp add: is_string_def rust_eval)
    show ?thesis
    proof (cases ok)
      case True
      with st False have n: "utf8_step b = (True, n)" "0 < n" "n \<le> length b"
        using utf8_step_within [OF False] by auto
      then have "is_string (take n b)"
        using False by (subst is_string_def, subst utf8_chars_step [of _ n]) (auto simp: utf8_step_take)
      with 1(1) [OF False n(1) [symmetric]] n False show ?thesis
        by (subst from_utf8_lossy.simps) (simp add: is_string_append)
    next
      case f: False
      with st False 1(2) [OF False, of ok n] mark show ?thesis
        by (subst from_utf8_lossy.simps) (simp add: is_string_append [OF mark, simplified])
    qed
  qed
qed

section \<open>Parsed values\<close>

definition key_typed :: "bytes \<Rightarrow> bool" where
  "key_typed k = (is_word k \<and> length k \<le> max_key_length)"

fun command_typed :: "mc_command \<Rightarrow> bool" where
  "command_typed (Get keys) = (keys \<noteq> [] \<and> list_all key_typed keys)"
| "command_typed (Gets keys) = (keys \<noteq> [] \<and> list_all key_typed keys)"
| "command_typed (Set k flags exptime n noreply) = (key_typed k \<and> n \<le> usize_max)"
| "command_typed (Add k flags exptime n noreply) = (key_typed k \<and> n \<le> usize_max)"
| "command_typed (Replace k flags exptime n noreply) = (key_typed k \<and> n \<le> usize_max)"
| "command_typed (Append k flags exptime n noreply) = (key_typed k \<and> n \<le> usize_max)"
| "command_typed (Prepend k flags exptime n noreply) = (key_typed k \<and> n \<le> usize_max)"
| "command_typed (Cas k flags exptime n token noreply) = (key_typed k \<and> n \<le> usize_max)"
| "command_typed (Delete k noreply) = key_typed k"
| "command_typed (Incr k delta noreply) = key_typed k"
| "command_typed (Decr k delta noreply) = key_typed k"
| "command_typed _ = True"

fun frame_typed :: "frame \<Rightarrow> bool" where
  "frame_typed (Simple s) = is_string s"
| "frame_typed (ErrorF s) = is_string s"
| "frame_typed (Integer n) = (- (2 ^ 63) \<le> n \<and> n < 2 ^ 63)"
| "frame_typed (Bulk data) = True"
| "frame_typed (Array None) = True"
| "frame_typed (Array (Some frames)) = list_all frame_typed frames"

lemma command_line_words: "command_line b = Inr (n, parts) \<Longrightarrow> list_all is_word parts \<and> parts \<noteq> []"
  by (auto simp: command_line_def Let_def list_all_iff intro: split_whitespace_words
      split: option.splits if_splits)

lemma collect_keys_typed: "collect_keys ks = Inr ks' \<Longrightarrow> list_all is_word ks \<Longrightarrow> ks' = ks \<and> list_all key_typed ks"
  by (induction ks arbitrary: ks') (auto simp: key_typed_def split: if_splits sum.splits)

lemma word_nth: "list_all is_word parts \<Longrightarrow> i < length parts \<Longrightarrow> is_word (parts ! i)"
  by (simp add: list_all_length)

lemma mc_parse_typed: "mc_parse U b = Complete c n \<Longrightarrow> command_typed c"
proof -
  assume p: "mc_parse U b = Complete c n"
  then obtain e parts where l: "command_line b = Inr (e, parts)"
    by (auto simp: mc_parse_def split: sum.splits)
  note w = command_line_words [OF l, THEN conjunct1]
  have "list_all is_word (drop 1 parts)" using w by (auto simp: list_all_iff dest: in_set_dropD)
  moreover have "is_word (parts ! Suc 0)" if "\<not> length parts < 2 \<or> \<not> length parts < 3"
    using w that by (intro word_nth) auto
  ultimately show ?thesis using p l
    by (auto simp: mc_parse_def Let_def parse_get_def parse_storage_def parse_cas_def parse_delete_def
        parse_incr_decr_def parse_flush_all_def key_typed_def split_beta
        split: if_splits sum.splits option.splits dest: collect_keys_typed)
qed

lemma parse_with_data_typed: "parse_with_data U b = Returned (Complete c n) \<Longrightarrow> command_typed c"
proof -
  assume p: "parse_with_data U b = Returned (Complete c n)"
  then obtain e parts where l: "command_line b = Inr (e, parts)"
    by (auto simp: parse_with_data_def split: sum.splits)
  note w = command_line_words [OF l, THEN conjunct1]
  obtain db is_cas where d: "data_size (to_lowercase U (parts ! 0)) parts = Inr (db, is_cas)"
    and k: "length (parts ! 1) \<le> max_key_length"
    and c: "c = build_command (to_lowercase U (parts ! 0)) parts db is_cas"
    using p l by (auto simp: parse_with_data_def Let_def split: sum.splits if_splits)
  have "1 < length parts \<and> db \<le> usize_max"
    using d by (auto simp: data_size_def split: if_splits option.splits dest: parse_usize_bound)
  with k word_nth [OF w, of 1] show ?thesis by (auto simp: c build_command_def Let_def key_typed_def)
qed

lemma parse_i64_range: "parse_i64 s = Some i \<Longrightarrow> - (2 ^ 63) \<le> i \<and> i < 2 ^ 63"
  by (auto simp: parse_i64_def parse_unsigned_def i64_max_def split: option.splits if_splits list.splits)

lemma resp_parse_typed:
  "resp_parse fsz b = RespComplete f n \<Longrightarrow> frame_typed f"
  "parse_array fsz b = RespComplete f n \<Longrightarrow> frame_typed f"
  "parse_elements fsz m b off fs = RespComplete f n \<Longrightarrow> list_all frame_typed fs \<Longrightarrow> frame_typed f"
proof (induction fsz b and fsz b and fsz m b off fs arbitrary: f n and f n and f n
    rule: resp_parse_parse_array_parse_elements.induct)
  case (1 fsz b)
  then show ?case
    by (auto simp: resp_parse.simps [of fsz b] parse_simple_string_def parse_error_string_def
        parse_integer_def parse_bulk_string_def Let_def
        split: if_splits option.splits dest: from_utf8_is_string parse_i64_range)
next
  case (2 fsz b)
  then show ?case
    by (auto simp: parse_array.simps [of fsz b] split: if_splits option.splits)
next
  case (3 fsz m b off fs)
  then show ?case
    by (auto simp: parse_elements.simps [of fsz m b off fs] split: if_splits resp_result.splits)
qed

text \<open>
  C37. The values the parsers return have their types. A parsed memcached command has keys that are
  strings without white space, of one to 250 bytes, at least one of them for \<^verbatim>\<open>get\<close> and \<^verbatim>\<open>gets\<close>, and a
  data size within \<^verbatim>\<open>usize\<close>; the simple strings and errors of a parsed RESP frame are well-formed UTF-8 and
  its integers within \<^verbatim>\<open>i64\<close>, at every depth of nesting.
\<close>

theorem parsed_values_typed:
  "(case mc_parse U b of Complete c n \<Rightarrow> command_typed c | _ \<Rightarrow> True)
   \<and> (case parse_with_data U b of Returned (Complete c n) \<Rightarrow> command_typed c | _ \<Rightarrow> True)
   \<and> (case resp_parse fsz b of RespComplete f n \<Rightarrow> frame_typed f | _ \<Rightarrow> True)"
  by (auto split: mc_result.split outcome.split resp_result.split
      intro: mc_parse_typed parse_with_data_typed resp_parse_typed(1))

section \<open>The keys of the store\<close>

definition string_keys :: "storage \<Rightarrow> bool" where
  "string_keys s = (list_all is_string (hm_keys (st_data s)) \<and> list_all is_string (hm_keys (st_access_order s)))"

lemma string_keys_alt:
  "string_keys s \<longleftrightarrow> dom (map_of (st_data s)) \<union> dom (map_of (st_access_order s)) \<subseteq> Collect is_string"
  by (auto simp: string_keys_def list_all_iff set_hm_keys)

lemma string_keys_counters [simp]:
  "string_keys (s\<lparr>st_cas_counter := c\<rparr>) = string_keys s" "string_keys (s\<lparr>st_memory_used := u\<rparr>) = string_keys s"
  "string_keys (s\<lparr>st_poisoned := b\<rparr>) = string_keys s"
  by (simp_all add: string_keys_def)

lemma record_access_keys: "string_keys s \<Longrightarrow> is_string k \<Longrightarrow> string_keys (record_access k s)"
  by (auto simp: string_keys_alt record_access_def dom_update_hm)

lemma insert_keys:
  "string_keys s \<Longrightarrow> is_string k \<Longrightarrow> string_keys (s\<lparr>st_memory_used := u, st_data := AList.update k it (st_data s)\<rparr>)"
  by (auto simp: string_keys_alt dom_update_hm)

lemma delete_keys: "string_keys s \<Longrightarrow> string_keys (fst (delete k s))"
  by (auto simp: string_keys_alt delete_def dom_delete_hm split: option.split)

lemma drop_expired_keys: "string_keys s \<Longrightarrow> string_keys (drop_expired k it s)"
  by (auto simp: string_keys_alt drop_expired_def dom_delete_hm)

lemma ensure_keys: "string_keys s \<Longrightarrow> string_keys (ensure_memory_available now n s)"
  by (rule ensure_preserves) (simp_all add: delete_keys)

lemma delete_all_keys: "string_keys s \<Longrightarrow> string_keys (delete_all ks s)"
  by (rule delete_all_preserves) (simp_all add: delete_keys)

lemma update_in_place_keys: "string_keys s \<Longrightarrow> is_string k \<Longrightarrow> string_keys (update_in_place now k it v n s)"
  by (auto simp: string_keys_alt update_in_place_fields dom_update_hm)

lemma get_keys: "string_keys s \<Longrightarrow> is_string k \<Longrightarrow> string_keys (fst (get now k s))"
  by (simp add: get_def delete_keys record_access_keys split: option.split)

lemma get_multi_loop_keys:
  "string_keys s \<Longrightarrow> list_all is_string ks \<Longrightarrow> string_keys (fst (get_multi_loop now ks s rs es))"
  by (induction now ks s rs es rule: get_multi_loop.induct) (auto simp: record_access_keys split: option.split)

lemma get_multi_keys: "string_keys s \<Longrightarrow> list_all is_string ks \<Longrightarrow> string_keys (fst (get_multi now ks s))"
  using get_multi_loop_keys [of s ks now "[]" "[]"]
  by (auto simp: get_multi_def delete_all_keys split: prod.splits)

lemma set_item_keys: "string_keys s \<Longrightarrow> is_string k \<Longrightarrow> string_keys (fst (set_item now k v f ttl s))"
  using ensure_keys [of "s\<lparr>st_cas_counter := st_cas_counter s + 1\<rparr>" now]
  by (auto simp: set_item_def next_cas_unique_def Let_def record_access_keys insert_keys
      split: outcome.split option.split)

lemma cas_keys: "string_keys s \<Longrightarrow> is_string k \<Longrightarrow> string_keys (fst (cas now k v f ttl t s))"
  using ensure_keys [of "s\<lparr>st_cas_counter := st_cas_counter s + 1, st_memory_used := _\<rparr>" now]
  by (auto simp: cas_def next_cas_unique_def Let_def record_access_keys insert_keys drop_expired_keys
      split: outcome.split option.split)

lemma extend_keys:
  assumes "string_keys s" "is_string k"
  shows "string_keys (fst (append_item now k d s))" "string_keys (fst (prepend_item now k d s))"
  using assms ensure_keys [OF assms(1), of now]
  by (auto simp: append_item_def prepend_item_def Let_def drop_expired_keys update_in_place_keys
      split: option.split)

lemma flush_all_keys: "string_keys s \<Longrightarrow> string_keys (fst (flush_all s))"
  by (simp add: flush_all_def string_keys_def hm_keys_def)

lemmas keys_intros = record_access_keys delete_keys get_keys get_multi_keys set_item_keys cas_keys
  extend_keys flush_all_keys

text \<open>The strings a command hands to the store.\<close>

lemma typed_key_is_string: "key_typed k \<Longrightarrow> is_string k"
  by (simp add: key_typed_def word_is_string)

lemma typed_keys_are_strings: "list_all key_typed ks \<Longrightarrow> list_all is_string ks"
  by (auto simp: list_all_iff typed_key_is_string)

lemma handle_incr_decr_keys:
  "string_keys s \<Longrightarrow> is_string k \<Longrightarrow> string_keys (fst (handle_incr_decr clk k d b s))"
  using get_keys [of s k "clk 0"]
  by (cases "get (clk 0) k s") (auto simp: handle_incr_decr_def Let_def split_beta set_item_keys split: option.split)

lemma execute_command_keys:
  "string_keys s \<Longrightarrow> command_typed c \<Longrightarrow> string_keys (fst (execute_command clk c s))"
  by (cases c) (auto simp: keys_intros handle_incr_decr_keys typed_key_is_string typed_keys_are_strings)

lemma execute_storage_command_keys:
  "string_keys s \<Longrightarrow> command_typed c \<Longrightarrow> string_keys (fst (execute_storage_command clk c d s))"
  by (cases c) (auto simp: keys_intros add_def replace_def typed_key_is_string split: option.split)

lemma answer_store: "fst (answer n out x) = fst x"
  by (simp add: answer_def)

lemma process_memcached_keys:
  assumes "string_keys s"
  shows "string_keys (fst (process_memcached U clk input out s limit))"
proof (cases "mc_parse U input")
  case (Complete c n)
  with mc_parse_typed have c: "command_typed c" by blast
  show ?thesis
    using assms Complete execute_command_keys [OF assms c, of clk] execute_storage_command_keys [OF assms c, of clk]
    by (auto simp: process_memcached_def Let_def answer_store split: option.split outcome.split prod.splits)
next
  case (NeedData cb db)
  then show ?thesis
    using assms execute_storage_command_keys [OF assms parse_with_data_typed]
    by (auto simp: process_memcached_def Let_def answer_store split: outcome.split mc_result.split)
qed (use assms in \<open>simp add: process_memcached_def\<close>)

lemma del_loop_keys: "string_keys s \<Longrightarrow> string_keys (fst (del_loop args s n))"
proof (induction args s n rule: del_loop.induct)
  case (2 k args s n)
  with delete_keys [OF 2(2), of "from_utf8_lossy k"] show ?case
    by (cases "delete (from_utf8_lossy k) s") (auto split: outcome.split)
qed auto

lemma exists_loop_keys: "string_keys s \<Longrightarrow> string_keys (fst (exists_loop clk args s n))"
proof (induction clk args s n rule: exists_loop.induct)
  case (2 clk k args s n)
  with get_keys [OF 2(3) from_utf8_lossy_is_string, of "clk 0" k] show ?case
    by (cases "get (clk 0) (from_utf8_lossy k) s") (auto split: option.split)
qed auto

lemma execute_resp_keys: "string_keys s \<Longrightarrow> string_keys (fst (execute_resp_command U clk frame s))"
  by (auto simp: execute_resp_command_def Let_def del_loop_keys exists_loop_keys flush_all_keys
      set_item_keys from_utf8_lossy_is_string
      split: frame.split option.split prod.split)
    (metis from_utf8_lossy_is_string get_keys fst_conv)+

lemma process_resp_keys:
  "string_keys s \<Longrightarrow> string_keys (fst (process_resp U fsz clk input out s limit))"
  using execute_resp_keys [of s U clk]
  by (auto simp: process_resp_def Let_def split: resp_result.split prod.split outcome.split)
    (metis fst_conv)+

text \<open>
  C20. The keys of the store stay strings. Whatever bytes clients send, as memcached commands or RESP
  frames, valid UTF-8 or not: every key in the items and in the access order is well-formed UTF-8, as
  the type \<^verbatim>\<open>HashMap<String, _>\<close> of the two maps demands, also after a request that fails or panics.
\<close>

theorem keys_stay_strings:
  assumes "string_keys s"
  shows "string_keys (fst (process_memcached U clk input out s limit))
    \<and> string_keys (fst (process_resp U fsz clk input out s limit))"
  using process_memcached_keys [OF assms] process_resp_keys [OF assms] by blast

theorem keys_stay_strings_witness:
  "string_keys (fst (process_resp \<lparr>uni_lower = id, uni_upper = id\<rparr> 32 (\<lambda>_. 0)
     (encode (Array (Some [Bulk (Some ''SET''), Bulk (Some [CHR 0xFF]), Bulk (Some ''v'')]))) []
     (storage_new length 100 0) 100))"
  using keys_stay_strings [of "storage_new length 100 0"]
  by (simp add: string_keys_def storage_new_def hm_keys_def)

end
