(* ===== verification/Connection.thy ===== *)
theory Connection
  imports Request
begin

text \<open>
  Connections and their registry, \<^verbatim>\<open>src/src/runtime/connection.rs\<close>, and the tokens of in-flight
  operations, \<^verbatim>\<open>src/src/runtime/uring/token.rs\<close>. Both keep their entries in a \<^verbatim>\<open>Slab\<close> of the third-party
  crate \<^verbatim>\<open>slab\<close>: it is a parameter, the record \<open>slab_ops\<close> of its operations, and what its
  documentation promises is the hypothesis \<open>slab_laws\<close>. \<open>vec_slab\<close> is a concrete instance that
  satisfies it.
\<close>

section \<open>The slab\<close>

record ('s, 'a) slab_ops =
  sl_new :: 's
  sl_insert :: "'s \<Rightarrow> 'a \<Rightarrow> 's \<times> nat"
  sl_get :: "'s \<Rightarrow> nat \<Rightarrow> 'a option"
  sl_set :: "'s \<Rightarrow> nat \<Rightarrow> 'a \<Rightarrow> 's"
  sl_remove :: "'s \<Rightarrow> nat \<Rightarrow> 's"
  sl_len :: "'s \<Rightarrow> nat"

text \<open>
  The documented behaviour: a new slab is empty; \<^verbatim>\<open>insert\<close> returns a vacant key and stores there;
  writing through \<^verbatim>\<open>get_mut\<close> changes that entry; \<^verbatim>\<open>remove\<close> vacates a key; \<^verbatim>\<open>len\<close> counts the entries.
\<close>

definition slab_laws :: "('s, 'a) slab_ops \<Rightarrow> ('s \<Rightarrow> bool) \<Rightarrow> bool" where
  "slab_laws S ok =
     (ok (sl_new S) \<and> sl_get S (sl_new S) = Map.empty \<and>
      (\<forall>s a s' k. ok s \<and> sl_insert S s a = (s', k) \<longrightarrow>
         ok s' \<and> sl_get S s k = None \<and> sl_get S s' = (sl_get S s)(k \<mapsto> a)) \<and>
      (\<forall>s k a. ok s \<and> sl_get S s k \<noteq> None \<longrightarrow>
         ok (sl_set S s k a) \<and> sl_get S (sl_set S s k a) = (sl_get S s)(k \<mapsto> a)) \<and>
      (\<forall>s k. ok s \<and> sl_get S s k \<noteq> None \<longrightarrow>
         ok (sl_remove S s k) \<and> sl_get S (sl_remove S s k) = (sl_get S s)(k := None)) \<and>
      (\<forall>s. ok s \<longrightarrow> finite (dom (sl_get S s)) \<and> sl_len S s = card (dom (sl_get S s))))"

lemma slab_new: "slab_laws S ok \<Longrightarrow> ok (sl_new S) \<and> sl_get S (sl_new S) = Map.empty"
  by (simp add: slab_laws_def)

lemma slab_insert:
  "slab_laws S ok \<Longrightarrow> ok s \<Longrightarrow> sl_insert S s a = (s', k) \<Longrightarrow>
    ok s' \<and> sl_get S s k = None \<and> sl_get S s' = (sl_get S s)(k \<mapsto> a)"
  unfolding slab_laws_def by blast

lemma slab_set:
  "slab_laws S ok \<Longrightarrow> ok s \<Longrightarrow> sl_get S s k = Some b \<Longrightarrow>
    ok (sl_set S s k a) \<and> sl_get S (sl_set S s k a) = (sl_get S s)(k \<mapsto> a)"
  unfolding slab_laws_def by blast

lemma slab_remove:
  "slab_laws S ok \<Longrightarrow> ok s \<Longrightarrow> sl_get S s k = Some b \<Longrightarrow>
    ok (sl_remove S s k) \<and> sl_get S (sl_remove S s k) = (sl_get S s)(k := None)"
  unfolding slab_laws_def by blast

lemma slab_len:
  "slab_laws S ok \<Longrightarrow> ok s \<Longrightarrow> finite (dom (sl_get S s)) \<and> sl_len S s = card (dom (sl_get S s))"
  unfolding slab_laws_def by blast

subsection \<open>An instance\<close>

text \<open>A vector of optional entries; a new entry goes to the first vacant place.\<close>

fun vec_vacant :: "'a option list \<Rightarrow> nat" where
  "vec_vacant [] = 0"
| "vec_vacant (None # xs) = 0"
| "vec_vacant (Some a # xs) = Suc (vec_vacant xs)"

definition vec_get :: "'a option list \<Rightarrow> nat \<Rightarrow> 'a option" where
  "vec_get xs k = (if k < length xs then xs ! k else None)"

definition vec_slab :: "('a option list, 'a) slab_ops" where
  "vec_slab =
     \<lparr>sl_new = [],
      sl_insert = \<lambda>xs a. (let k = vec_vacant xs in
        (if k < length xs then xs[k := Some a] else xs @ [Some a], k)),
      sl_get = vec_get,
      sl_set = \<lambda>xs k a. xs[k := Some a],
      sl_remove = \<lambda>xs k. xs[k := None],
      sl_len = \<lambda>xs. length (filter (\<lambda>x. x \<noteq> None) xs)\<rparr>"

lemma vec_vacant_le: "vec_vacant xs \<le> length xs"
  by (induction xs rule: vec_vacant.induct) auto

lemma vec_vacant_free: "vec_get xs (vec_vacant xs) = None"
  by (induction xs rule: vec_vacant.induct) (auto simp: vec_get_def)

lemma vec_len: "finite (dom (vec_get xs)) \<and> length (filter (\<lambda>x. x \<noteq> None) xs) = card (dom (vec_get xs))"
proof -
  have "dom (vec_get xs) = {i. i < length xs \<and> xs ! i \<noteq> None}" by (auto simp: vec_get_def dom_def)
  then show ?thesis by (simp add: length_filter_conv_card)
qed

lemma vec_insert:
  "vec_get (if vec_vacant xs < length xs then xs[vec_vacant xs := Some a] else xs @ [Some a])
    = (vec_get xs)(vec_vacant xs \<mapsto> a)"
proof (cases "vec_vacant xs < length xs")
  case True
  then show ?thesis by (auto simp: vec_get_def fun_eq_iff nth_list_update)
next
  case False
  with vec_vacant_le [of xs] have "vec_vacant xs = length xs" by simp
  then show ?thesis by (auto simp: vec_get_def fun_eq_iff nth_append less_Suc_eq)
qed

lemma vec_update: "vec_get xs k = Some b \<Longrightarrow> vec_get (xs[k := v]) = (vec_get xs)(k := v)"
  by (auto simp: vec_get_def fun_eq_iff nth_list_update split: if_splits)

lemma vec_slab_laws: "slab_laws vec_slab (\<lambda>_. True)"
  unfolding slab_laws_def vec_slab_def
  using vec_vacant_free vec_len
  by (auto simp: Let_def vec_update vec_insert split del: if_split, simp add: vec_get_def fun_eq_iff)

section \<open>Connections\<close>

datatype data_state = Reading nat | Writing nat nat nat

definition ds_reading :: data_state where
  "ds_reading = Reading 0"

definition ds_reading_with :: "nat \<Rightarrow> data_state" where
  "ds_reading_with filled = Reading filled"

definition ds_writing :: "nat \<Rightarrow> nat \<Rightarrow> data_state" where
  "ds_writing buf_idx total_bytes = Writing buf_idx 0 total_bytes"

datatype conn_phase = Accepting | Handshaking | Established data_state | Closing

definition phase_established :: conn_phase where
  "phase_established = Established ds_reading"

definition is_established :: "conn_phase \<Rightarrow> bool" where
  "is_established ph = (case ph of Established _ \<Rightarrow> True | _ \<Rightarrow> False)"

definition is_closing :: "conn_phase \<Rightarrow> bool" where
  "is_closing ph = (ph = Closing)"

definition data_state_of :: "conn_phase \<Rightarrow> data_state option" where
  "data_state_of ph = (case ph of Established st \<Rightarrow> Some st | _ \<Rightarrow> None)"

record connection =
  cn_fd :: int
  cn_phase :: conn_phase
  cn_protocol :: protocol
  cn_read_buf_idx :: "nat option"
  cn_read_accumulated :: nat

definition connection_new :: "int \<Rightarrow> protocol \<Rightarrow> connection" where
  "connection_new fd proto =
     \<lparr>cn_fd = fd, cn_phase = phase_established, cn_protocol = proto, cn_read_buf_idx = None,
      cn_read_accumulated = 0\<rparr>"

definition connection_new_accepting :: "int \<Rightarrow> protocol \<Rightarrow> connection" where
  "connection_new_accepting fd proto =
     \<lparr>cn_fd = fd, cn_phase = Accepting, cn_protocol = proto, cn_read_buf_idx = None,
      cn_read_accumulated = 0\<rparr>"

definition establish :: "connection \<Rightarrow> connection" where
  "establish c = c\<lparr>cn_phase := phase_established\<rparr>"

definition start_writing :: "nat \<Rightarrow> nat \<Rightarrow> connection \<Rightarrow> connection outcome" where
  "start_writing buf_idx total_bytes c =
     (case cn_phase c of
        Established _ \<Rightarrow> Returned (c\<lparr>cn_phase := Established (ds_writing buf_idx total_bytes)\<rparr>)
      | _ \<Rightarrow> Panicked)"

definition start_reading :: "connection \<Rightarrow> connection outcome" where
  "start_reading c =
     (case cn_phase c of
        Established _ \<Rightarrow> Returned (c\<lparr>cn_phase := Established ds_reading\<rparr>)
      | _ \<Rightarrow> Panicked)"

definition connection_close :: "connection \<Rightarrow> connection" where
  "connection_close c = c\<lparr>cn_phase := Closing\<rparr>"

definition is_reading :: "connection \<Rightarrow> bool" where
  "is_reading c = (case cn_phase c of Established (Reading _) \<Rightarrow> True | _ \<Rightarrow> False)"

definition is_writing :: "connection \<Rightarrow> bool" where
  "is_writing c = (case cn_phase c of Established (Writing _ _ _) \<Rightarrow> True | _ \<Rightarrow> False)"

definition write_state :: "connection \<Rightarrow> (nat \<times> nat \<times> nat) option" where
  "write_state c =
     (case cn_phase c of Established (Writing buf_idx written total_bytes) \<Rightarrow> Some (buf_idx, written, total_bytes)
      | _ \<Rightarrow> None)"

definition advance_write :: "nat \<Rightarrow> connection \<Rightarrow> connection \<times> bool" where
  "advance_write n c =
     (case cn_phase c of
        Established (Writing buf_idx written total_bytes) \<Rightarrow>
          (let written' = uadd written n
           in (c\<lparr>cn_phase := Established (Writing buf_idx written' total_bytes)\<rparr>, written' \<ge> total_bytes))
      | _ \<Rightarrow> (c, False))"

section \<open>The registry\<close>

record 's registry =
  rg_connections :: 's
  rg_max_connections :: nat

definition registry_new :: "('s, connection) slab_ops \<Rightarrow> nat \<Rightarrow> 's registry" where
  "registry_new S n = \<lparr>rg_connections = sl_new S, rg_max_connections = n\<rparr>"

definition registry_insert ::
  "('s, connection) slab_ops \<Rightarrow> connection \<Rightarrow> 's registry \<Rightarrow> 's registry \<times> nat option" where
  "registry_insert S conn r =
     (if sl_len S (rg_connections r) \<ge> rg_max_connections r then (r, None)
      else (let (s', cid) = sl_insert S (rg_connections r) conn
            in (r\<lparr>rg_connections := s'\<rparr>, Some cid)))"

definition registry_get :: "('s, connection) slab_ops \<Rightarrow> nat \<Rightarrow> 's registry \<Rightarrow> connection option" where
  "registry_get S cid r = sl_get S (rg_connections r) cid"

text \<open>Assignment through \<^verbatim>\<open>get_mut\<close>.\<close>

definition registry_set ::
  "('s, connection) slab_ops \<Rightarrow> nat \<Rightarrow> connection \<Rightarrow> 's registry \<Rightarrow> 's registry" where
  "registry_set S cid conn r =
     (if sl_get S (rg_connections r) cid = None then r
      else r\<lparr>rg_connections := sl_set S (rg_connections r) cid conn\<rparr>)"

definition registry_remove ::
  "('s, connection) slab_ops \<Rightarrow> nat \<Rightarrow> 's registry \<Rightarrow> 's registry \<times> connection option" where
  "registry_remove S cid r =
     (case sl_get S (rg_connections r) cid of
        Some c \<Rightarrow> (r\<lparr>rg_connections := sl_remove S (rg_connections r) cid\<rparr>, Some c)
      | None \<Rightarrow> (r, None))"

definition registry_contains :: "('s, connection) slab_ops \<Rightarrow> nat \<Rightarrow> 's registry \<Rightarrow> bool" where
  "registry_contains S cid r = (sl_get S (rg_connections r) cid \<noteq> None)"

definition registry_len :: "('s, connection) slab_ops \<Rightarrow> 's registry \<Rightarrow> nat" where
  "registry_len S r = sl_len S (rg_connections r)"

definition registry_is_empty :: "('s, connection) slab_ops \<Rightarrow> 's registry \<Rightarrow> bool" where
  "registry_is_empty S r = (sl_len S (rg_connections r) = 0)"

definition registry_capacity :: "'s registry \<Rightarrow> nat" where
  "registry_capacity r = rg_max_connections r"

section \<open>Tokens\<close>

datatype op_type = OpAccept | OpRead nat | OpWrite nat nat

definition token_alloc :: "('s, op_type) slab_ops \<Rightarrow> op_type \<Rightarrow> 's \<Rightarrow> 's \<times> u64" where
  "token_alloc S op ops = (let (ops', k) = sl_insert S ops op in (ops', of_nat k))"

definition token_get :: "('s, op_type) slab_ops \<Rightarrow> u64 \<Rightarrow> 's \<Rightarrow> op_type option" where
  "token_get S token ops = sl_get S ops (unat token)"

definition token_free :: "('s, op_type) slab_ops \<Rightarrow> u64 \<Rightarrow> 's \<Rightarrow> 's \<times> op_type option" where
  "token_free S token ops =
     (case sl_get S ops (unat token) of
        Some op \<Rightarrow> (sl_remove S ops (unat token), Some op)
      | None \<Rightarrow> (ops, None))"

definition token_len :: "('s, op_type) slab_ops \<Rightarrow> 's \<Rightarrow> nat" where
  "token_len S ops = sl_len S ops"

end
