(* ===== verification/Buffer.thy ===== *)
theory Buffer
  imports Prelude
begin

text \<open>
  The per-worker buffer pool and the chains of buffers for large values,
  \<^verbatim>\<open>src/src/runtime/buffer.rs\<close>. The pool keeps its buffers in one vector and hands out indices from
  a stack; a chain is a list of indices with the number of bytes stored. A mutable reference to
  a buffer is an update of the pool. \<open>debug_assert!\<close> does nothing in a release build.

  The theory states what a pool promises as the locale \<open>index_pool\<close> (nobody gets an index that
  somebody holds, and none is lost), and shows that a chain holds exactly the bytes appended to
  it, in order, across any number of buffers, until it is released.
\<close>

section \<open>The pool\<close>

record buffer_pool =
  bp_buffers :: "bytes list"
  bp_free_list :: "nat list"
  bp_buffer_size :: nat

definition pool_new :: "nat \<Rightarrow> nat \<Rightarrow> buffer_pool" where
  "pool_new count sz =
     \<lparr>bp_buffers = replicate count (replicate sz (CHR 0x00)), bp_free_list = [0..<count],
      bp_buffer_size = sz\<rparr>"

definition pool_alloc :: "buffer_pool \<Rightarrow> buffer_pool \<times> nat option" where
  "pool_alloc p =
     (if bp_free_list p = [] then (p, None)
      else (p\<lparr>bp_free_list := butlast (bp_free_list p)\<rparr>, Some (last (bp_free_list p))))"

definition pool_free :: "nat \<Rightarrow> buffer_pool \<Rightarrow> buffer_pool" where
  "pool_free idx p = p\<lparr>bp_free_list := bp_free_list p @ [idx]\<rparr>"

definition pool_get :: "buffer_pool \<Rightarrow> nat \<Rightarrow> bytes outcome" where
  "pool_get p idx = (if idx < length (bp_buffers p) then Returned (bp_buffers p ! idx) else Panicked)"

text \<open>Write access through \<^verbatim>\<open>get_mut\<close>: the buffer is replaced by a changed one.\<close>

definition pool_set :: "nat \<Rightarrow> bytes \<Rightarrow> buffer_pool \<Rightarrow> buffer_pool" where
  "pool_set idx b p = p\<lparr>bp_buffers := (bp_buffers p)[idx := b]\<rparr>"

definition pool_capacity :: "buffer_pool \<Rightarrow> nat" where
  "pool_capacity p = length (bp_buffers p)"

definition pool_available :: "buffer_pool \<Rightarrow> nat" where
  "pool_available p = length (bp_free_list p)"

fun alloc_loop :: "nat \<Rightarrow> buffer_pool \<Rightarrow> nat list \<Rightarrow> (buffer_pool \<times> nat list) outcome" where
  "alloc_loop 0 p indices = Returned (p, indices)"
| "alloc_loop (Suc n) p indices =
     (case pool_alloc p of
        (p', Some idx) \<Rightarrow> alloc_loop n p' (indices @ [idx])
      | (p', None) \<Rightarrow> Panicked)"

definition alloc_many :: "nat \<Rightarrow> buffer_pool \<Rightarrow> (buffer_pool \<times> nat list option) outcome" where
  "alloc_many count p =
     (if length (bp_free_list p) < count then Returned (p, None)
      else map_outcome (\<lambda>(p', indices). (p', Some indices)) (alloc_loop count p []))"

fun free_many :: "nat list \<Rightarrow> buffer_pool \<Rightarrow> buffer_pool" where
  "free_many [] p = p"
| "free_many (idx # indices) p = free_many indices (pool_free idx p)"

section \<open>Chains\<close>

datatype chain_error = PoolExhausted | ValueTooLarge

record buffer_chain =
  bc_buffers :: "nat list"
  bc_len :: nat
  bc_buffer_size :: nat

definition chain_new :: "nat \<Rightarrow> buffer_chain" where
  "chain_new sz = \<lparr>bc_buffers = [], bc_len = 0, bc_buffer_size = sz\<rparr>"

definition chain_with_buffer :: "nat \<Rightarrow> nat \<Rightarrow> buffer_chain" where
  "chain_with_buffer idx sz = \<lparr>bc_buffers = [idx], bc_len = 0, bc_buffer_size = sz\<rparr>"

text \<open>The remainder by a buffer size of zero panics.\<close>

definition current_buffer_and_offset ::
  "buffer_chain \<Rightarrow> buffer_pool \<Rightarrow> (buffer_chain \<times> buffer_pool \<times> (chain_error + nat \<times> nat)) outcome" where
  "current_buffer_and_offset c p =
     (if bc_buffers c = []
      then (case pool_alloc p of
              (p', None) \<Rightarrow> Returned (c, p', Inl PoolExhausted)
            | (p', Some idx) \<Rightarrow> Returned (c\<lparr>bc_buffers := bc_buffers c @ [idx]\<rparr>, p', Inr (idx, 0)))
      else if bc_buffer_size c = 0 then Panicked
      else let offset_in_last = bc_len c mod bc_buffer_size c in
           if offset_in_last = 0 \<and> bc_len c > 0
           then (case pool_alloc p of
                   (p', None) \<Rightarrow> Returned (c, p', Inl PoolExhausted)
                 | (p', Some idx) \<Rightarrow> Returned (c\<lparr>bc_buffers := bc_buffers c @ [idx]\<rparr>, p', Inr (idx, 0)))
           else Returned (c, p, Inr (last (bc_buffers c), offset_in_last)))"

lemma current_buffer_offset:
  assumes "current_buffer_and_offset c p = Returned (c', p', Inr (idx, off))"
  shows "bc_buffers c' \<noteq> [] \<and> bc_buffer_size c' = bc_buffer_size c \<and> bc_len c' = bc_len c \<and>
    (bc_buffer_size c = 0 \<longrightarrow> bc_buffers c = []) \<and> (0 < bc_buffer_size c \<longrightarrow> off < bc_buffer_size c)"
  using assms
  by (auto simp: current_buffer_and_offset_def pool_alloc_def Let_def split: if_splits)

text \<open>
  The loop of \<^verbatim>\<open>append\<close> on the data that is left. With a buffer size above zero every round copies
  at least one byte; with size zero the second round panics.
\<close>

function append_loop ::
  "bytes \<Rightarrow> buffer_chain \<Rightarrow> buffer_pool \<Rightarrow> (buffer_chain \<times> buffer_pool \<times> chain_error option) outcome" where
  "append_loop data c p =
     (if data = [] then Returned (c, p, None)
      else (case current_buffer_and_offset c p of
              Panicked \<Rightarrow> Panicked
            | Returned (c1, p1, Inl e) \<Rightarrow> Returned (c1, p1, Some e)
            | Returned (c1, p1, Inr (idx, off)) \<Rightarrow>
                (case pool_get p1 idx of
                   Panicked \<Rightarrow> Panicked
                 | Returned buf \<Rightarrow>
                     let available = bc_buffer_size c1 - off;
                         to_copy = min available (length data)
                     in if off + to_copy > length buf then Panicked
                        else append_loop (drop to_copy data) (c1\<lparr>bc_len := bc_len c1 + to_copy\<rparr>)
                               (pool_set idx (blit off (take to_copy data) buf) p1))))"
  by pat_completeness auto
termination
  by (relation "measures [\<lambda>(d, c, p). length d, \<lambda>(d, c, p). if bc_buffers c = [] then 1 else 0]")
    (auto dest!: current_buffer_offset)

declare append_loop.simps [simp del]

definition chain_append ::
  "bytes \<Rightarrow> buffer_chain \<Rightarrow> buffer_pool \<Rightarrow> (buffer_chain \<times> buffer_pool \<times> chain_error option) outcome" where
  "chain_append data c p = append_loop data c p"

fun assemble_loop :: "nat list \<Rightarrow> nat \<Rightarrow> nat \<Rightarrow> buffer_pool \<Rightarrow> bytes outcome" where
  "assemble_loop [] remaining sz p = Returned []"
| "assemble_loop (idx # indices) remaining sz p =
     (case pool_get p idx of
        Panicked \<Rightarrow> Panicked
      | Returned buf \<Rightarrow>
          let chunk_len = min remaining sz in
          if chunk_len > length buf then Panicked
          else map_outcome ((@) (take chunk_len buf)) (assemble_loop indices (remaining - chunk_len) sz p))"

definition chain_assemble :: "buffer_chain \<Rightarrow> buffer_pool \<Rightarrow> bytes outcome" where
  "chain_assemble c p = assemble_loop (bc_buffers c) (bc_len c) (bc_buffer_size c) p"

definition as_contiguous :: "buffer_chain \<Rightarrow> buffer_pool \<Rightarrow> bytes outcome" where
  "as_contiguous c p =
     (case bc_buffers c of
        [] \<Rightarrow> Returned []
      | [idx] \<Rightarrow>
          (case pool_get p idx of
             Panicked \<Rightarrow> Panicked
           | Returned buf \<Rightarrow> slice 0 (bc_len c) buf)
      | _ \<Rightarrow> chain_assemble c p)"

text \<open>The slices of \<^verbatim>\<open>chunks\<close>, one per buffer.\<close>

fun chunks_loop :: "nat list \<Rightarrow> nat \<Rightarrow> nat \<Rightarrow> buffer_pool \<Rightarrow> bytes list outcome" where
  "chunks_loop [] remaining sz p = Returned []"
| "chunks_loop (idx # indices) remaining sz p =
     (case pool_get p idx of
        Panicked \<Rightarrow> Panicked
      | Returned buf \<Rightarrow>
          let chunk_len = min remaining sz in
          if chunk_len > length buf then Panicked
          else map_outcome ((#) (take chunk_len buf)) (chunks_loop indices (remaining - chunk_len) sz p))"

definition chain_chunks :: "buffer_chain \<Rightarrow> buffer_pool \<Rightarrow> bytes list outcome" where
  "chain_chunks c p = chunks_loop (bc_buffers c) (bc_len c) (bc_buffer_size c) p"

text \<open>
  The loop of \<^verbatim>\<open>io_slices\<close>. The first slice expression, \<^verbatim>\<open>&buf[skip..skip + chunk_len - skip.min(chunk_len)]\<close>,
  has the end \<open>chunk_len\<close> because \<open>skip < chunk_len\<close> there.
\<close>

fun io_slices_loop :: "nat list \<Rightarrow> nat \<Rightarrow> nat \<Rightarrow> nat \<Rightarrow> buffer_pool \<Rightarrow> bytes list outcome" where
  "io_slices_loop [] skip remaining sz p = Returned []"
| "io_slices_loop (idx # indices) skip remaining sz p =
     (case pool_get p idx of
        Panicked \<Rightarrow> Panicked
      | Returned buf \<Rightarrow>
          let chunk_len = min remaining sz in
          if skip \<ge> chunk_len then io_slices_loop indices (skip - chunk_len) remaining sz p
          else (case slice skip (skip + chunk_len - min skip chunk_len) buf of
                  Panicked \<Rightarrow> Panicked
                | Returned sl \<Rightarrow>
                    map_outcome ((@) (if sl \<noteq> [] then [sl] else []))
                      (io_slices_loop indices 0 (remaining - chunk_len) sz p)))"

definition io_slices :: "buffer_chain \<Rightarrow> buffer_pool \<Rightarrow> nat \<Rightarrow> bytes list outcome" where
  "io_slices c p start_offset =
     (if start_offset \<ge> bc_len c then Returned []
      else io_slices_loop (bc_buffers c) start_offset (bc_len c - start_offset) (bc_buffer_size c) p)"

definition chain_clear :: "buffer_chain \<Rightarrow> buffer_chain" where
  "chain_clear c = c\<lparr>bc_len := 0\<rparr>"

definition chain_release :: "buffer_chain \<Rightarrow> buffer_pool \<Rightarrow> buffer_chain \<times> buffer_pool" where
  "chain_release c p = (c\<lparr>bc_buffers := [], bc_len := 0\<rparr>, free_many (bc_buffers c) p)"

definition take_buffers :: "buffer_chain \<Rightarrow> buffer_chain \<times> nat list" where
  "take_buffers c = (c\<lparr>bc_buffers := [], bc_len := 0\<rparr>, bc_buffers c)"

definition set_len :: "nat \<Rightarrow> buffer_chain \<Rightarrow> buffer_chain" where
  "set_len n c = c\<lparr>bc_len := n\<rparr>"

definition push_buffer :: "nat \<Rightarrow> buffer_chain \<Rightarrow> buffer_chain" where
  "push_buffer idx c = c\<lparr>bc_buffers := bc_buffers c @ [idx]\<rparr>"

definition first_n_bytes :: "nat \<Rightarrow> buffer_chain \<Rightarrow> buffer_pool \<Rightarrow> bytes option outcome" where
  "first_n_bytes n c p =
     (if bc_len c < n then Returned None
      else if n \<le> bc_buffer_size c \<and> bc_buffers c \<noteq> []
      then (case pool_get p (bc_buffers c ! 0) of
              Panicked \<Rightarrow> Panicked
            | Returned buf \<Rightarrow> map_outcome Some (slice 0 n buf))
      else Returned None)"

section \<open>What a pool promises\<close>

text \<open>
  The ledger of a client: the indices it holds. Every allocation adds one, every return takes
  one off.
\<close>

datatype pool_op = Take | Give nat

fun own_step ::
  "('p \<Rightarrow> 'p \<times> nat option) \<Rightarrow> (nat \<Rightarrow> 'p \<Rightarrow> 'p) \<Rightarrow> pool_op \<Rightarrow> 'p \<times> nat set \<Rightarrow>
   ('p \<times> nat set) \<times> nat option" where
  "own_step alloc give Take (p, held) =
     (case alloc p of
        (p', Some i) \<Rightarrow> ((p', insert i held), Some i)
      | (p', None) \<Rightarrow> ((p', held), None))"
| "own_step alloc give (Give i) (p, held) = ((give i p, held - {i}), None)"

fun gives_own :: "pool_op \<Rightarrow> 'p \<times> nat set \<Rightarrow> bool" where
  "gives_own Take x = True"
| "gives_own (Give i) x = (i \<in> snd x)"

locale index_pool =
  fixes alloc :: "'p \<Rightarrow> 'p \<times> nat option"
    and give :: "nat \<Rightarrow> 'p \<Rightarrow> 'p"
    and frees :: "'p \<Rightarrow> nat set"
    and indices :: "'p \<Rightarrow> nat set"
    and ok :: "'p \<Rightarrow> bool"
  assumes alloc_Some: "ok p \<Longrightarrow> alloc p = (p', Some i) \<Longrightarrow>
      ok p' \<and> i \<in> frees p \<and> frees p' = frees p - {i} \<and> indices p' = indices p"
    and alloc_None: "ok p \<Longrightarrow> alloc p = (p', None) \<Longrightarrow> p' = p \<and> frees p = {}"
    and give: "ok p \<Longrightarrow> i \<in> indices p \<Longrightarrow> i \<notin> frees p \<Longrightarrow>
      ok (give i p) \<and> frees (give i p) = insert i (frees p) \<and> indices (give i p) = indices p"
    and frees_indices: "ok p \<Longrightarrow> frees p \<subseteq> indices p"
begin

definition accounted :: "nat set \<Rightarrow> 'p \<times> nat set \<Rightarrow> bool" where
  "accounted I x =
     (ok (fst x) \<and> indices (fst x) = I \<and> snd x \<inter> frees (fst x) = {} \<and> snd x \<union> frees (fst x) = I)"

lemma accounted_step:
  assumes "accounted I x" "gives_own op x"
  shows "accounted I (fst (own_step alloc give op x))"
proof (cases op)
  case Take
  obtain p held p' r where x: "x = (p, held)" "alloc p = (p', r)" by (metis surj_pair)
  show ?thesis
  proof (cases r)
    case None
    with assms Take x alloc_None [of p p'] show ?thesis by (auto simp: accounted_def)
  next
    case (Some i)
    with assms Take x alloc_Some [of p p' i] show ?thesis by (auto simp: accounted_def)
  qed
next
  case (Give i)
  obtain p held where x: "x = (p, held)" by (metis surj_pair)
  have "ok p" "i \<in> indices p" "i \<notin> frees p" using assms Give x by (auto simp: accounted_def)
  with give [OF this] assms Give x show ?thesis by (auto simp: accounted_def)
qed

lemma take_not_held: "accounted I (p, held) \<Longrightarrow> alloc p = (p', Some i) \<Longrightarrow> i \<notin> held \<and> i \<in> I"
  using alloc_Some frees_indices by (fastforce simp: accounted_def)

end

sublocale index_pool \<subseteq> stepwise_invariant "own_step alloc give" gives_own "accounted I" for I
  by unfold_locales (rule accounted_step)

definition pool_ok :: "buffer_pool \<Rightarrow> bool" where
  "pool_ok p =
     (distinct (bp_free_list p) \<and> list_all (\<lambda>i. i < length (bp_buffers p)) (bp_free_list p) \<and>
      list_all (\<lambda>b. length b = bp_buffer_size p) (bp_buffers p))"

lemma pool_new_ok: "pool_ok (pool_new count sz)"
  by (simp add: pool_ok_def pool_new_def list_all_iff)

interpretation buffers: index_pool pool_alloc pool_free "\<lambda>p. set (bp_free_list p)"
  "\<lambda>p. {..<length (bp_buffers p)}" pool_ok
proof
  fix p p' i
  assume ok: "pool_ok p" and a: "pool_alloc p = (p', Some i)"
  then obtain xs where "bp_free_list p = xs @ [i]" "p' = p\<lparr>bp_free_list := xs\<rparr>"
    by (auto simp: pool_alloc_def split: if_splits) (metis append_butlast_last_id)
  with ok show "pool_ok p' \<and> i \<in> set (bp_free_list p) \<and>
      set (bp_free_list p') = set (bp_free_list p) - {i} \<and>
      {..<length (bp_buffers p')} = {..<length (bp_buffers p)}"
    by (auto simp: pool_ok_def)
qed (auto simp: pool_alloc_def pool_free_def pool_ok_def list_all_iff split: if_splits)

section \<open>What a chain holds\<close>

definition chain_bytes :: "buffer_chain \<Rightarrow> buffer_pool \<Rightarrow> bytes" where
  "chain_bytes c p = concat (map ((!) (bp_buffers p)) (bc_buffers c))"

definition chain_data :: "buffer_chain \<Rightarrow> buffer_pool \<Rightarrow> bytes" where
  "chain_data c p = take (bc_len c) (chain_bytes c p)"

text \<open>
  The invariant of a chain that is filled by \<^verbatim>\<open>append\<close>: its buffers are its own, and only the
  last one has room.
\<close>

definition chain_owns :: "buffer_chain \<Rightarrow> buffer_pool \<Rightarrow> bool" where
  "chain_owns c p =
     (pool_ok p \<and> bc_buffer_size c = bp_buffer_size p \<and> 0 < bc_buffer_size c \<and>
      distinct (bc_buffers c) \<and> list_all (\<lambda>i. i < length (bp_buffers p)) (bc_buffers c) \<and>
      set (bc_buffers c) \<inter> set (bp_free_list p) = {})"

definition chain_inv :: "buffer_chain \<Rightarrow> buffer_pool \<Rightarrow> bool" where
  "chain_inv c p =
     (chain_owns c p \<and> bc_len c \<le> length (bc_buffers c) * bc_buffer_size c \<and>
      (if bc_len c = 0 then length (bc_buffers c) \<le> 1
       else (length (bc_buffers c) - 1) * bc_buffer_size c < bc_len c))"

lemma chain_new_inv: "pool_ok p \<Longrightarrow> 0 < bp_buffer_size p \<Longrightarrow> chain_inv (chain_new (bp_buffer_size p)) p"
  by (simp add: chain_inv_def chain_owns_def chain_new_def)

lemma chain_new_data [simp]: "chain_data (chain_new n) p = []"
  by (simp add: chain_data_def chain_new_def)

lemma length_concat_uniform:
  "\<forall>i\<in>set is. length (f i) = n \<Longrightarrow> length (concat (map f is)) = length is * n"
  by (induction "is") auto

lemma chain_owns_buffer: "chain_owns c p \<Longrightarrow> i \<in> set (bc_buffers c) \<Longrightarrow>
    length (bp_buffers p ! i) = bc_buffer_size c \<and> i < length (bp_buffers p)"
  by (auto simp: chain_owns_def pool_ok_def list_all_iff)

lemma length_chain_bytes: "chain_owns c p \<Longrightarrow> length (chain_bytes c p) = length (bc_buffers c) * bc_buffer_size c"
  unfolding chain_bytes_def by (rule length_concat_uniform) (simp add: chain_owns_buffer)

lemma length_chain_data: "chain_inv c p \<Longrightarrow> length (chain_data c p) = bc_len c"
  by (simp add: chain_data_def chain_inv_def length_chain_bytes)

subsection \<open>Appending\<close>

text \<open>Where the next byte goes: the last buffer, after the bytes already there.\<close>

definition cursor :: "buffer_chain \<Rightarrow> buffer_pool \<Rightarrow> nat \<Rightarrow> nat \<Rightarrow> bool" where
  "cursor c p idx off =
     (chain_owns c p \<and> bc_buffers c \<noteq> [] \<and> last (bc_buffers c) = idx \<and> off < bc_buffer_size c \<and>
      bc_len c = (length (bc_buffers c) - 1) * bc_buffer_size c + off)"

lemma chain_inv_full:
  "chain_inv c p \<Longrightarrow> bc_buffers c \<noteq> [] \<Longrightarrow> bc_len c mod bc_buffer_size c = 0 \<Longrightarrow> 0 < bc_len c \<Longrightarrow>
    bc_len c = length (bc_buffers c) * bc_buffer_size c"
proof -
  assume inv: "chain_inv c p" and ne: "bc_buffers c \<noteq> []"
    and m: "bc_len c mod bc_buffer_size c = 0" "0 < bc_len c"
  from m obtain q where q: "bc_len c = q * bc_buffer_size c" by (metis mult.commute mod_0_imp_dvd dvd_def)
  with inv m have "q \<le> length (bc_buffers c)" "length (bc_buffers c) - 1 < q"
    by (auto simp: chain_inv_def chain_owns_def)
  with ne have "q = length (bc_buffers c)" by simp
  with q show ?thesis by simp
qed

lemma chain_inv_partial:
  assumes "chain_inv c p" "bc_buffers c \<noteq> []" "bc_len c = 0 \<or> bc_len c mod bc_buffer_size c \<noteq> 0"
  shows "cursor c p (last (bc_buffers c)) (bc_len c mod bc_buffer_size c)"
proof -
  let ?b = "bc_buffer_size c" and ?n = "length (bc_buffers c) - 1"
  have b: "0 < ?b" using assms(1) by (simp add: chain_inv_def chain_owns_def)
  have "bc_len c div ?b = ?n"
  proof (cases "bc_len c = 0")
    case False
    then have lo: "?n * ?b < bc_len c" and hi: "bc_len c \<le> Suc ?n * ?b" and "bc_len c \<noteq> Suc ?n * ?b"
      using assms by (auto simp: chain_inv_def Suc_diff_1)
    then have "bc_len c < Suc ?n * ?b" by simp
    then have "bc_len c div ?b < Suc ?n" using b by (simp add: div_less_iff_less_mult)
    moreover have "?n \<le> bc_len c div ?b" using lo b by (simp add: less_eq_div_iff_mult_less_eq)
    ultimately show ?thesis by simp
  qed (use assms in \<open>auto simp: chain_inv_def\<close>)
  then have "bc_len c = ?n * ?b + bc_len c mod ?b" by (metis div_mult_mod_eq)
  with assms b show ?thesis by (simp add: cursor_def chain_inv_def)
qed

lemma alloc_extends:
  assumes "chain_owns c p" "pool_alloc p = (p', Some i)"
  shows "chain_owns (c\<lparr>bc_buffers := bc_buffers c @ [i]\<rparr>) p'" "bp_buffers p' = bp_buffers p"
    "set (bp_free_list p') = set (bp_free_list p) - {i}" "i \<in> set (bp_free_list p)"
    "bp_buffer_size p' = bp_buffer_size p"
proof -
  have ok: "pool_ok p" using assms(1) by (simp add: chain_owns_def)
  have same: "bp_buffers p' = bp_buffers p" "bp_buffer_size p' = bp_buffer_size p"
    using assms(2) by (auto simp: pool_alloc_def split: if_splits)
  note a = buffers.alloc_Some [OF ok assms(2)]
  then have "i < length (bp_buffers p)" using ok by (auto simp: pool_ok_def list_all_iff)
  with assms(1) a same show "chain_owns (c\<lparr>bc_buffers := bc_buffers c @ [i]\<rparr>) p'"
    by (auto simp: chain_owns_def)
  show "bp_buffers p' = bp_buffers p" "bp_buffer_size p' = bp_buffer_size p" by (fact same)+
  show "set (bp_free_list p') = set (bp_free_list p) - {i}" "i \<in> set (bp_free_list p)" using a by simp_all
qed

text \<open>
  The next place to write: either the chain is full and the pool is empty, or the cursor stands
  in the last buffer of a chain that has grown by at most one buffer of the pool.
\<close>

lemma current_buffer_cases:
  assumes "chain_inv c p"
  obtains (exhausted) "current_buffer_and_offset c p = Returned (c, p, Inl PoolExhausted)"
      "bp_free_list p = []" "bc_len c = length (bc_buffers c) * bc_buffer_size c"
  | (place) c' p' idx off where "current_buffer_and_offset c p = Returned (c', p', Inr (idx, off))"
      "cursor c' p' idx off" "bp_buffers p' = bp_buffers p"
      "set (bc_buffers c') \<union> set (bp_free_list p') = set (bc_buffers c) \<union> set (bp_free_list p)"
      "bc_len c' = bc_len c" "bc_buffer_size c' = bc_buffer_size c" "bp_buffer_size p' = bp_buffer_size p"
      "chain_data c' p' = chain_data c p"
proof -
  have owns: "chain_owns c p" and b: "0 < bc_buffer_size c" and ok: "pool_ok p"
    using assms by (auto simp: chain_inv_def chain_owns_def)
  let ?full = "bc_buffers c = [] \<or> (bc_len c mod bc_buffer_size c = 0 \<and> 0 < bc_len c)"
  show ?thesis
  proof (cases ?full)
    case True
    then have len: "bc_len c = length (bc_buffers c) * bc_buffer_size c"
      using chain_inv_full [OF assms] assms by (cases "bc_buffers c = []") (auto simp: chain_inv_def)
    obtain p' r where a: "pool_alloc p = (p', r)" by fastforce
    show ?thesis
    proof (cases r)
      case None
      with a buffers.alloc_None [OF ok] have "p' = p" "bp_free_list p = []" by auto
      with a None True b len show ?thesis
        by (intro exhausted) (auto simp: current_buffer_and_offset_def Let_def)
    next
      case (Some i)
      note ext = alloc_extends [OF owns a [unfolded Some]]
      let ?c = "c\<lparr>bc_buffers := bc_buffers c @ [i]\<rparr>"
      show ?thesis
      proof (rule place)
        show "current_buffer_and_offset c p = Returned (?c, p', Inr (i, 0))"
          using a Some True b by (auto simp: current_buffer_and_offset_def Let_def)
        show "cursor ?c p' i 0" using ext(1) len b by (simp add: cursor_def)
        show "chain_data ?c p' = chain_data c p"
          using len length_chain_bytes [OF owns] ext(2) by (simp add: chain_data_def chain_bytes_def)
        show "set (bc_buffers ?c) \<union> set (bp_free_list p') = set (bc_buffers c) \<union> set (bp_free_list p)"
          using ext(3,4) by auto
      qed (simp_all add: ext)
    qed
  next
    case False
    then have "cursor c p (last (bc_buffers c)) (bc_len c mod bc_buffer_size c)"
      using chain_inv_partial [OF assms] by auto
    moreover have "current_buffer_and_offset c p =
        Returned (c, p, Inr (last (bc_buffers c), bc_len c mod bc_buffer_size c))"
      using False b by (auto simp: current_buffer_and_offset_def Let_def)
    ultimately show ?thesis by (intro place) auto
  qed
qed

text \<open>Writing at the cursor extends the data by the bytes written.\<close>

lemma write_at_cursor:
  assumes "cursor c p idx off" "d \<noteq> []" "off + length d \<le> bc_buffer_size c"
  defines "p' \<equiv> pool_set idx (blit off d (bp_buffers p ! idx)) p"
  defines "c' \<equiv> c\<lparr>bc_len := bc_len c + length d\<rparr>"
  shows "chain_inv c' p'" "chain_data c' p' = chain_data c p @ d"
    "pool_get p idx = Returned (bp_buffers p ! idx)" "length (bp_buffers p ! idx) = bc_buffer_size c"
proof -
  have owns: "chain_owns c p" using assms(1) by (simp add: cursor_def)
  obtain xs where xs: "bc_buffers c = xs @ [idx]"
    using assms(1) by (metis append_butlast_last_id cursor_def)
  have buf: "length (bp_buffers p ! idx) = bc_buffer_size c" "idx < length (bp_buffers p)"
    using chain_owns_buffer [OF owns, of idx] xs by simp_all
  then show "pool_get p idx = Returned (bp_buffers p ! idx)"
    "length (bp_buffers p ! idx) = bc_buffer_size c"
    by (simp_all add: pool_get_def)
  have len: "length (blit off d (bp_buffers p ! idx)) = bc_buffer_size c"
    using buf assms(3) by (simp add: length_blit)
  have "length ((bp_buffers p)[idx := blit off d (bp_buffers p ! idx)] ! n) = bp_buffer_size p"
    if "n < length (bp_buffers p)" for n
    using that owns len by (cases "n = idx") (auto simp: chain_owns_def pool_ok_def list_all_length)
  then have "pool_ok p'"
    using owns by (simp add: chain_owns_def p'_def pool_set_def pool_ok_def list_all_length)
  then have owns': "chain_owns c' p'"
    using owns by (simp add: chain_owns_def c'_def p'_def pool_set_def)
  show "chain_inv c' p'"
    using assms(1-3) owns' by (auto simp: chain_inv_def cursor_def c'_def xs)
  have other: "map ((!) (bp_buffers p')) xs = map ((!) (bp_buffers p)) xs"
    using owns xs by (auto simp: p'_def pool_set_def chain_owns_def intro!: nth_list_update_neq)
  have xlen: "length (concat (map ((!) (bp_buffers p)) xs)) = length xs * bc_buffer_size c"
    using chain_owns_buffer [OF owns] xs by (intro length_concat_uniform) simp
  have clen: "bc_len c = length xs * bc_buffer_size c + off" using assms(1) xs by (simp add: cursor_def)
  have "chain_data c p = concat (map ((!) (bp_buffers p)) xs) @ take off (bp_buffers p ! idx)"
    using xlen clen by (simp add: chain_data_def chain_bytes_def xs)
  moreover have "chain_data c' p' =
      concat (map ((!) (bp_buffers p)) xs) @ take (off + length d) (blit off d (bp_buffers p ! idx))"
  proof -
    have "chain_bytes c' p' = concat (map ((!) (bp_buffers p)) xs) @ blit off d (bp_buffers p ! idx)"
      using buf(2) unfolding chain_bytes_def c'_def
      by (simp add: xs other del: map_eq_conv) (simp add: p'_def pool_set_def)
    then show ?thesis using xlen clen by (simp add: chain_data_def c'_def)
  qed
  moreover have "take (off + length d) (blit off d (bp_buffers p ! idx)) = take off (bp_buffers p ! idx) @ d"
    using assms(3) buf by (intro take_blit_through) simp
  ultimately show "chain_data c' p' = chain_data c p @ d" by simp
qed

text \<open>
  What the whole loop achieves: it ends with all the data appended, or with the pool empty and a
  prefix of the data appended; the buffers it took come from the pool.
\<close>

definition appends ::
  "bytes \<Rightarrow> buffer_chain \<Rightarrow> buffer_pool \<Rightarrow> buffer_chain \<Rightarrow> buffer_pool \<Rightarrow> chain_error option \<Rightarrow> bool" where
  "appends data c p c' p' e =
     (set (bc_buffers c') \<union> set (bp_free_list p') = set (bc_buffers c) \<union> set (bp_free_list p) \<and>
      length (bp_buffers p') = length (bp_buffers p) \<and> bp_buffer_size p' = bp_buffer_size p \<and>
      (\<forall>i. i \<notin> set (bc_buffers c) \<longrightarrow> i \<notin> set (bp_free_list p) \<longrightarrow> bp_buffers p' ! i = bp_buffers p ! i) \<and>
      (e = None \<longrightarrow> chain_data c' p' = chain_data c p @ data) \<and>
      (e \<noteq> None \<longrightarrow> e = Some PoolExhausted \<and> bp_free_list p' = [] \<and>
         bc_len c' = length (bc_buffers c') * bc_buffer_size c' \<and>
         (\<exists>d. strict_prefix d data \<and> chain_data c' p' = chain_data c p @ d)))"

text \<open>One round in front of the rest.\<close>

lemma appends_round:
  assumes rest: "appends (drop n data) c1 p1 c' p' e"
    and dat: "chain_data c1 p1 = chain_data c p @ take n data"
    and own: "set (bc_buffers c1) \<union> set (bp_free_list p1) = set (bc_buffers c) \<union> set (bp_free_list p)"
    and size: "length (bp_buffers p1) = length (bp_buffers p)" "bp_buffer_size p1 = bp_buffer_size p"
    and frame: "\<And>i. i \<notin> set (bc_buffers c) \<Longrightarrow> i \<notin> set (bp_free_list p) \<Longrightarrow> bp_buffers p1 ! i = bp_buffers p ! i"
  shows "appends data c p c' p' e"
proof -
  have pre: "strict_prefix d (drop n data) \<Longrightarrow> strict_prefix (take n data @ d) data" for d
    by (metis append_take_drop_id same_prefix_prefix same_append_eq strict_prefix_def)
  have "bp_buffers p' ! i = bp_buffers p ! i" if "i \<notin> set (bc_buffers c)" "i \<notin> set (bp_free_list p)" for i
  proof -
    from that own have "i \<notin> set (bc_buffers c1)" "i \<notin> set (bp_free_list p1)" by auto
    with rest frame [OF that] show ?thesis by (simp add: appends_def)
  qed
  moreover have "\<exists>d. strict_prefix d data \<and> chain_data c' p' = chain_data c p @ d"
    if "strict_prefix d (drop n data)" "chain_data c' p' = chain_data c1 p1 @ d" for d
    using pre [OF that(1)] that(2) dat by (intro exI [of _ "take n data @ d"]) simp
  ultimately show ?thesis using rest dat own size unfolding appends_def by auto
qed

text \<open>The loop never panics.\<close>

lemma append_loop_spec:
  assumes "chain_inv c p"
  shows "\<exists>c' p' e. append_loop data c p = Returned (c', p', e) \<and> chain_inv c' p' \<and> appends data c p c' p' e"
  using assms
proof (induction data c p rule: append_loop.induct)
  case (1 data c p)
  show ?case
  proof (cases "data = []")
    case True
    with 1(2) show ?thesis by (simp add: append_loop.simps appends_def)
  next
    case data: False
    from \<open>chain_inv c p\<close> show ?thesis
    proof (cases rule: current_buffer_cases)
      case exhausted
      then have "append_loop data c p = Returned (c, p, Some PoolExhausted)"
        using data by (simp add: append_loop.simps)
      moreover have "strict_prefix [] data" using data by (simp add: strict_prefix_def)
      ultimately show ?thesis using 1(2) exhausted by (fastforce simp: appends_def)
    next
      case (place c1 p1 idx off)
      let ?n = "min (bc_buffer_size c1 - off) (length data)"
      let ?d = "take ?n data"
      let ?c = "c1\<lparr>bc_len := bc_len c1 + ?n\<rparr>"
      let ?p = "pool_set idx (blit off ?d (bp_buffers p1 ! idx)) p1"
      have off: "off < bc_buffer_size c1" using place(2) by (simp add: cursor_def)
      then have d: "?d \<noteq> []" "off + length ?d \<le> bc_buffer_size c1" "length ?d = ?n"
        using data by auto
      note w = write_at_cursor [OF place(2) d(1,2)]
      have idx: "idx \<in> set (bc_buffers c1)" using place(2) by (auto simp: cursor_def)
      have step: "append_loop data c p = append_loop (drop ?n data) ?c ?p"
        using data place(1) w(3,4) d off by (subst append_loop.simps) (auto simp: Let_def)
      have inv: "chain_inv ?c ?p" and dat: "chain_data ?c ?p = chain_data c p @ ?d"
        using w(1,2) d(3) place(8) by simp_all
      have small: "\<not> length (bp_buffers p1 ! idx) < off + ?n" using w(4) d by simp
      obtain c' p' e where r: "append_loop (drop ?n data) ?c ?p = Returned (c', p', e)" "chain_inv c' p'"
        "appends (drop ?n data) ?c ?p c' p' e"
        using 1(1) [OF data place(1) refl refl refl refl w(3) refl refl small inv] by blast
      have "bp_buffers ?p ! i = bp_buffers p ! i" if "i \<notin> set (bc_buffers c)" "i \<notin> set (bp_free_list p)" for i
        using that place(3,4) idx by (cases "i = idx") (auto simp: pool_set_def)
      with r place dat have "appends data c p c' p' e"
        by (intro appends_round [OF r(3)]) (auto simp: pool_set_def)
      with r step show ?thesis by auto
    qed
  qed
qed

subsection \<open>Reading back\<close>

lemma owned_loop:
  "\<forall>i\<in>set is. i < length (bp_buffers p) \<and> length (bp_buffers p ! i) = n \<Longrightarrow>
    assemble_loop is r n p = Returned (take r (concat (map ((!) (bp_buffers p)) is))) \<and>
    (\<exists>ch. chunks_loop is r n p = Returned ch \<and> concat ch = take r (concat (map ((!) (bp_buffers p)) is))) \<and>
    (\<exists>sl. io_slices_loop is 0 r n p = Returned sl \<and>
       concat sl = take r (concat (map ((!) (bp_buffers p)) is)))"
proof (induction "is" arbitrary: r)
  case (Cons i "is")
  then have i: "pool_get p i = Returned (bp_buffers p ! i)" "length (bp_buffers p ! i) = n"
    by (simp_all add: pool_get_def)
  have split: "take r (bp_buffers p ! i @ ys) = take (min r n) (bp_buffers p ! i) @ take (r - min r n) ys" for ys
    using i(2) by (simp add: min_def)
  obtain ch sl where "chunks_loop is (r - min r n) n p = Returned ch"
    "concat ch = take (r - min r n) (concat (map ((!) (bp_buffers p)) is))"
    "io_slices_loop is 0 (r - min r n) n p = Returned sl"
    "concat sl = take (r - min r n) (concat (map ((!) (bp_buffers p)) is))"
    "assemble_loop is (r - min r n) n p =
       Returned (take (r - min r n) (concat (map ((!) (bp_buffers p)) is)))"
    using Cons.IH [of "r - min r n"] Cons.prems by auto
  with i show ?case
    by (cases "min r n = 0") (auto simp add: split slice_ok Let_def simp del: take_append)
qed simp

lemma chain_readers:
  assumes "chain_inv c p"
  shows "chain_assemble c p = Returned (chain_data c p)"
    "as_contiguous c p = Returned (chain_data c p)"
    "\<exists>ch. chain_chunks c p = Returned ch \<and> concat ch = chain_data c p"
    "\<exists>sl. io_slices c p 0 = Returned sl \<and> concat sl = chain_data c p"
proof -
  have "\<forall>i\<in>set (bc_buffers c). i < length (bp_buffers p) \<and> length (bp_buffers p ! i) = bc_buffer_size c"
    using assms chain_owns_buffer by (auto simp: chain_inv_def)
  note loop = owned_loop [OF this, of "bc_len c", folded chain_bytes_def chain_data_def]
  show asm: "chain_assemble c p = Returned (chain_data c p)" using loop by (simp add: chain_assemble_def)
  show "\<exists>ch. chain_chunks c p = Returned ch \<and> concat ch = chain_data c p"
    using loop by (simp add: chain_chunks_def)
  show "\<exists>sl. io_slices c p 0 = Returned sl \<and> concat sl = chain_data c p"
    using loop by (cases "bc_len c = 0") (auto simp: io_slices_def chain_data_def)
  show "as_contiguous c p = Returned (chain_data c p)"
  proof (cases "bc_buffers c" rule: remdups_adj.cases)
    case (2 i)
    with assms have "pool_get p i = Returned (bp_buffers p ! i)" "bc_len c \<le> length (bp_buffers p ! i)"
      by (auto simp: chain_inv_def chain_owns_def pool_get_def pool_ok_def list_all_iff)
    with 2 show ?thesis by (simp add: as_contiguous_def slice_ok chain_data_def chain_bytes_def)
  qed (use asm in \<open>simp_all add: as_contiguous_def chain_data_def chain_bytes_def\<close>)
qed

text \<open>
  C26. A chain holds what was appended: appending any data to a well-formed chain never panics
  and returns; when it succeeds, every way of reading the chain (contiguous, by chunks, as
  slices for a vectored write) gives the earlier data followed by the new; it fails only by
  exhausting the pool, and it succeeds whenever the chain's and the pool's buffers have room.
\<close>

theorem chain_append_exact:
  assumes "chain_inv c p"
  shows "\<exists>c' p' e. chain_append data c p = Returned (c', p', e) \<and> chain_inv c' p' \<and>
    (e = None \<and> as_contiguous c' p' = Returned (chain_data c p @ data) \<and>
       (\<exists>ch. chain_chunks c' p' = Returned ch \<and> concat ch = chain_data c p @ data) \<and>
       (\<exists>sl. io_slices c' p' 0 = Returned sl \<and> concat sl = chain_data c p @ data)
     \<or> e = Some PoolExhausted \<and> bp_free_list p' = [] \<and>
       (length (bc_buffers c) + pool_available p) * bc_buffer_size c < bc_len c + length data)"
proof -
  obtain c' p' e where r: "append_loop data c p = Returned (c', p', e)" and inv: "chain_inv c' p'"
    and u: "set (bc_buffers c') \<union> set (bp_free_list p') = set (bc_buffers c) \<union> set (bp_free_list p)"
    and bs: "bp_buffer_size p' = bp_buffer_size p"
    and ok: "e = None \<longrightarrow> chain_data c' p' = chain_data c p @ data"
    and bad: "e \<noteq> None \<longrightarrow> e = Some PoolExhausted \<and> bp_free_list p' = [] \<and>
       bc_len c' = length (bc_buffers c') * bc_buffer_size c' \<and>
       (\<exists>d. strict_prefix d data \<and> chain_data c' p' = chain_data c p @ d)"
    using append_loop_spec [OF assms, of data] unfolding appends_def by blast
  show ?thesis
  proof (cases e)
    case None
    with r inv ok chain_readers [OF inv] show ?thesis by (auto simp: chain_append_def)
  next
    case (Some err)
    then have "e \<noteq> None" by simp
    with bad Some have err: "err = PoolExhausted" "bp_free_list p' = []"
      "bc_len c' = length (bc_buffers c') * bc_buffer_size c'" by simp_all
    from bad \<open>e \<noteq> None\<close> obtain d where "strict_prefix d data" "chain_data c' p' = chain_data c p @ d"
      by blast
    note d = this err
    have "card (set (bc_buffers c')) = card (set (bc_buffers c) \<union> set (bp_free_list p))"
      using u d(4) by simp
    then have "length (bc_buffers c') = length (bc_buffers c) + pool_available p"
      using assms inv
      by (simp add: chain_inv_def chain_owns_def pool_ok_def card_Un_disjoint distinct_card pool_available_def)
    moreover have "bc_buffer_size c' = bc_buffer_size c" using assms inv bs by (simp add: chain_inv_def chain_owns_def)
    moreover have "length (chain_data c' p') < bc_len c + length data"
      using d(1,2) length_chain_data [OF assms] by (simp add: prefix_length_less)
    ultimately show ?thesis
      using r Some inv d length_chain_data [OF inv] by (auto simp: chain_append_def)
  qed
qed

theorem chain_append_exact_witness:
  "\<exists>c' p' e. chain_append ''hello world'' (chain_new 4) (pool_new 3 4) = Returned (c', p', e) \<and> chain_inv c' p' \<and>
    (e = None \<and> as_contiguous c' p' = Returned ''hello world'' \<and>
       (\<exists>ch. chain_chunks c' p' = Returned ch \<and> concat ch = ''hello world'') \<and>
       (\<exists>sl. io_slices c' p' 0 = Returned sl \<and> concat sl = ''hello world'')
     \<or> e = Some PoolExhausted \<and> bp_free_list p' = [] \<and> (0 + 3) * 4 < 0 + (11 :: nat))"
proof -
  have "chain_inv (chain_new 4) (pool_new 3 4)"
    using chain_new_inv [OF pool_new_ok [of 3 4]] by (simp add: pool_new_def)
  from chain_append_exact [OF this, of "''hello world''"] show ?thesis
    by (simp add: pool_available_def pool_new_def chain_new_def [of 4, unfolded])
      (simp add: chain_data_def chain_new_def)
qed

text \<open>
  Buffers have one owner: in every run of allocations and returns in which a client returns
  only what it holds, an allocation never yields a buffer that is held, always one that exists,
  and the free and the held buffers are together all of them, at every moment.
\<close>

lemma pool_exclusive:
  assumes "admissible (own_step pool_alloc pool_free) gives_own ops (pool_new count sz, {})"
    and "fst (run (own_step pool_alloc pool_free) ops (pool_new count sz, {})) = (p, held)"
  shows "held \<inter> set (bp_free_list p) = {} \<and> held \<union> set (bp_free_list p) = {..<count}
    \<and> card held + pool_available p = count
    \<and> (case pool_alloc p of (p', Some i) \<Rightarrow> i \<notin> held \<and> i < count | (p', None) \<Rightarrow> held = {..<count})"
proof -
  have "buffers.accounted {..<count} (pool_new count sz, {})"
    by (auto simp: buffers.accounted_def pool_new_ok, auto simp: pool_new_def)
  from buffers.inv_run [OF this assms(1)]
  have acc: "buffers.accounted {..<count} (p, held)" using assms(2) by simp
  then have s: "held \<inter> set (bp_free_list p) = {}" "held \<union> set (bp_free_list p) = {..<count}" "pool_ok p"
    by (simp_all add: buffers.accounted_def)
  then have "finite held" by (metis finite_Un finite_lessThan)
  then have "card held + card (set (bp_free_list p)) = count"
    using s by (metis card_Un_disjoint card_lessThan finite_set)
  moreover have "card (set (bp_free_list p)) = pool_available p"
    using s(3) by (simp add: pool_ok_def distinct_card pool_available_def)
  moreover have "case pool_alloc p of (p', Some i) \<Rightarrow> i \<notin> held \<and> i < count | (p', None) \<Rightarrow> held = {..<count}"
  proof (cases "pool_alloc p")
    case (Pair p' r)
    then show ?thesis
      using buffers.take_not_held [OF acc] buffers.alloc_None [OF s(3)] s(2) by (cases r) auto
  qed
  ultimately show ?thesis using s by simp
qed

text \<open>
  Resuming a vectored write is not right: there is a well-formed chain and an offset inside
  its data at which the slices handed to the kernel are not the rest of the data. The bytes
  that precede the offset are taken off the remaining count twice.
\<close>

lemma io_slices_resume_wrong:
  "\<exists>c p k sl. chain_inv c p \<and> k < bc_len c \<and> io_slices c p k = Returned sl \<and>
     concat sl \<noteq> drop k (chain_data c p)"
proof -
  let ?c = "\<lparr>bc_buffers = [0, 1, 2], bc_len = 10, bc_buffer_size = 4\<rparr>"
  let ?p = "\<lparr>bp_buffers = [''abcd'', ''efgh'', ''ij--''], bp_free_list = [], bp_buffer_size = 4\<rparr>"
  have "chain_inv ?c ?p" by (simp add: chain_inv_def chain_owns_def pool_ok_def)
  moreover have "io_slices ?c ?p 3 = Returned [''d'', ''efg'']"
    by (simp add: io_slices_def pool_get_def slice_def Let_def numeral_eq_Suc)
  moreover have "drop 3 (chain_data ?c ?p) = ''defghij''"
    by (simp add: chain_data_def chain_bytes_def numeral_eq_Suc)
  ultimately show ?thesis
    by (intro exI [of _ ?c] exI [of _ ?p] exI [of _ 3] exI [of _ "[''d'', ''efg'']"]) simp
qed

lemma free_many_list: "bp_free_list (free_many is p) = bp_free_list p @ is"
  "bp_buffers (free_many is p) = bp_buffers p" "bp_buffer_size (free_many is p) = bp_buffer_size p"
  by (induction "is" arbitrary: p) (simp_all add: pool_free_def)

lemma alloc_loop_spec:
  "n \<le> length (bp_free_list p) \<Longrightarrow>
    alloc_loop n p acc =
      Returned (p\<lparr>bp_free_list := take (length (bp_free_list p) - n) (bp_free_list p)\<rparr>,
                acc @ take n (rev (bp_free_list p)))"
proof (induction n arbitrary: p acc)
  case (Suc n)
  then obtain xs x where xs: "bp_free_list p = xs @ [x]" by (metis list.size(3) not_less_eq_eq rev_exhaust zero_le)
  with Suc.prems Suc.IH [of "p\<lparr>bp_free_list := xs\<rparr>" "acc @ [x]"] show ?case
    by (simp add: pool_alloc_def)
qed simp

text \<open>A batch is taken whole or not at all, and \<^verbatim>\<open>alloc_many\<close> never panics.\<close>

lemma alloc_many_spec:
  "alloc_many n p =
     (if length (bp_free_list p) < n then Returned (p, None)
      else Returned (p\<lparr>bp_free_list := take (length (bp_free_list p) - n) (bp_free_list p)\<rparr>,
                     Some (take n (rev (bp_free_list p)))))"
  by (simp add: alloc_many_def alloc_loop_spec)

end
