(* ===== verification/Dispatch.thy ===== *)
theory Dispatch
  imports Request_Correct
begin

text \<open>
  The choice of the protocol handler, which both event loops make with the same \<^verbatim>\<open>match\<close> in their
  \<^verbatim>\<open>handle_readable\<close> and \<^verbatim>\<open>handle_read\<close>, and what the loops rely on: a handler fills the output buffer
  within its bounds, and what it sends does not depend on what the buffer held before.
\<close>

text \<open>
  What an event finds around it: the Unicode tables, the size of a frame, the store's clock, the
  limit, and what the other workers have made of the shared store since this worker's last
  request.
\<close>

record env =
  ev_unicode :: unicode
  ev_frame_size :: nat
  ev_clock :: "nat \<Rightarrow> nat"
  ev_max_value_size :: nat
  ev_others :: "storage \<Rightarrow> storage"

text \<open>An environment for concrete runs.\<close>

definition example_env :: env where
  "example_env =
     \<lparr>ev_unicode = \<lparr>uni_lower = id, uni_upper = id\<rparr>, ev_frame_size = 32, ev_clock = (\<lambda>_. 0),
      ev_max_value_size = 100, ev_others = id\<rparr>"

lemma example_env_others [simp]: "ev_others example_env s = s"
  by (simp add: example_env_def)

definition process_protocol ::
  "env \<Rightarrow> protocol \<Rightarrow> bytes \<Rightarrow> bytes \<Rightarrow> storage \<Rightarrow> storage \<times> (process_result \<times> bytes) outcome" where
  "process_protocol E proto input output s =
     (let storage = ev_others E s in
      case proto of
        ProtoMemcached \<Rightarrow>
          process_memcached (ev_unicode E) (ev_clock E) input output storage (ev_max_value_size E)
      | ProtoResp \<Rightarrow>
          process_resp (ev_unicode E) (ev_frame_size E) (ev_clock E) input output storage (ev_max_value_size E)
      | ProtoPing \<Rightarrow> (storage, Returned (process_ping input output))
      | ProtoEcho \<Rightarrow> (storage, process_echo input output (ev_max_value_size E)))"

section \<open>The handlers fill a buffer within its bounds\<close>

definition fits_output :: "bytes \<Rightarrow> storage \<times> (process_result \<times> bytes) outcome \<Rightarrow> bool" where
  "fits_output out x =
     (case snd x of
        Returned (r, out') \<Rightarrow>
          length out' = length out \<and> (case r of PResponse c n \<Rightarrow> n \<le> length out | _ \<Rightarrow> True)
      | Panicked \<Rightarrow> True)"

lemma fits_panic [simp]: "fits_output out (s, Panicked)"
  by (simp add: fits_output_def)

lemma fits_same [simp]:
  "(case r of PResponse c n \<Rightarrow> n \<le> length out | _ \<Rightarrow> True) \<Longrightarrow> fits_output out (s, Returned (r, out))"
  by (simp add: fits_output_def)

lemma fits_blit [simp]: "n \<le> length out \<Longrightarrow> length b = n \<Longrightarrow> fits_output out (s, Returned (PResponse c n, blit 0 b out))"
  by (simp add: fits_output_def length_blit)

lemma fits_answer [simp]: "fits_output out (answer n out x)"
  by (cases x; cases "snd x") (auto simp: answer_Returned answer_Panicked)

lemma process_memcached_fits: "fits_output out (process_memcached U clk input out s limit)"
  by (simp add: process_memcached_def Let_def split: mc_result.split option.split outcome.split prod.split)

lemma process_resp_fits: "fits_output out (process_resp U fsz clk input out s limit)"
  by (auto simp: process_resp_def Let_def split: resp_result.split prod.split outcome.split)

lemma process_ping_fits: "fits_output out (s, Returned (process_ping input out))"
  by (auto simp: process_ping_def response_pong_msg_def Let_def fits_output_def length_blit
      split: ping_result.split ping_command.split)

lemma process_echo_fits: "fits_output out (s, process_echo input out limit)"
proof -
  have header: "length out' = length out \<and> h \<le> length out" if "echo_response_header len out = (out', h)" for len out' h
    using that by (auto simp: echo_response_header_def Let_def length_blit split: if_splits)
  show ?thesis
  proof (cases "echo_parse input")
    case (EchoComplete c)
    show ?thesis
    proof (cases c)
      case (EchoCmd len hl)
      obtain out' h where h: "echo_response_header len out = (out', h)" by fastforce
      show ?thesis
        using EchoComplete EchoCmd h header [OF h]
        by (auto simp: process_echo_def Let_def fits_output_def length_blit split: outcome.split)
    qed (use EchoComplete in \<open>simp add: process_echo_def\<close>)
  qed (simp_all add: process_echo_def Let_def)
qed

lemma process_protocol_fits: "fits_output out (process_protocol E proto input out s)"
  by (simp add: process_protocol_def Let_def process_memcached_fits process_resp_fits process_ping_fits
      process_echo_fits split: protocol.split)

section \<open>What a handler sends does not depend on the buffer\<close>

text \<open>The new store, the result and the bytes that go out.\<close>

definition outward ::
  "storage \<times> (process_result \<times> bytes) outcome \<Rightarrow> storage \<times> (process_result \<times> bytes) outcome" where
  "outward x = apsnd (map_outcome (\<lambda>y. (fst y, delivered y))) x"

lemma outward_simps [simp]:
  "outward (s, Panicked) = (s, Panicked)"
  "outward (s, Returned (r, out)) = (s, Returned (r, delivered (r, out)))"
  by (simp_all add: outward_def)

lemma outward_answer: "length a = length b \<Longrightarrow> outward (answer n a x) = outward (answer n b x)"
  by (cases x; cases "snd x") (auto simp: answer_Returned answer_Panicked blit_0)

lemma process_memcached_outward:
  "length a = length b \<Longrightarrow>
    outward (process_memcached U clk input a s limit) = outward (process_memcached U clk input b s limit)"
  by (simp add: process_memcached_def Let_def outward_answer [of a b]
      split: mc_result.split option.split outcome.split prod.split)

lemma process_resp_outward:
  "length a = length b \<Longrightarrow>
    outward (process_resp U fsz clk input a s limit) = outward (process_resp U fsz clk input b s limit)"
  by (auto simp: process_resp_def Let_def blit_0 split: resp_result.split prod.split outcome.split)

lemma process_ping_outward:
  "length a = length b \<Longrightarrow>
    outward (s, Returned (process_ping input a)) = outward (s, Returned (process_ping input b))"
proof (cases "ping_parse input")
  case (PingComplete c n)
  assume len: "length a = length b"
  show ?thesis
  proof (cases c)
    case (PingMsg msg)
    show ?thesis
    proof (cases "7 + length msg \<le> length b")
      case True
      with PingComplete PingMsg len response_pong_msg_writes [of msg a] response_pong_msg_writes [of msg b]
      show ?thesis by (simp add: process_ping_def numeral_eq_Suc crlf_def)
    next
      case False
      with PingComplete PingMsg len show ?thesis by (simp add: process_ping_def response_pong_msg_def)
    qed
  qed (use PingComplete len in \<open>simp_all add: process_ping_def Let_def blit_0\<close>)
qed (simp_all add: process_ping_def Let_def blit_0)

lemma process_echo_outward:
  assumes len: "length a = length b"
  shows "outward (s, process_echo input a limit) = outward (s, process_echo input b limit)"
proof (cases "echo_parse input")
  case (EchoComplete c)
  have err: "outward (s, Returned (PResponse k (min (length e) (length a)), blit 0 (take (min (length e) (length a)) e) a)) =
      outward (s, Returned (PResponse k (min (length e) (length b)), blit 0 (take (min (length e) (length b)) e) b))" for k e
    using len by (simp add: blit_0)
  show ?thesis
  proof (cases c)
    case (EchoCmd n h)
    obtain a' k where a: "echo_response_header n a = (a', k)" by fastforce
    obtain b' where b: "echo_response_header n b = (b', k)" "take k a' = take k b'" "length a' = length b'" "k \<le> length a'"
      using a len by (auto simp: echo_response_header_def Let_def length_blit blit_0 split: if_splits)
    show ?thesis
      using EchoComplete EchoCmd a b len err [of h]
      by (auto simp: process_echo_def Let_def blit_def min_def split: outcome.split)
  qed (use EchoComplete in \<open>simp add: process_echo_def\<close>)
qed (use len in \<open>simp_all add: process_echo_def Let_def blit_0\<close>)

lemma process_protocol_outward:
  "length a = length b \<Longrightarrow> outward (process_protocol E proto input a s) = outward (process_protocol E proto input b s)"
  by (simp add: process_protocol_def Let_def process_memcached_outward [of a b] process_resp_outward [of a b]
      process_ping_outward [of a b] process_echo_outward [of a b] split: protocol.split)

section \<open>What an event loop relies on\<close>

text \<open>
  A handler as the event loops use it, for one input: from an output buffer and the store to the
  new store, the result and the filled buffer.
\<close>

locale buffered_handler =
  fixes handle :: "bytes \<Rightarrow> storage \<Rightarrow> storage \<times> (process_result \<times> bytes) outcome"
  assumes within: "fits_output out (handle out s)"
    and unaffected: "length a = length b \<Longrightarrow> outward (handle a s) = outward (handle b s)"
begin

lemma keeps_length:
  "handle out s = (s', Returned (r, out')) \<Longrightarrow> length out' = length out"
  using within [of out s] by (simp add: fits_output_def)

lemma response_within:
  "handle out s = (s', Returned (PResponse k l, out')) \<Longrightarrow> l \<le> length out"
  using within [of out s] by (simp add: fits_output_def)

text \<open>The answer in any buffer of the same size gives the bytes that go out.\<close>

lemma sends:
  assumes "handle a s = (s', Returned (PResponse k l, a'))" "length a = length b"
  obtains b' where "handle b s = (s', Returned (PResponse k l, b'))" "take l b' = take l a'"
  using assms unaffected [OF assms(2), of s]
  by (cases "handle b s"; cases "snd (handle b s)") auto

end

interpretation dispatched: buffered_handler "process_protocol E proto input" for E proto input
  by unfold_locales (use process_protocol_fits process_protocol_outward in blast)+

end
