(* ===== verification/Mio.thy ===== *)
theory Mio
  imports Connection Buffer Dispatch
begin

text \<open>
  The readiness-based event loop, \<^verbatim>\<open>src/src/runtime/mio/event_loop.rs\<close>: accepting, reading,
  processing, writing and closing, for one worker. The worker's state is its connections (in a
  slab, a parameter), its buffer pool and the store. The kernel's answers are arguments:
  \<open>IoOk pending\<close> for a read is what the socket has, of which the call takes as much as fits;
  \<open>IoOk k\<close> for a write is how much the socket accepts; \<open>reg\<close> is whether a call to the poll registry
  succeeds, a pair in an event, whose reading and writing part each make one. The interest a stream is registered for is kept with its connection. What a
  handler sends to the client is part of its result.
\<close>

section \<open>State\<close>

datatype interest = Readable | Writable

record mio_connection =
  mn_data_state :: data_state
  mn_read_buf_idx :: nat
  mn_write_buf_idx :: nat
  mn_read_chain :: "buffer_chain option"
  mn_write_chain :: "buffer_chain option"
  mn_protocol :: protocol
  mn_interest :: interest

record 's mio_worker =
  mw_connections :: 's
  mw_buffers :: buffer_pool
  mw_storage :: storage

datatype io_error =
    ConnectionNotFound | Eof | OsError | ValueOverLimit | PoolExhaustedFor | ClientQuit
  | ProtocolError | MissingChain | WriteZero

datatype 'a io = IoOk 'a | IoWouldBlock | IoError

type_synonym io_result = "io_error option"

section \<open>Reading\<close>

definition put_conn ::
  "('s, mio_connection) slab_ops \<Rightarrow> nat \<Rightarrow> mio_connection \<Rightarrow> 's mio_worker \<Rightarrow> 's mio_worker" where
  "put_conn S cid c w = w\<lparr>mw_connections := sl_set S (mw_connections w) cid c\<rparr>"

definition put_pool :: "buffer_pool \<Rightarrow> 's mio_worker \<Rightarrow> 's mio_worker" where
  "put_pool p w = w\<lparr>mw_buffers := p\<rparr>"

text \<open>\<^verbatim>\<open>read_buf.copy_within(consumed..total_filled, 0)\<close>, when something is left.\<close>

definition compact :: "nat \<Rightarrow> nat \<Rightarrow> nat \<Rightarrow> buffer_pool \<Rightarrow> buffer_pool outcome" where
  "compact idx consumed total_filled p =
     (if consumed < total_filled
      then (case pool_get p idx of
              Panicked \<Rightarrow> Panicked
            | Returned buf \<Rightarrow>
                (case slice consumed total_filled buf of
                   Panicked \<Rightarrow> Panicked
                 | Returned rest \<Rightarrow> Returned (pool_set idx (blit 0 rest buf) p)))
      else Returned p)"

text \<open>\<^verbatim>\<open>if let Some(mut chain) = conn.read_chain.take() { chain.release(buffers) }\<close>\<close>

definition release_opt :: "buffer_chain option \<Rightarrow> buffer_pool \<Rightarrow> buffer_pool" where
  "release_opt ch p = (case ch of None \<Rightarrow> p | Some c \<Rightarrow> snd (chain_release c p))"

definition on_need_chain ::
  "('s, mio_connection) slab_ops \<Rightarrow> nat \<Rightarrow> nat \<Rightarrow> nat \<Rightarrow> nat \<Rightarrow> nat \<Rightarrow> mio_connection \<Rightarrow>
   's mio_worker \<Rightarrow> ('s mio_worker \<times> io_result) outcome" where
  "on_need_chain S cid max_value_size total_filled command_len value_len conn w =
     (if value_len > max_value_size then Returned (w, Some ValueOverLimit)
      else
        let size = bp_buffer_size (mw_buffers w);
            total_needed = uadd (uadd command_len value_len) 2;
            chain_bytes_needed = total_needed - size
        in if size = 0 then Panicked
           else
             let chain_buffers_needed = (uadd chain_bytes_needed size - 1) div size;
                 chain = (case mn_read_chain conn of Some ch \<Rightarrow> ch | None \<Rightarrow> chain_new size);
                 conn1 = conn\<lparr>mn_read_chain := Some chain\<rparr>
             in if length (bc_buffers chain) < chain_buffers_needed
                then (case alloc_many (chain_buffers_needed - length (bc_buffers chain)) (mw_buffers w) of
                        Panicked \<Rightarrow> Panicked
                      | Returned (p, None) \<Rightarrow>
                          Returned (put_conn S cid conn1 (put_pool p w), Some PoolExhaustedFor)
                      | Returned (p, Some indices) \<Rightarrow>
                          Returned (put_conn S cid
                            (conn1\<lparr>mn_read_chain := Some (fold push_buffer indices chain),
                                   mn_data_state := ds_reading_with total_filled\<rparr>) (put_pool p w), None))
                else Returned (put_conn S cid (conn1\<lparr>mn_data_state := ds_reading_with total_filled\<rparr>) w, None))"

definition on_response ::
  "('s, mio_connection) slab_ops \<Rightarrow> nat \<Rightarrow> bool \<Rightarrow> nat \<Rightarrow> nat \<Rightarrow> nat \<Rightarrow> mio_connection \<Rightarrow>
   's mio_worker \<Rightarrow> ('s mio_worker \<times> io_result) outcome" where
  "on_response S cid reg total_filled consumed response_len conn w =
     (case compact (mn_read_buf_idx conn) consumed total_filled (mw_buffers w) of
        Panicked \<Rightarrow> Panicked
      | Returned p \<Rightarrow>
          let p1 = release_opt (mn_read_chain conn) p;
              conn1 = conn\<lparr>mn_read_chain := None,
                           mn_data_state := ds_writing (mn_write_buf_idx conn) response_len\<rparr>
          in if reg
             then Returned (put_conn S cid (conn1\<lparr>mn_interest := Writable\<rparr>) (put_pool p1 w), None)
             else Returned (put_conn S cid conn1 (put_pool p1 w), Some OsError))"

definition on_large_response ::
  "('s, mio_connection) slab_ops \<Rightarrow> nat \<Rightarrow> bool \<Rightarrow> nat \<Rightarrow> nat \<Rightarrow> bytes \<Rightarrow> mio_connection \<Rightarrow>
   's mio_worker \<Rightarrow> ('s mio_worker \<times> io_result) outcome" where
  "on_large_response S cid reg total_filled consumed response_data conn w =
     (case compact (mn_read_buf_idx conn) consumed total_filled (mw_buffers w) of
        Panicked \<Rightarrow> Panicked
      | Returned p \<Rightarrow>
          let p1 = release_opt (mn_read_chain conn) p;
              conn1 = conn\<lparr>mn_read_chain := None\<rparr>
          in (case chain_append response_data (chain_new (bp_buffer_size p1)) p1 of
                Panicked \<Rightarrow> Panicked
              | Returned (chain, p2, Some PoolExhausted) \<Rightarrow>
                  Returned (put_conn S cid conn1 (put_pool (snd (chain_release chain p2)) w),
                            Some PoolExhaustedFor)
              | Returned (chain, p2, _) \<Rightarrow>
                  let conn2 = conn1\<lparr>mn_write_chain := Some chain,
                                    mn_data_state := Writing usize_max 0 (bc_len chain)\<rparr>
                  in if reg
                     then Returned (put_conn S cid (conn2\<lparr>mn_interest := Writable\<rparr>) (put_pool p2 w), None)
                     else Returned (put_conn S cid conn2 (put_pool p2 w), Some OsError)))"

text \<open>The \<^verbatim>\<open>match result\<close> of \<^verbatim>\<open>handle_readable\<close>.\<close>

definition on_result ::
  "('s, mio_connection) slab_ops \<Rightarrow> env \<Rightarrow> nat \<Rightarrow> bool \<Rightarrow> nat \<Rightarrow> process_result \<Rightarrow> mio_connection \<Rightarrow>
   's mio_worker \<Rightarrow> ('s mio_worker \<times> io_result) outcome" where
  "on_result S E cid reg total_filled result conn w =
     (case result of
        PNeedData \<Rightarrow> Returned (put_conn S cid (conn\<lparr>mn_data_state := ds_reading_with total_filled\<rparr>) w, None)
      | PNeedChain command_len value_len \<Rightarrow>
          on_need_chain S cid (ev_max_value_size E) total_filled command_len value_len conn w
      | PResponse consumed response_len \<Rightarrow>
          on_response S cid reg total_filled consumed response_len conn w
      | PLargeResponse consumed response_data \<Rightarrow>
          on_large_response S cid reg total_filled consumed response_data conn w
      | PQuit \<Rightarrow> Returned (w, Some ClientQuit)
      | PError \<Rightarrow> Returned (w, Some ProtocolError))"

definition handle_readable ::
  "('s, mio_connection) slab_ops \<Rightarrow> env \<Rightarrow> bytes io \<Rightarrow> bool \<Rightarrow> nat \<Rightarrow> 's mio_worker \<Rightarrow>
   ('s mio_worker \<times> io_result) outcome" where
  "handle_readable S E rd reg cid w =
     (case sl_get S (mw_connections w) cid of
        None \<Rightarrow> Returned (w, Some ConnectionNotFound)
      | Some conn \<Rightarrow>
          (case mn_data_state conn of
             Writing _ _ _ \<Rightarrow> Returned (w, None)
           | Reading filled \<Rightarrow>
               (case pool_get (mw_buffers w) (mn_read_buf_idx conn) of
                  Panicked \<Rightarrow> Panicked
                | Returned buf \<Rightarrow>
                    if filled > length buf then Panicked
                    else (case rd of
                            IoWouldBlock \<Rightarrow> Returned (w, None)
                          | IoError \<Rightarrow> Returned (w, Some OsError)
                          | IoOk pending \<Rightarrow>
                              let got = take (length buf - filled) pending in
                              if got = [] then Returned (w, Some Eof)
                              else
                                let buf1 = blit filled got buf;
                                    total_filled = filled + length got;
                                    p1 = pool_set (mn_read_buf_idx conn) buf1 (mw_buffers w)
                                in (case pool_get p1 (mn_write_buf_idx conn) of
                                      Panicked \<Rightarrow> Panicked
                                    | Returned out \<Rightarrow>
                                        (case process_protocol E (mn_protocol conn) (take total_filled buf1) out
                                                (mw_storage w) of
                                           (s', Panicked) \<Rightarrow> Panicked
                                         | (s', Returned (result, out')) \<Rightarrow>
                                             let w1 = w\<lparr>mw_buffers := pool_set (mn_write_buf_idx conn) out' p1,
                                                        mw_storage := s'\<rparr>
                                             in on_result S E cid reg total_filled result conn w1))))))"

section \<open>Writing\<close>

text \<open>
  What the socket takes of the bytes offered: \<open>Some n\<close>, or an early return of the handler with
  the result given.
\<close>

fun accept_bytes :: "bytes \<Rightarrow> nat io \<Rightarrow> io_result + nat" where
  "accept_bytes offered (IoOk k) =
     (let n = min k (length offered) in if n = 0 then Inl (Some WriteZero) else Inr n)"
| "accept_bytes offered IoWouldBlock = Inl None"
| "accept_bytes offered IoError = Inl (Some OsError)"

definition after_write ::
  "('s, mio_connection) slab_ops \<Rightarrow> bool \<Rightarrow> nat \<Rightarrow> nat \<Rightarrow> nat \<Rightarrow> nat \<Rightarrow> mio_connection \<Rightarrow>
   's mio_worker \<Rightarrow> 's mio_worker \<times> io_result" where
  "after_write S reg cid buf_idx new_written total_bytes conn w =
     (if new_written \<ge> total_bytes
      then let p = release_opt (mn_write_chain conn) (mw_buffers w);
               conn1 = conn\<lparr>mn_write_chain := None, mn_data_state := ds_reading\<rparr>
           in if reg then (put_conn S cid (conn1\<lparr>mn_interest := Readable\<rparr>) (put_pool p w), None)
              else (put_conn S cid conn1 (put_pool p w), Some OsError)
      else (put_conn S cid (conn\<lparr>mn_data_state := Writing buf_idx new_written total_bytes\<rparr>) w, None))"

definition handle_writable ::
  "('s, mio_connection) slab_ops \<Rightarrow> nat io \<Rightarrow> bool \<Rightarrow> nat \<Rightarrow> 's mio_worker \<Rightarrow>
   ('s mio_worker \<times> io_result \<times> bytes) outcome" where
  "handle_writable S wr reg cid w =
     (case sl_get S (mw_connections w) cid of
        None \<Rightarrow> Returned (w, Some ConnectionNotFound, [])
      | Some conn \<Rightarrow>
          (case mn_data_state conn of
             Reading _ \<Rightarrow> Returned (w, None, [])
           | Writing buf_idx written total_bytes \<Rightarrow>
               let finish = (\<lambda>n offered.
                     let (w', r) = after_write S reg cid buf_idx (written + n) total_bytes conn w
                     in Returned (w', r, take n offered));
                   send = (\<lambda>offered. case accept_bytes offered wr of
                     Inl r \<Rightarrow> Returned (w, r, [])
                   | Inr n \<Rightarrow> finish n offered)
               in if buf_idx = usize_max
                  then (case mn_write_chain conn of
                          None \<Rightarrow> Returned (w, Some MissingChain, [])
                        | Some chain \<Rightarrow>
                            (case io_slices chain (mw_buffers w) written of
                               Panicked \<Rightarrow> Panicked
                             | Returned slices \<Rightarrow>
                                 if slices = [] then finish 0 [] else send (concat slices)))
                  else (case pool_get (mw_buffers w) buf_idx of
                          Panicked \<Rightarrow> Panicked
                        | Returned buf \<Rightarrow>
                            (case slice written total_bytes buf of
                               Panicked \<Rightarrow> Panicked
                             | Returned offered \<Rightarrow> send offered))))"

section \<open>Accepting, closing, dispatching\<close>

definition close_connection ::
  "('s, mio_connection) slab_ops \<Rightarrow> nat \<Rightarrow> 's mio_worker \<Rightarrow> 's mio_worker" where
  "close_connection S cid w =
     (case sl_get S (mw_connections w) cid of
        None \<Rightarrow> w
      | Some conn \<Rightarrow>
          w\<lparr>mw_connections := sl_remove S (mw_connections w) cid,
            mw_buffers :=
              release_opt (mn_write_chain conn)
                (release_opt (mn_read_chain conn)
                  (pool_free (mn_write_buf_idx conn) (pool_free (mn_read_buf_idx conn) (mw_buffers w))))\<rparr>)"

text \<open>
  One accepted stream: a rejected one (limit or pool) is dropped and the loop goes on. The loop
  runs over the streams the listener yields before it would block or fails; \<open>regs\<close> says for each
  whether its registration succeeds, and a failure ends the worker.
\<close>

definition accept_one ::
  "('s, mio_connection) slab_ops \<Rightarrow> nat \<Rightarrow> protocol \<Rightarrow> bool \<Rightarrow> 's mio_worker \<Rightarrow> 's mio_worker \<times> bool" where
  "accept_one S max_connections proto reg w =
     (if sl_len S (mw_connections w) \<ge> max_connections then (w, True)
      else (case pool_alloc (mw_buffers w) of
              (p1, None) \<Rightarrow> (w, True)
            | (p1, Some read_buf_idx) \<Rightarrow>
                (case pool_alloc p1 of
                   (p2, None) \<Rightarrow> (put_pool (pool_free read_buf_idx p2) w, True)
                 | (p2, Some write_buf_idx) \<Rightarrow>
                     let conn = \<lparr>mn_data_state = ds_reading, mn_read_buf_idx = read_buf_idx,
                                 mn_write_buf_idx = write_buf_idx, mn_read_chain = None,
                                 mn_write_chain = None, mn_protocol = proto, mn_interest = Readable\<rparr>;
                         (conns, cid) = sl_insert S (mw_connections w) conn
                     in (w\<lparr>mw_connections := conns, mw_buffers := p2\<rparr>, reg))))"

fun accept_connections ::
  "('s, mio_connection) slab_ops \<Rightarrow> nat \<Rightarrow> protocol \<Rightarrow> bool list \<Rightarrow> 's mio_worker \<Rightarrow> 's mio_worker \<times> bool" where
  "accept_connections S max_connections proto [] w = (w, True)"
| "accept_connections S max_connections proto (reg # regs) w =
     (let (w1, ok) = accept_one S max_connections proto reg w
      in if ok then accept_connections S max_connections proto regs w1 else (w1, False))"

text \<open>\<^verbatim>\<open>handle_connection_event\<close>: the event's readiness, with the answers of the calls it leads to.\<close>

definition handle_connection_event ::
  "('s, mio_connection) slab_ops \<Rightarrow> env \<Rightarrow> bool \<Rightarrow> bool \<Rightarrow> bytes io \<Rightarrow> nat io \<Rightarrow> bool \<times> bool \<Rightarrow> nat \<Rightarrow>
   's mio_worker \<Rightarrow> ('s mio_worker \<times> io_result \<times> bytes) outcome" where
  "handle_connection_event S E readable writable rd wr reg cid w =
     (if sl_get S (mw_connections w) cid = None then Returned (w, None, [])
      else (case (if readable then handle_readable S E rd (fst reg) cid w else Returned (w, None)) of
              Panicked \<Rightarrow> Panicked
            | Returned (w1, Some e) \<Rightarrow> Returned (w1, Some e, [])
            | Returned (w1, None) \<Rightarrow>
                if sl_get S (mw_connections w1) cid = None then Returned (w1, None, [])
                else if writable then handle_writable S wr (snd reg) cid w1
                else Returned (w1, None, [])))"

datatype mio_event =
    ListenerEvent "bool list"
  | ConnEvent nat bool bool "bytes io" "nat io" "bool \<times> bool" env

text \<open>
  The body of the worker's loop for one event. \<open>None\<close> stands for the end of the worker: a panic,
  or an error of \<^verbatim>\<open>accept_connections\<close>, which \<^verbatim>\<open>worker_loop\<close> returns.
\<close>

fun worker_event ::
  "('s, mio_connection) slab_ops \<Rightarrow> nat \<Rightarrow> protocol \<Rightarrow> mio_event \<Rightarrow> 's mio_worker \<Rightarrow>
   ('s mio_worker \<times> bytes) option" where
  "worker_event S max_connections proto (ListenerEvent regs) w =
     (case accept_connections S max_connections proto regs w of
        (w', True) \<Rightarrow> Some (w', []) | (w', False) \<Rightarrow> None)"
| "worker_event S max_connections proto (ConnEvent cid readable writable rd wr reg E) w =
     (case handle_connection_event S E readable writable rd wr reg cid w of
        Panicked \<Rightarrow> None
      | Returned (w', None, sent) \<Rightarrow> Some (w', sent)
      | Returned (w', Some e, sent) \<Rightarrow> Some (close_connection S cid w', sent))"

definition worker_new :: "('s, mio_connection) slab_ops \<Rightarrow> nat \<Rightarrow> nat \<Rightarrow> storage \<Rightarrow> 's mio_worker" where
  "worker_new S max_connections buffer_size s =
     \<lparr>mw_connections = sl_new S, mw_buffers = pool_new (max_connections * 3 mod 2 ^ 64) buffer_size,
      mw_storage = s\<rparr>"

end
