(* ===== verification/Ledger.thy ===== *)
theory Ledger
  imports Buffer "HOL-Library.Multiset"
begin

text \<open>
  Who owns which buffer. Both event loops keep their connections in a table and their buffers in
  a pool; the ledger says that every buffer is free or belongs to exactly one connection, once,
  for any function \<open>own\<close> that lists the buffers of a connection. The lemmas say which steps
  keep the ledger: an exchange of buffers between one connection and the free list, a new
  connection, a connection that goes, and a change of a buffer's contents.
\<close>

section \<open>The ledger\<close>

text \<open>
  The ledger: every buffer is free or owned by exactly one connection, once.
\<close>

definition books :: "('c \<Rightarrow> nat list) \<Rightarrow> (nat \<rightharpoonup> 'c) \<Rightarrow> buffer_pool \<Rightarrow> bool" where
  "books own G p =
     (pool_ok p \<and>
      (\<forall>i c. G i = Some c \<longrightarrow>
         distinct (own c) \<and> set (own c) \<inter> set (bp_free_list p) = {} \<and>
         set (own c) \<subseteq> {..<length (bp_buffers p)}) \<and>
      (\<forall>i j c d. G i = Some c \<longrightarrow> G j = Some d \<longrightarrow> i \<noteq> j \<longrightarrow> set (own c) \<inter> set (own d) = {}) \<and>
      (\<forall>k<length (bp_buffers p).
         k \<in> set (bp_free_list p) \<or> (\<exists>i c. G i = Some c \<and> k \<in> set (own c))))"

lemma books_pool: "books own G p \<Longrightarrow> pool_ok p"
  by (simp add: books_def)

lemma books_conn:
  "books own G p \<Longrightarrow> G i = Some c \<Longrightarrow>
    distinct (own c) \<and> set (own c) \<inter> set (bp_free_list p) = {} \<and>
    set (own c) \<subseteq> {..<length (bp_buffers p)}"
  unfolding books_def by blast

lemma books_apart:
  "books own G p \<Longrightarrow> G i = Some c \<Longrightarrow> G j = Some d \<Longrightarrow> i \<noteq> j \<Longrightarrow> set (own c) \<inter> set (own d) = {}"
  unfolding books_def by blast

lemma books_cover:
  "books own G p \<Longrightarrow> k < length (bp_buffers p) \<Longrightarrow> k \<notin> set (bp_free_list p) \<Longrightarrow>
    \<exists>i c. G i = Some c \<and> k \<in> set (own c)"
  unfolding books_def by blast

lemma books_elsewhere:
  assumes "books own G p" "k < length (bp_buffers p)" "k \<notin> set (bp_free_list p)"
    "\<And>c. G i = Some c \<Longrightarrow> k \<notin> set (own c)"
  obtains j d where "j \<noteq> i" "G j = Some d" "k \<in> set (own d)"
  using books_cover [OF assms(1-3)] assms(4) by metis

lemma free_in_range: "pool_ok p \<Longrightarrow> set (bp_free_list p) \<subseteq> {..<length (bp_buffers p)}"
  by (auto simp: pool_ok_def list_all_iff)

text \<open>A connection may exchange buffers with the free list; everyone else is unaffected.\<close>

lemma books_exchange:
  assumes b: "books own G p" and c: "G i = Some c" and "pool_ok p'"
    and len: "length (bp_buffers p') = length (bp_buffers p)"
    and "distinct (own c')" "set (own c') \<inter> set (bp_free_list p') = {}"
    and u: "set (own c') \<union> set (bp_free_list p') = set (own c) \<union> set (bp_free_list p)"
  shows "books own (G(i \<mapsto> c')) p'"
proof -
  have range: "set (own c') \<subseteq> {..<length (bp_buffers p')}"
    using u books_conn [OF b c] free_in_range [OF books_pool [OF b]] len by auto
  have other: "set (own c') \<inter> set (own d) = {} \<and> set (own d) \<inter> set (bp_free_list p') = {}"
    if "G j = Some d" "j \<noteq> i" for j d
    using u books_apart [OF b c that(1)] books_conn [OF b that(1)] that(2) by blast
  have cover: "k \<in> set (bp_free_list p') \<or> (\<exists>j d. (G(i \<mapsto> c')) j = Some d \<and> k \<in> set (own d))"
    if kl: "k < length (bp_buffers p')" for k
  proof (cases "k \<in> set (own c') \<union> set (bp_free_list p')")
    case False
    then have out: "k \<notin> set (own c)" "k \<notin> set (bp_free_list p)" using u by auto
    obtain j d where "j \<noteq> i" "G j = Some d" "k \<in> set (own d)"
      by (rule books_elsewhere [OF b, of k i]) (use out kl len c in auto)
    then show ?thesis by (intro disjI2 exI [of _ j] exI [of _ d]) simp
  qed auto
  show ?thesis
    unfolding books_def
  proof (intro conjI allI impI)
    fix j k d e
    assume "(G(i \<mapsto> c')) j = Some d" "(G(i \<mapsto> c')) k = Some e" "j \<noteq> k"
    then show "set (own d) \<inter> set (own e) = {}"
      using other books_apart [OF b] by (cases "j = i"; cases "k = i") (auto simp: Int_commute)
  next
    fix j d
    assume "(G(i \<mapsto> c')) j = Some d"
    then show "distinct (own d)" "set (own d) \<inter> set (bp_free_list p') = {}"
      "set (own d) \<subseteq> {..<length (bp_buffers p')}"
      using other assms(5,6) range books_conn [OF b] len by (cases "j = i"; auto)+
  qed (use assms(3) cover in auto)
qed

lemma books_insert:
  assumes b: "books own G p" and new: "G i = None" and "pool_ok p'"
    and len: "length (bp_buffers p') = length (bp_buffers p)"
    and "distinct (own c)" "set (own c) \<inter> set (bp_free_list p') = {}"
    and u: "set (own c) \<union> set (bp_free_list p') = set (bp_free_list p)"
  shows "books own (G(i \<mapsto> c)) p'"
proof -
  have range: "set (own c) \<subseteq> {..<length (bp_buffers p')}"
    using u free_in_range [OF books_pool [OF b]] len by auto
  have other: "set (own c) \<inter> set (own d) = {} \<and> set (own d) \<inter> set (bp_free_list p') = {}"
    if "G j = Some d" for j d
    using books_conn [OF b that] u by blast
  have cover: "k \<in> set (bp_free_list p') \<or> (\<exists>j d. (G(i \<mapsto> c)) j = Some d \<and> k \<in> set (own d))"
    if kl: "k < length (bp_buffers p')" for k
  proof (cases "k \<in> set (own c) \<union> set (bp_free_list p')")
    case False
    then have out: "k \<notin> set (bp_free_list p)" using u by auto
    obtain j d where "j \<noteq> i" "G j = Some d" "k \<in> set (own d)"
      by (rule books_elsewhere [OF b, of k i]) (use out kl len new in auto)
    then show ?thesis by (intro disjI2 exI [of _ j] exI [of _ d]) simp
  qed auto
  show ?thesis
    unfolding books_def
  proof (intro conjI allI impI)
    fix j k d e
    assume "(G(i \<mapsto> c)) j = Some d" "(G(i \<mapsto> c)) k = Some e" "j \<noteq> k"
    then show "set (own d) \<inter> set (own e) = {}"
      using other books_apart [OF b] by (cases "j = i"; cases "k = i") (auto simp: Int_commute)
  next
    fix j d
    assume "(G(i \<mapsto> c)) j = Some d"
    then show "distinct (own d)" "set (own d) \<inter> set (bp_free_list p') = {}"
      "set (own d) \<subseteq> {..<length (bp_buffers p')}"
      using other assms(5,6) range books_conn [OF b] len by (cases "j = i"; auto)+
  qed (use assms(3) cover in auto)
qed

lemma books_remove:
  assumes b: "books own G p" and c: "G i = Some c" and "pool_ok p'"
    and len: "length (bp_buffers p') = length (bp_buffers p)"
    and u: "set (bp_free_list p') = set (own c) \<union> set (bp_free_list p)"
  shows "books own (G(i := None)) p'"
proof -
  have other: "set (own d) \<inter> set (bp_free_list p') = {}" if "G j = Some d" "j \<noteq> i" for j d
    using u books_apart [OF b c that(1)] books_conn [OF b that(1)] that(2) by blast
  have cover: "k \<in> set (bp_free_list p') \<or> (\<exists>j d. (G(i := None)) j = Some d \<and> k \<in> set (own d))"
    if kl: "k < length (bp_buffers p')" for k
  proof (cases "k \<in> set (bp_free_list p')")
    case False
    then have out: "k \<notin> set (own c)" "k \<notin> set (bp_free_list p)" using u by auto
    obtain j d where "j \<noteq> i" "G j = Some d" "k \<in> set (own d)"
      by (rule books_elsewhere [OF b, of k i]) (use out kl len c in auto)
    then show ?thesis by (intro disjI2 exI [of _ j] exI [of _ d]) simp
  qed auto
  show ?thesis
    unfolding books_def
  proof (intro conjI allI impI)
    fix j k d e
    assume "(G(i := None)) j = Some d" "(G(i := None)) k = Some e" "j \<noteq> k"
    then show "set (own d) \<inter> set (own e) = {}"
      using books_apart [OF b] by (auto split: if_splits)
  next
    fix j d
    assume "(G(i := None)) j = Some d"
    then show "distinct (own d)" "set (own d) \<inter> set (bp_free_list p') = {}"
      "set (own d) \<subseteq> {..<length (bp_buffers p')}"
      using other books_conn [OF b] len by (auto split: if_splits)
  qed (use assms(3) cover in auto)
qed

text \<open>Changing the contents of a buffer changes no ownership.\<close>

lemma pool_set_fields [simp]:
  "bp_free_list (pool_set i b p) = bp_free_list p" "length (bp_buffers (pool_set i b p)) = length (bp_buffers p)"
  "bp_buffer_size (pool_set i b p) = bp_buffer_size p"
  by (simp_all add: pool_set_def)

lemma pool_set_ok:
  assumes "pool_ok p" "i < length (bp_buffers p) \<Longrightarrow> length b = bp_buffer_size p"
  shows "pool_ok (pool_set i b p)"
proof -
  have "length ((bp_buffers p)[i := b] ! n) = bp_buffer_size p" if "n < length (bp_buffers p)" for n
    using that assms by (cases "n = i") (auto simp: pool_ok_def list_all_length)
  with assms(1) show ?thesis by (simp add: pool_ok_def pool_set_def list_all_length)
qed

lemma books_pool_set:
  assumes "books own G p" "i < length (bp_buffers p) \<Longrightarrow> length b = bp_buffer_size p"
  shows "books own G (pool_set i b p)"
  using assms pool_set_ok [OF books_pool, of own G p i b] by (simp add: books_def)

lemma pool_get_length: "pool_ok p \<Longrightarrow> pool_get p i = Returned b \<Longrightarrow> length b = bp_buffer_size p \<and> i < length (bp_buffers p)"
  by (auto simp: pool_ok_def pool_get_def list_all_length split: if_splits)

lemma pool_give_ok:
  assumes "pool_ok p" "bp_buffers p' = bp_buffers p" "bp_buffer_size p' = bp_buffer_size p"
    "bp_free_list p' = bp_free_list p @ js" "distinct js" "set js \<inter> set (bp_free_list p) = {}"
    "set js \<subseteq> {..<length (bp_buffers p)}"
  shows "pool_ok p'"
  using assms by (auto simp: pool_ok_def list_all_iff)

section \<open>Exchanges\<close>

text \<open>
  One owner exchanges buffers with the free list: it owned \<open>os\<close> and owns \<open>os'\<close> afterwards, and
  the contents of the buffers that are neither its own nor free stay.
\<close>

definition exchange :: "buffer_pool \<Rightarrow> nat list \<Rightarrow> buffer_pool \<Rightarrow> nat list \<Rightarrow> bool" where
  "exchange p os p' os' =
     (pool_ok p' \<and> length (bp_buffers p') = length (bp_buffers p) \<and> bp_buffer_size p' = bp_buffer_size p \<and>
      distinct os' \<and> set os' \<inter> set (bp_free_list p') = {} \<and>
      set os' \<union> set (bp_free_list p') = set os \<union> set (bp_free_list p) \<and>
      (\<forall>k. k \<notin> set os \<union> set (bp_free_list p) \<longrightarrow> bp_buffers p' ! k = bp_buffers p ! k))"

lemma exchange_books:
  "books own G p \<Longrightarrow> G i = Some c \<Longrightarrow> exchange p (own c) p' (own c') \<Longrightarrow> books own (G(i \<mapsto> c')) p'"
  by (rule books_exchange) (simp_all add: exchange_def)

lemma exchange_frame:
  assumes "books own G p" "G i = Some c" "exchange p (own c) p' os'" "G j = Some d" "j \<noteq> i" "k \<in> set (own d)"
  shows "bp_buffers p' ! k = bp_buffers p ! k"
proof -
  have "k \<notin> set (own c) \<union> set (bp_free_list p)"
    using books_apart [OF assms(1,2,4)] books_conn [OF assms(1,4)] assms(5,6) by blast
  with assms(3) show ?thesis by (simp add: exchange_def)
qed

lemma exchange_refl:
  "pool_ok p \<Longrightarrow> distinct os \<Longrightarrow> set os \<inter> set (bp_free_list p) = {} \<Longrightarrow> exchange p os p os"
  by (simp add: exchange_def)

lemma exchange_trans: "exchange p os p1 os1 \<Longrightarrow> exchange p1 os1 p2 os2 \<Longrightarrow> exchange p os p2 os2"
  unfolding exchange_def by (metis (no_types, lifting))

lemma exchange_fill:
  assumes "exchange p os p' os'" "i \<in> set os'" "length b = bp_buffer_size p"
  shows "exchange p os (pool_set i b p') os'"
proof -
  have "i \<in> set os \<union> set (bp_free_list p)" using assms(1,2) by (auto simp: exchange_def)
  moreover have "pool_ok (pool_set i b p')" using assms(1,3) by (simp add: exchange_def pool_set_ok)
  moreover have "k \<noteq> i \<Longrightarrow> bp_buffers (pool_set i b p') ! k = bp_buffers p' ! k" for k
    by (simp add: pool_set_def)
  ultimately show ?thesis using assms(1) unfolding exchange_def by (metis pool_set_fields)
qed

lemma exchange_give:
  assumes "pool_ok p" "distinct os" "set os \<inter> set (bp_free_list p) = {}" "set os \<subseteq> {..<length (bp_buffers p)}"
    and "mset os = mset os' + mset js"
    and "bp_free_list p' = bp_free_list p @ js" "bp_buffers p' = bp_buffers p" "bp_buffer_size p' = bp_buffer_size p"
  shows "exchange p os p' os'"
proof -
  have d: "distinct (os' @ js)" using assms(2,5) by (metis mset_append mset_eq_imp_distinct_iff)
  have s: "set os = set os' \<union> set js" using assms(5) by (metis mset_append set_append set_mset_mset)
  have "pool_ok p'"
    by (rule pool_give_ok [OF assms(1), where js = js]) (use d s assms in auto)
  with d s assms show ?thesis by (auto simp: exchange_def)
qed

lemma exchange_take:
  assumes "pool_ok p" "distinct os" "set os \<inter> set (bp_free_list p) = {}" "m \<le> length (bp_free_list p)"
    "mset os' = mset os + mset (take m (rev (bp_free_list p)))"
  shows "exchange p os (p\<lparr>bp_free_list := take (length (bp_free_list p) - m) (bp_free_list p)\<rparr>) os'"
proof -
  let ?F = "bp_free_list p" and ?k = "length (bp_free_list p) - m"
  have ids: "mset (take m (rev ?F)) = mset (drop ?k ?F)" by (simp add: take_rev)
  have F: "distinct (take ?k ?F @ drop ?k ?F)" using assms(1) by (simp add: pool_ok_def)
  have s: "set os' = set os \<union> set (drop ?k ?F)"
    using assms(5) ids by (metis mset_append set_append set_mset_mset)
  have "distinct (os @ drop ?k ?F)"
    using assms(2,3) F in_set_dropD by (fastforce simp: disjoint_iff)
  then have "distinct os'"
    using assms(5) ids by (metis mset_append mset_eq_imp_distinct_iff)
  moreover have "set ?F = set (take ?k ?F) \<union> set (drop ?k ?F)"
    by (metis append_take_drop_id set_append)
  moreover have "set os \<inter> set (take ?k ?F) = {}" using assms(3) in_set_takeD by fastforce
  moreover have "set (drop ?k ?F) \<inter> set (take ?k ?F) = {}"
    using F by (simp only: distinct_append Int_commute)
  moreover have "pool_ok (p\<lparr>bp_free_list := take ?k ?F\<rparr>)"
    using assms(1) in_set_takeD by (fastforce simp: pool_ok_def list_all_iff)
  ultimately show ?thesis using s by (auto simp: exchange_def)
qed

lemma exchange_alloc:
  assumes "pool_ok p" "distinct os" "set os \<inter> set (bp_free_list p) = {}" "pool_alloc p = (p', Some i)"
  shows "exchange p os p' (i # os)" "i < length (bp_buffers p)" "i \<notin> set os"
proof -
  obtain xs where xs: "bp_free_list p = xs @ [i]" "p' = p\<lparr>bp_free_list := xs\<rparr>"
    using assms(4) by (auto simp: pool_alloc_def split: if_splits) (metis append_butlast_last_id)
  then show "i < length (bp_buffers p)" "i \<notin> set os" using assms(1,3) by (auto simp: pool_ok_def list_all_iff)
  with xs assms show "exchange p os p' (i # os)" by (auto simp: exchange_def pool_ok_def list_all_iff)
qed

end
