(* ===== verification/Mio_Runs.thy ===== *)
theory Mio_Runs
  imports Mio_Correct
begin

text \<open>
  Runs of the mio worker, from an empty worker through any sequence of events: the books stay
  balanced, connections do not disturb each other, only a protocol handler can end the worker,
  and a response that fits a buffer reaches the client whole. The last section states where
  the loop loses requests or drops connections.
\<close>

section \<open>Runs\<close>

text \<open>\<^verbatim>\<open>worker_loop\<close> over a sequence of events; \<open>None\<close> is a worker that has ended.\<close>

fun worker_step ::
  "('s, mio_connection) slab_ops \<Rightarrow> nat \<Rightarrow> protocol \<Rightarrow> mio_event \<Rightarrow> 's mio_worker option \<Rightarrow>
   's mio_worker option \<times> bytes" where
  "worker_step S mx proto e None = (None, [])"
| "worker_step S mx proto e (Some w) =
     (case worker_event S mx proto e w of None \<Rightarrow> (None, []) | Some (w', sent) \<Rightarrow> (Some w', sent))"

lemma worker_new_inv: "slab_laws S ok \<Longrightarrow> worker_inv S ok mx (mx * 3 mod 2 ^ 64) bs (worker_new S mx bs s)"
  using slab_new [of S ok] slab_len [of S ok "sl_new S"] pool_new_ok [of "mx * 3 mod 2 ^ 64" bs]
  by (auto simp: worker_inv_def worker_new_def books_def pool_new_def)

lemma worker_stepwise:
  assumes "slab_laws S ok" "0 < bs"
  shows "stepwise_invariant (worker_step S mx proto) (\<lambda>_ _. True) (alive (worker_inv S ok mx n bs))"
proof
  fix st e
  assume "alive (worker_inv S ok mx n bs) st"
  with worker_event_inv [OF assms(1) _ assms(2)] show "alive (worker_inv S ok mx n bs) (fst (worker_step S mx proto e st))"
    by (cases st; cases "worker_event S mx proto e (the st)") auto
qed

lemma run_inv:
  assumes "slab_laws S ok" "0 < bs" "worker_inv S ok mx n bs w0"
    and "fst (run (worker_step S mx proto) evs (Some w0)) = Some w"
  shows "worker_inv S ok mx n bs w"
  using stepwise_invariant.inv_run [OF worker_stepwise [OF assms(1,2)] _ admissible_always, of mx n "Some w0" proto evs]
    assms(3,4) by simp

lemmas reachable_inv = run_inv [OF _ _ worker_new_inv]

section \<open>An example run\<close>

text \<open>
  A worker for one or two ping connections with buffers of 16 bytes, on the concrete slab, evaluated by
  rewriting with the definitions of the loop.
\<close>

lemmas mio_eval = worker_new_def pool_new_def accept_one_def vec_slab_def pool_alloc_def vec_get_def
  ds_reading_def handle_connection_event_def handle_readable_def handle_writable_def pool_get_def
  pool_set_def Let_def process_protocol_def on_result_def on_response_def compact_def release_opt_def
  put_conn_def put_pool_def after_write_def close_connection_def ds_writing_def ds_reading_with_def
  usize_max_def slice_def blit_def upt_rec pool_free_def

definition example_conn :: mio_connection where
  "example_conn =
     \<lparr>mn_data_state = Reading 0, mn_read_buf_idx = 2, mn_write_buf_idx = 1, mn_read_chain = None,
      mn_write_chain = None, mn_protocol = ProtoPing, mn_interest = Readable\<rparr>"

definition example_worker :: "mio_connection option list mio_worker" where
  "example_worker =
     \<lparr>mw_connections = [Some example_conn],
      mw_buffers = (pool_new 3 16)\<lparr>bp_free_list := [0]\<rparr>, mw_storage = storage_new length 100 0\<rparr>"

lemma example_accept:
  "fst (run (worker_step vec_slab 1 ProtoPing) [ListenerEvent [True]]
     (Some (worker_new vec_slab 1 16 (storage_new length 100 0)))) = Some example_worker"
  by (simp add: mio_eval example_worker_def example_conn_def)

definition example_pair :: "mio_connection option list mio_worker" where
  "example_pair =
     \<lparr>mw_connections = [Some (example_conn\<lparr>mn_read_buf_idx := 5, mn_write_buf_idx := 4\<rparr>),
        Some (example_conn\<lparr>mn_read_buf_idx := 3, mn_write_buf_idx := 2\<rparr>)],
      mw_buffers = (pool_new 6 16)\<lparr>bp_free_list := [0, 1]\<rparr>, mw_storage = storage_new length 100 0\<rparr>"

lemma example_accept_two:
  "fst (run (worker_step vec_slab 2 ProtoPing) [ListenerEvent [True, True]]
     (Some (worker_new vec_slab 2 16 (storage_new length 100 0)))) = Some example_pair"
  by (simp add: mio_eval example_pair_def example_conn_def)

lemma example_get: "sl_get vec_slab (mw_connections example_worker) 0 = Some example_conn"
  by (simp add: example_worker_def vec_slab_def vec_get_def)

text \<open>
  C13. Buffers never leak and are never shared: after any sequence of events, whatever the kernel
  answers, every buffer of the pool is free or belongs to exactly one connection and once; the
  worker never has more connections than its limit; and a connection's state agrees with its
  buffers (what is filled fits the read buffer, what is being written lies in its own write
  buffer or in its own chain).
\<close>

theorem mio_ownership:
  assumes "slab_laws S ok" "0 < bs"
    and "fst (run (worker_step S mx proto) evs (Some (worker_new S mx bs s0))) = Some w"
  shows "books owned (sl_get S (mw_connections w)) (mw_buffers w) \<and> length (bp_buffers (mw_buffers w)) = mx * 3 mod 2 ^ 64
    \<and> card (dom (sl_get S (mw_connections w))) \<le> mx
    \<and> (\<forall>i c. sl_get S (mw_connections w) i = Some c \<longrightarrow> conn_ok bs c)"
  using reachable_inv [OF assms(1,2,1,3)] slab_len [OF assms(1), of "mw_connections w"]
  by (simp add: worker_inv_def)

theorem mio_ownership_witness:
  "books owned (sl_get vec_slab (mw_connections example_worker)) (mw_buffers example_worker)
    \<and> length (bp_buffers (mw_buffers example_worker)) = 3
    \<and> card (dom (sl_get vec_slab (mw_connections example_worker))) \<le> 1 \<and> conn_ok 16 example_conn"
  using mio_ownership [OF vec_slab_laws _ example_accept] example_get by simp

text \<open>An event that is not about a connection leaves it and its buffers alone.\<close>

fun targets :: "nat \<Rightarrow> mio_event \<Rightarrow> bool" where
  "targets cid (ListenerEvent regs) = False"
| "targets cid (ConnEvent i rb wb rd wr reg E) = (i = cid)"

lemma event_isolates:
  assumes "slab_laws S ok" "worker_inv S ok mx n bs w" "0 < bs" "worker_event S mx proto e w = Some (w', sent)"
    and c: "sl_get S (mw_connections w) i = Some c" and e: "\<not> targets i e"
  shows "sl_get S (mw_connections w') i = Some c \<and>
    (\<forall>k\<in>set (owned c). bp_buffers (mw_buffers w') ! k = bp_buffers (mw_buffers w) ! k)"
proof (cases e)
  case (ListenerEvent regs)
  with worker_event_effect [OF assms(1-4)] c show ?thesis by (auto simp: extends_def map_le_def dom_def)
next
  case (ConnEvent cid rb wb rd wr reg E)
  with worker_event_effect [OF assms(1-4)] have "keeps S ok mx n bs cid w w'" by simp
  moreover have "i \<noteq> cid" using e ConnEvent by simp
  ultimately show ?thesis using c unfolding keeps_def by simp
qed

text \<open>
  C22. Connections do not disturb each other: an event on one connection leaves every other
  connection, and the contents of every buffer it owns, as they were; accepting new connections
  leaves all of them.
\<close>

theorem mio_isolation:
  assumes "slab_laws S ok" "0 < bs"
    and "fst (run (worker_step S mx proto) evs (Some (worker_new S mx bs s0))) = Some w"
    and "worker_event S mx proto e w = Some (w', sent)"
    and "sl_get S (mw_connections w) i = Some c" "\<not> targets i e"
  shows "sl_get S (mw_connections w') i = Some c \<and>
    (\<forall>k\<in>set (owned c). bp_buffers (mw_buffers w') ! k = bp_buffers (mw_buffers w) ! k)"
  by (rule event_isolates [OF assms(1) reachable_inv [OF assms(1,2,1,3)] assms(2,4,5,6)])

theorem mio_isolation_witness:
  "\<exists>w' sent. worker_event vec_slab 2 ProtoPing
      (ConnEvent 1 True False (IoOk (''PING'' @ crlf)) IoWouldBlock (True, True) example_env) example_pair = Some (w', sent) \<and>
    sl_get vec_slab (mw_connections w') 0 = Some (example_conn\<lparr>mn_read_buf_idx := 5, mn_write_buf_idx := 4\<rparr>) \<and>
    bp_buffers (mw_buffers w') ! 5 = replicate 16 (CHR 0x00) \<and> bp_buffers (mw_buffers w') ! 4 = replicate 16 (CHR 0x00)"
proof -
  let ?e = "ConnEvent 1 True False (IoOk (''PING'' @ crlf)) IoWouldBlock (True, True) example_env"
  let ?c = "example_conn\<lparr>mn_read_buf_idx := 5, mn_write_buf_idx := 4\<rparr>"
  have get: "sl_get vec_slab (mw_connections example_pair) 0 = Some ?c"
    by (simp add: example_pair_def vec_slab_def vec_get_def)
  have "worker_event vec_slab 2 ProtoPing ?e example_pair \<noteq> None"
    by (simp add: mio_eval example_pair_def example_conn_def process_ping_def ping_parse_def rust_eval crlf_def
        response_pong_def)
  then obtain w' sent where ev: "worker_event vec_slab 2 ProtoPing ?e example_pair = Some (w', sent)" by auto
  with mio_isolation [OF vec_slab_laws _ example_accept_two ev get] show ?thesis
    by (simp add: owned_def example_conn_def) (simp add: example_pair_def pool_new_def numeral_eq_Suc)
qed

text \<open>
  C23. What can end the worker: in every reachable state an event on a connection ends it exactly
  when it brings bytes on which the handler of the connection's protocol panics; no index out
  of range, no missing buffer and no other panic of the loop is possible. An event of the listener
  ends it only when the registration of a stream it accepted fails.
\<close>

theorem mio_never_stuck:
  assumes "slab_laws S ok" "0 < bs"
    and "fst (run (worker_step S mx proto) evs (Some (worker_new S mx bs s0))) = Some w"
  shows "(worker_event S mx proto (ConnEvent cid rb wb rd wr reg E) w = None \<longleftrightarrow> rb \<and> handler_panics S E rd cid w) \<and>
    (worker_event S mx proto (ListenerEvent regs) w = None \<longrightarrow> False \<in> set regs)"
proof
  note inv = reachable_inv [OF assms(1,2,1,3)]
  let ?h = "handle_connection_event S E rb wb rd wr reg cid w"
  have "worker_event S mx proto (ConnEvent cid rb wb rd wr reg E) w = None \<longleftrightarrow> ?h = Panicked"
    by (auto split: outcome.splits option.splits)
  moreover have "?h = Panicked \<longleftrightarrow> rb \<and> handler_panics S E rd cid w"
  proof
    show "?h = Panicked \<Longrightarrow> rb \<and> handler_panics S E rd cid w"
      using connection_event_inv [OF assms(1) inv assms(2), where E = E and rb = rb and wb = wb and rd = rd
          and wr = wr and reg = reg and cid = cid] by simp
  qed (use handler_panics_ends [OF inv] in \<open>auto simp: handle_connection_event_def\<close>)
  ultimately show "worker_event S mx proto (ConnEvent cid rb wb rd wr reg E) w = None \<longleftrightarrow> rb \<and> handler_panics S E rd cid w"
    by simp
  show "worker_event S mx proto (ListenerEvent regs) w = None \<longrightarrow> False \<in> set regs"
    using accept_connections_ok [of regs S mx proto w] by (cases "False \<in> set regs") (auto split: prod.splits bool.splits)
qed

text \<open>
  Both ways at once: a ping connection survives any bytes; a memcached connection ends its worker
  with a time to live that overflows the clock.
\<close>

definition overflowing_set :: bytes where
  "overflowing_set = ''set k 0 18446744073709551615 0'' @ crlf @ crlf"

definition example_memcached :: "mio_connection option list mio_worker" where
  "example_memcached =
     \<lparr>mw_connections = [Some \<lparr>mn_data_state = Reading 0, mn_read_buf_idx = 2, mn_write_buf_idx = 1, mn_read_chain = None,
        mn_write_chain = None, mn_protocol = ProtoMemcached, mn_interest = Readable\<rparr>],
      mw_buffers = (pool_new 3 64)\<lparr>bp_free_list := [0]\<rparr>, mw_storage = storage_new length 100 0\<rparr>"

lemma example_memcached_accept:
  "fst (run (worker_step vec_slab 1 ProtoMemcached) [ListenerEvent [True]]
     (Some (worker_new vec_slab 1 64 (storage_new length 100 0)))) = Some example_memcached"
  by (simp add: mio_eval example_memcached_def)

lemma overflowing_set_panics:
  "snd (process_protocol example_env ProtoMemcached overflowing_set out (storage_new length 100 0)) = Panicked"
  by (simp add: process_protocol_def process_memcached_def mc_parse_def overflowing_set_def crlf_def rust_eval
      set_item_def calculate_expiry_def storage_new_def i64_max_def answer_def)

theorem mio_never_stuck_witness:
  "worker_event vec_slab 1 ProtoPing (ConnEvent 0 True True (IoOk overflowing_set) (IoOk 3) (True, False) example_env) example_worker \<noteq> None \<and>
   worker_event vec_slab 1 ProtoMemcached (ConnEvent 0 True False (IoOk overflowing_set) IoWouldBlock (True, True) example_env)
     example_memcached = None"
proof -
  have "\<not> handler_panics vec_slab example_env (IoOk overflowing_set) 0 example_worker"
    using example_get by (simp add: handler_panics_def process_protocol_def example_conn_def)
  moreover have "handler_panics vec_slab example_env (IoOk overflowing_set) 0 example_memcached"
    using overflowing_set_panics
    by (simp add: handler_panics_def example_memcached_def vec_slab_def vec_get_def pool_new_def overflowing_set_def crlf_def)
  ultimately show ?thesis
    using mio_never_stuck [OF vec_slab_laws _ example_accept, where cid = 0 and rb = True and rd = "IoOk overflowing_set"]
      mio_never_stuck [OF vec_slab_laws _ example_memcached_accept, where cid = 0 and rb = True and rd = "IoOk overflowing_set"]
    by (auto simp del: worker_event.simps)
qed

section \<open>Delivery of a response\<close>

text \<open>
  Events while a response is being written: those on the connection say that it is writable, the
  kernel takes at least one byte or would block, and the poll registry works; any events may
  come for the other connections and for the listener.
\<close>

fun write_answer_ok :: "nat io \<Rightarrow> bool" where
  "write_answer_ok (IoOk k) = (0 < k)"
| "write_answer_ok IoWouldBlock = True"
| "write_answer_ok IoError = False"

fun io_amount :: "nat io \<Rightarrow> nat" where
  "io_amount (IoOk k) = k"
| "io_amount _ = 0"

fun lets_write :: "nat \<Rightarrow> mio_event \<Rightarrow> bool" where
  "lets_write cid (ListenerEvent regs) = True"
| "lets_write cid (ConnEvent i rb wb rd wr reg E) = (i = cid \<longrightarrow> \<not> rb \<and> wb \<and> write_answer_ok wr \<and> snd reg)"

fun offers :: "nat \<Rightarrow> mio_event \<Rightarrow> nat" where
  "offers cid (ListenerEvent regs) = 0"
| "offers cid (ConnEvent i rb wb rd wr reg E) = (if i = cid then io_amount wr else 0)"

fun sent_to :: "nat \<Rightarrow> mio_event list \<Rightarrow> bytes list \<Rightarrow> bytes" where
  "sent_to cid (e # es) (b # bs) = (if targets cid e then b else []) @ sent_to cid es bs"
| "sent_to cid _ _ = []"

text \<open>What is left of the response of a connection that writes from its buffer.\<close>

definition pending_response :: "mio_connection \<Rightarrow> buffer_pool \<Rightarrow> bytes" where
  "pending_response c p =
     (case mn_data_state c of
        Reading _ \<Rightarrow> []
      | Writing idx written t \<Rightarrow> drop written (take t (bp_buffers p ! idx)))"

text \<open>The connection is idle, or writes from its buffer and has something left.\<close>

definition serving :: "mio_connection \<Rightarrow> bool" where
  "serving c =
     (mn_write_chain c = None \<and>
      (case mn_data_state c of
         Reading f \<Rightarrow> f = 0 \<and> mn_interest c = Readable
       | Writing idx written t \<Rightarrow> idx \<noteq> usize_max \<and> written < t))"

lemma pending_length:
  assumes "worker_inv S ok mx n bs w" "sl_get S (mw_connections w) cid = Some c"
    "mn_data_state c = Writing idx written t" "mn_write_chain c = None"
  shows "length (pending_response c (mw_buffers w)) = t - written" "idx < n" "idx = mn_write_buf_idx c"
    "length (bp_buffers (mw_buffers w) ! idx) = bs" "t \<le> bs"
proof -
  note facts = inv_facts [OF assms(1,2)]
  show i: "idx = mn_write_buf_idx c" "t \<le> bs" using facts(5) assms(3,4) by (simp_all add: conn_ok_def)
  then show "idx < n" using facts(4,7) by (simp add: owned_def)
  with facts(1,6,7) show "length (bp_buffers (mw_buffers w) ! idx) = bs" by (simp add: pool_ok_def list_all_length)
  with i show "length (pending_response c (mw_buffers w)) = t - written" by (simp add: pending_response_def assms(3))
qed

text \<open>One writable event sends the next bytes and leaves the rest.\<close>

lemma writable_event:
  assumes S: "slab_laws S ok" and inv: "worker_inv S ok mx n bs w"
    and c: "sl_get S (mw_connections w) cid = Some c" and sv: "serving c" and a: "write_answer_ok a"
  shows "\<exists>w' sent c'. worker_event S mx proto (ConnEvent cid False True rd a (r, True) E) w = Some (w', sent) \<and>
    sl_get S (mw_connections w') cid = Some c' \<and> serving c' \<and> mn_protocol c' = mn_protocol c \<and>
    sent = take (io_amount a) (pending_response c (mw_buffers w)) \<and>
    pending_response c' (mw_buffers w') = drop (io_amount a) (pending_response c (mw_buffers w))"
proof (cases "mn_data_state c")
  case (Reading f)
  with c sv show ?thesis
    by (simp add: handle_connection_event_def handle_writable_def pending_response_def)
next
  case (Writing idx written t)
  then have none: "mn_write_chain c = None" and idx: "idx \<noteq> usize_max" "written < t"
    using sv by (simp_all add: serving_def)
  note len = pending_length [OF inv c Writing none]
  note facts = inv_facts [OF inv c]
  let ?left = "pending_response c (mw_buffers w)"
  have left: "?left = take (t - written) (drop written (bp_buffers (mw_buffers w) ! idx))"
    using Writing by (simp add: pending_response_def drop_take)
  have "slice written t (bp_buffers (mw_buffers w) ! idx) = Returned ?left"
    "pool_get (mw_buffers w) idx = Returned (bp_buffers (mw_buffers w) ! idx)"
    using idx(2) len facts(7) left by (simp_all add: slice_ok pool_get_def)
  note offer = this
  note set = slab_set [OF S facts(8) c]
  show ?thesis
  proof (cases a)
    case (IoOk k)
    then have k: "0 < k" using a by simp
    let ?n = "min k (t - written)"
    let ?c = "if written + ?n \<ge> t then c\<lparr>mn_write_chain := None, mn_data_state := Reading 0, mn_interest := Readable\<rparr>
      else c\<lparr>mn_data_state := Writing idx (written + ?n) t\<rparr>"
    have ev: "worker_event S mx proto (ConnEvent cid False True rd a (r, True) E) w
        = Some (put_conn S cid ?c w, take ?n ?left)"
      using c Writing none idx offer IoOk k len(1) slab_set [OF S facts(8) c]
      by (simp add: handle_connection_event_def handle_writable_def after_write_def Let_def release_opt_def
          put_pool_def ds_reading_def)
    have "serving ?c" using idx sv Writing none by (auto simp: serving_def)
    moreover have "pending_response ?c (mw_buffers (put_conn S cid ?c w)) = drop k ?left"
      using Writing len(1) by (auto simp: pending_response_def min_def add.commute)
    moreover have "take ?n ?left = take k ?left" using len(1) by (simp add: min_def)
    moreover have "mn_protocol ?c = mn_protocol c" by simp
    ultimately show ?thesis using ev set IoOk by auto
  next
    case IoWouldBlock
    with c Writing none idx offer sv show ?thesis
      by (simp add: handle_connection_event_def handle_writable_def Let_def)
  qed (use a in simp)
qed

text \<open>Events on other connections change nothing of it.\<close>

lemma other_event:
  assumes S: "slab_laws S ok" and inv: "worker_inv S ok mx n bs w" and bs: "0 < bs"
    and c: "sl_get S (mw_connections w) cid = Some c" and sv: "serving c"
    and ev: "worker_event S mx proto e w = Some (w', sent)" and e: "\<not> targets cid e"
  shows "sl_get S (mw_connections w') cid = Some c \<and>
    pending_response c (mw_buffers w') = pending_response c (mw_buffers w)"
proof -
  note event_isolates [OF S inv bs ev c e]
  moreover have "idx \<in> set (owned c)" if "mn_data_state c = Writing idx written t" for idx written t
    using pending_length(3) [OF inv c that] sv by (simp add: owned_def serving_def)
  ultimately show ?thesis by (auto simp: pending_response_def split: data_state.split)
qed

text \<open>
  What a connection cannot control: an event of another connection or of the listener may end the
  worker. The events of a run are such that none of them does.
\<close>

definition others_survive ::
  "('s, mio_connection) slab_ops \<Rightarrow> nat \<Rightarrow> protocol \<Rightarrow> nat \<Rightarrow> mio_event \<Rightarrow> 's mio_worker option \<Rightarrow> bool" where
  "others_survive S mx proto cid e st = (targets cid e \<or> fst (worker_step S mx proto e st) \<noteq> None)"

lemma served_step:
  assumes S: "slab_laws S ok" and bs: "0 < bs" and inv: "worker_inv S ok mx n bs w"
    and c: "sl_get S (mw_connections w) cid = Some c" and sv: "serving c" and lw: "lets_write cid e"
    and os: "others_survive S mx proto cid e (Some w)"
  shows "\<exists>w' sent c'. worker_event S mx proto e w = Some (w', sent) \<and>
    sl_get S (mw_connections w') cid = Some c' \<and> serving c' \<and> mn_protocol c' = mn_protocol c \<and>
    (if targets cid e then sent else []) = take (offers cid e) (pending_response c (mw_buffers w)) \<and>
    pending_response c' (mw_buffers w') = drop (offers cid e) (pending_response c (mw_buffers w))"
proof (cases "targets cid e")
  case True
  then obtain rb wb rd wr reg E where e: "e = ConnEvent cid rb wb rd wr reg E" by (cases e) simp_all
  then have "e = ConnEvent cid False True rd wr (fst reg, True) E" "write_answer_ok wr"
    using lw by (simp_all add: prod_eq_iff)
  with writable_event [OF S inv c sv, of wr proto rd "fst reg" E] show ?thesis
    by (simp del: worker_event.simps)
next
  case False
  then obtain w' sent where ev: "worker_event S mx proto e w = Some (w', sent)"
    using os by (auto simp: others_survive_def split: option.splits)
  have "offers cid e = 0" using False by (cases e) auto
  with other_event [OF S inv bs c sv ev False] sv False ev show ?thesis by auto
qed

lemma served_run:
  assumes S: "slab_laws S ok" and bs: "0 < bs"
  shows "worker_inv S ok mx n bs w \<Longrightarrow> sl_get S (mw_connections w) cid = Some c \<Longrightarrow> serving c \<Longrightarrow>
    list_all (lets_write cid) evs \<Longrightarrow> admissible (worker_step S mx proto) (others_survive S mx proto cid) evs (Some w) \<Longrightarrow>
    \<exists>w' outs c'. run (worker_step S mx proto) evs (Some w) = (Some w', outs) \<and>
      sent_to cid evs outs = take (sum_list (map (offers cid) evs)) (pending_response c (mw_buffers w)) \<and>
      sl_get S (mw_connections w') cid = Some c' \<and> serving c' \<and> mn_protocol c' = mn_protocol c \<and>
      pending_response c' (mw_buffers w') =
        drop (sum_list (map (offers cid) evs)) (pending_response c (mw_buffers w))"
proof (induction evs arbitrary: w c)
  case (Cons e evs)
  have "lets_write cid e" "list_all (lets_write cid) evs" "others_survive S mx proto cid e (Some w)"
    using Cons.prems(4,5) by simp_all
  from served_step [OF S bs Cons.prems(1-3) this(1,3)] obtain w1 sent c1 where
    ev: "worker_event S mx proto e w = Some (w1, sent)" and c1: "sl_get S (mw_connections w1) cid = Some c1" "serving c1"
    "mn_protocol c1 = mn_protocol c"
    "(if targets cid e then sent else []) = take (offers cid e) (pending_response c (mw_buffers w))"
    "pending_response c1 (mw_buffers w1) = drop (offers cid e) (pending_response c (mw_buffers w))" by blast
  have "admissible (worker_step S mx proto) (others_survive S mx proto cid) evs (Some w1)" using Cons.prems(5) ev by simp
  from Cons.IH [OF worker_event_inv [OF S Cons.prems(1) bs ev] c1(1,2) \<open>list_all (lets_write cid) evs\<close> this]
  obtain w' outs c' where run: "run (worker_step S mx proto) evs (Some w1) = (Some w', outs)"
    and sent: "sent_to cid evs outs = take (sum_list (map (offers cid) evs)) (pending_response c1 (mw_buffers w1))"
    and c': "sl_get S (mw_connections w') cid = Some c'" "serving c'" "mn_protocol c' = mn_protocol c1"
      "pending_response c' (mw_buffers w') = drop (sum_list (map (offers cid) evs)) (pending_response c1 (mw_buffers w1))"
    by blast
  have "run (worker_step S mx proto) (e # evs) (Some w) = (Some w', sent # outs)" using run ev by simp
  moreover have "sent_to cid (e # evs) (sent # outs) =
      take (sum_list (map (offers cid) (e # evs))) (pending_response c (mw_buffers w))"
    using c1(4,5) sent by (simp add: take_add)
  moreover have "pending_response c' (mw_buffers w') = drop (sum_list (map (offers cid) (e # evs))) (pending_response c (mw_buffers w))"
    unfolding c'(4) c1(5) by (simp add: add.commute)
  moreover have "mn_protocol c' = mn_protocol c" using c'(3) c1(3) by (rule trans)
  ultimately show ?case using c'(1,2) by blast
qed simp

text \<open>A read that completes a request leaves the handler's answer in the write buffer.\<close>

lemma readable_response:
  assumes S: "slab_laws S ok" and inv: "worker_inv S ok mx n bs w"
    and c: "sl_get S (mw_connections w) cid = Some c" and st: "mn_data_state c = Reading f"
    and ne: "take (bs - f) pending \<noteq> []"
    and kept: "kept = take f (bp_buffers (mw_buffers w) ! mn_read_buf_idx c)"
    and pr: "process_protocol E (mn_protocol c) (kept @ take (bs - f) pending)
      (bp_buffers (mw_buffers w) ! mn_write_buf_idx c) (mw_storage w) = (s', Returned (PResponse consumed l, out'))"
  shows "\<exists>w1. worker_event S mx proto (ConnEvent cid True False (IoOk pending) wr (True, rg) E) w = Some (w1, []) \<and>
    mw_storage w1 = s' \<and>
    sl_get S (mw_connections w1) cid = Some (c\<lparr>mn_read_chain := None,
      mn_data_state := Writing (mn_write_buf_idx c) 0 l, mn_interest := Writable\<rparr>) \<and>
    bp_buffers (mw_buffers w1) ! mn_write_buf_idx c = out'"
proof -
  note step = handle_readable_step [OF inv c st refl ne kept refl]
  note facts = inv_facts [OF inv c]
  let ?r = "mn_read_buf_idx c" and ?o = "mn_write_buf_idx c" and ?got = "take (bs - f) pending"
  let ?rd = "bp_buffers (mw_buffers w) ! ?r"
  let ?p = "pool_set ?o out' (pool_set ?r (blit f ?got ?rd) (mw_buffers w))"
  have idx: "?r < length (bp_buffers (mw_buffers w))" "?o < length (bp_buffers (mw_buffers w))" "?r \<noteq> ?o"
    using facts(2,4) by (auto simp: owned_def)
  then have rd: "length ?rd = bs" using facts(1,6) by (simp add: pool_ok_def list_all_length)
  have out': "length out' = bs"
    using dispatched.keeps_length [OF pr] step(3) by simp
  have "pool_ok ?p"
    using facts(1,6) step(2) rd out' by (intro pool_set_ok) (simp_all add: length_blit)
  then obtain p1 where p1: "compact ?r consumed (f + length ?got) ?p = Returned p1"
    "\<forall>k. k \<noteq> ?r \<longrightarrow> bp_buffers p1 ! k = bp_buffers ?p ! k"
    by (rule compact_ok [of ?p ?r "f + length ?got" consumed]) (use step(2) facts(6) idx(1) in auto)
  have "bp_buffers (release_opt (mn_read_chain c) p1) ! ?o = out'"
    using p1(2) idx by (simp add: release_opt_fields) (simp add: pool_set_def)
  then show ?thesis
    using step(1) [of E True] pr p1(1) c slab_set [OF S facts(8) c]
    by (simp add: handle_connection_event_def on_result_def on_response_def Let_def ds_writing_def)
qed

text \<open>
  What the handler sends does not depend on the buffer it writes to, so its answer may be given
  for any buffer \<open>out\<close> of the right size.
\<close>

lemma mio_answered:
  assumes S: "slab_laws S ok" and inv: "worker_inv S ok mx n bs w"
    and c: "sl_get S (mw_connections w) cid = Some c" "mn_data_state c = Reading f"
    and got: "got = take (bs - f) pending" "got \<noteq> []"
    and handled: "process_protocol E (mn_protocol c) (take f (bp_buffers (mw_buffers w) ! mn_read_buf_idx c) @ got)
      out (mw_storage w) = (s', Returned (PResponse consumed l, out'))" "length out = bs"
  shows "\<exists>w1. worker_event S mx proto (ConnEvent cid True False (IoOk pending) wr (True, rg) E) w = Some (w1, []) \<and>
    mw_storage w1 = s' \<and>
    sl_get S (mw_connections w1) cid = Some (c\<lparr>mn_read_chain := None,
      mn_data_state := Writing (mn_write_buf_idx c) 0 l, mn_interest := Writable\<rparr>) \<and>
    take l (bp_buffers (mw_buffers w1) ! mn_write_buf_idx c) = take l out'"
proof -
  let ?wb = "bp_buffers (mw_buffers w) ! mn_write_buf_idx c"
  have "length ?wb = bs" using inv_facts(1,4,6) [OF inv c(1)] by (simp add: owned_def pool_ok_def list_all_length)
  with handled(2) have "length out = length ?wb" by simp
  from dispatched.sends [OF handled(1) this] obtain b where
    b: "process_protocol E (mn_protocol c) (take f (bp_buffers (mw_buffers w) ! mn_read_buf_idx c) @ got)
      ?wb (mw_storage w) = (s', Returned (PResponse consumed l, b))" "take l b = take l out'" .
  from readable_response [OF S inv c got(2) [unfolded got(1)] refl b(1) [unfolded got(1)]] b(2) show ?thesis by blast
qed

text \<open>From a completed request to the bytes at the client.\<close>

lemma mio_served:
  assumes laws: "slab_laws S ok" "0 < bs" "n \<le> usize_max" and inv: "worker_inv S ok mx n bs w"
    and c: "sl_get S (mw_connections w) cid = Some c" "mn_data_state c = Reading f"
    and got: "got = take (bs - f) pending" "got \<noteq> []"
    and handled: "process_protocol E (mn_protocol c) (take f (bp_buffers (mw_buffers w) ! mn_read_buf_idx c) @ got)
      out (mw_storage w) = (s', Returned (PResponse consumed l, out'))" "length out = bs" "0 < l"
    and evs: "list_all (lets_write cid) evs"
      "admissible (worker_step S mx proto) (others_survive S mx proto cid)
        (ConnEvent cid True False (IoOk pending) wr (True, rg) E # evs) (Some w)"
  shows "\<exists>w1 w' outs c'. worker_event S mx proto (ConnEvent cid True False (IoOk pending) wr (True, rg) E) w = Some (w1, []) \<and>
    mw_storage w1 = s' \<and> run (worker_step S mx proto) evs (Some w1) = (Some w', outs) \<and>
    sent_to cid evs outs = take (sum_list (map (offers cid) evs)) (take l out') \<and>
    sl_get S (mw_connections w') cid = Some c' \<and> mn_protocol c' = mn_protocol c \<and>
    (l \<le> sum_list (map (offers cid) evs) \<longrightarrow> mn_data_state c' = Reading 0 \<and> mn_interest c' = Readable)"
proof -
  let ?c = "c\<lparr>mn_read_chain := None, mn_data_state := Writing (mn_write_buf_idx c) 0 l, mn_interest := Writable\<rparr>"
  note facts = inv_facts [OF inv c(1)]
  obtain w1 where ev: "worker_event S mx proto (ConnEvent cid True False (IoOk pending) wr (True, rg) E) w = Some (w1, [])"
    and s': "mw_storage w1 = s'" and c1: "sl_get S (mw_connections w1) cid = Some ?c"
    and wb: "take l (bp_buffers (mw_buffers w1) ! mn_write_buf_idx c) = take l out'"
    using mio_answered [OF laws(1) inv c got handled(1,2)] by blast
  note inv1 = worker_event_inv [OF laws(1) inv laws(2) ev]
  have "mn_write_buf_idx c < usize_max" using facts(4,7) laws(3) by (simp add: owned_def)
  then have sv: "serving ?c" using facts(5) c(2) handled(3) by (simp add: serving_def conn_ok_def)
  have pend: "pending_response ?c (mw_buffers w1) = take l out'" using wb by (simp add: pending_response_def)
  have "admissible (worker_step S mx proto) (others_survive S mx proto cid) evs (Some w1)"
    using evs(2) ev by (simp del: worker_event.simps)
  from served_run [OF laws(1,2) inv1 c1 sv evs(1) this] obtain w' outs c' where
    run: "run (worker_step S mx proto) evs (Some w1) = (Some w', outs)"
    and sent: "sent_to cid evs outs = take (sum_list (map (offers cid) evs)) (take l out')"
    and c': "sl_get S (mw_connections w') cid = Some c'" "serving c'" "mn_protocol c' = mn_protocol c"
      "pending_response c' (mw_buffers w') = drop (sum_list (map (offers cid) evs)) (take l out')"
    unfolding pend by auto
  have "mn_data_state c' = Reading 0 \<and> mn_interest c' = Readable" if "l \<le> sum_list (map (offers cid) evs)"
  proof (cases "mn_data_state c'")
    case (Writing idx written t)
    have "worker_inv S ok mx n bs w'"
      by (rule run_inv [OF laws(1,2) inv1, of proto evs]) (use run in simp)
    from pending_length(1) [OF this c'(1) Writing] c'(2,4) Writing that show ?thesis by (simp add: serving_def)
  qed (use c'(2) in \<open>simp_all add: serving_def\<close>)
  with ev s' run sent c'(1,3) show ?thesis by blast
qed

lemma pool_indices: "n mod 2 ^ 64 \<le> usize_max"
  by (simp add: usize_max_def)

text \<open>
  C5. A response reaches the client whole: when a read completes a request in any reachable state
  and the handler answers with \<open>l > 0\<close> bytes in a buffer of the worker's size, the answer is taken
  up at once; and then, as long as no write fails and no event of another connection or of the
  listener ends the worker, no event of the connection ends it either, and whatever those
  other events are, whatever other workers do to the store and however the kernel cuts the writes,
  the bytes the client gets are the handler's answer from its first byte on, as many as the kernel
  took; once it took \<open>l\<close>, they are the whole answer and the connection waits for the next request.
\<close>

theorem mio_delivers:
  assumes "slab_laws S ok" "0 < bs"
    and "fst (run (worker_step S mx proto) evs0 (Some (worker_new S mx bs s0))) = Some w"
    and "sl_get S (mw_connections w) cid = Some c" "mn_data_state c = Reading f"
    and "got = take (bs - f) pending" "got \<noteq> []"
    and "process_protocol E (mn_protocol c) (take f (bp_buffers (mw_buffers w) ! mn_read_buf_idx c) @ got)
      out (mw_storage w) = (s', Returned (PResponse consumed l, out'))" "length out = bs" "0 < l"
    and "list_all (lets_write cid) evs"
      "admissible (worker_step S mx proto) (others_survive S mx proto cid)
        (ConnEvent cid True False (IoOk pending) wr (True, rg) E # evs) (Some w)"
  shows "\<exists>w' outs c'.
    run (worker_step S mx proto) (ConnEvent cid True False (IoOk pending) wr (True, rg) E # evs) (Some w) = (Some w', [] # outs) \<and>
    sent_to cid evs outs = take (sum_list (map (offers cid) evs)) (take l out') \<and>
    sl_get S (mw_connections w') cid = Some c' \<and>
    (l \<le> sum_list (map (offers cid) evs) \<longrightarrow> mn_data_state c' = Reading 0 \<and> mn_interest c' = Readable)"
  using mio_served [OF assms(1,2) pool_indices reachable_inv [OF assms(1,2,1,3)] assms(4-12)]
  by (auto simp: Let_def simp del: worker_event.simps)

text \<open>The kernel takes two bytes, a connection over the limit is turned away, and the kernel takes the rest.\<close>

theorem mio_delivers_witness:
  "\<exists>w' outs. run (worker_step vec_slab 1 ProtoPing)
      [ConnEvent 0 True False (IoOk (''PING'' @ crlf)) IoWouldBlock (True, True) example_env,
       ConnEvent 0 False True IoWouldBlock (IoOk 2) (True, True) example_env, ListenerEvent [True],
       ConnEvent 0 False True IoWouldBlock (IoOk 9) (True, True) example_env] (Some example_worker) = (Some w', [] # outs) \<and>
    sent_to 0 [ConnEvent 0 False True IoWouldBlock (IoOk 2) (True, True) example_env, ListenerEvent [True],
       ConnEvent 0 False True IoWouldBlock (IoOk 9) (True, True) example_env] outs = ''PONG'' @ crlf"
proof -
  let ?rd = "ConnEvent 0 True False (IoOk (''PING'' @ crlf)) IoWouldBlock (True, True) example_env"
  let ?evs = "[ConnEvent 0 False True IoWouldBlock (IoOk 2) (True, True) example_env, ListenerEvent [True],
    ConnEvent 0 False True IoWouldBlock (IoOk 9) (True, True) example_env]"
  note ping = process_ping_def ping_parse_def rust_eval crlf_def response_pong_def
  have adm: "admissible (worker_step vec_slab 1 ProtoPing) (others_survive vec_slab 1 ProtoPing 0) (?rd # ?evs) (Some example_worker)"
    by (simp add: others_survive_def mio_eval example_worker_def example_conn_def ping)
  have "process_protocol example_env ProtoPing (''PING'' @ crlf) (replicate 16 (CHR 0x00)) (storage_new length 100 0) =
      (storage_new length 100 0, Returned (PResponse 6 6, ''PONG'' @ crlf @ replicate 10 (CHR 0x00)))"
    by (simp add: process_protocol_def Let_def blit_def ping)
  then have "\<exists>w' outs c'. run (worker_step vec_slab 1 ProtoPing) (?rd # ?evs) (Some example_worker) = (Some w', [] # outs) \<and>
      sent_to 0 ?evs outs = take (sum_list (map (offers 0) ?evs)) (take 6 (''PONG'' @ crlf @ replicate 10 (CHR 0x00))) \<and>
      sl_get vec_slab (mw_connections w') 0 = Some c' \<and>
      (6 \<le> sum_list (map (offers 0) ?evs) \<longrightarrow> mn_data_state c' = Reading 0 \<and> mn_interest c' = Readable)"
    by (intro mio_delivers [OF vec_slab_laws _ example_accept example_get _ refl _ _ _ _ _ adm, where f = 0 and l = 6
        and out = "replicate 16 (CHR 0x00)" and s' = "storage_new length 100 0" and consumed = 6])
      (simp_all add: example_worker_def example_conn_def crlf_def)
  then show ?thesis by (auto simp: crlf_def simp del: run.simps sent_to.simps)
qed

section \<open>Where the loop drops requests and connections\<close>

text \<open>
  An empty response, the answer to every \<^verbatim>\<open>noreply\<close> command, ends the connection: the write of zero
  bytes returns zero, which \<^verbatim>\<open>handle_writable\<close> takes for an error.
\<close>

lemma empty_response_closes:
  assumes S: "slab_laws S ok" and inv: "worker_inv S ok mx n bs w" and n: "n \<le> usize_max"
    and c: "sl_get S (mw_connections w) cid = Some c" and st: "mn_data_state c = Writing (mn_write_buf_idx c) 0 0"
  shows "\<exists>w'. worker_event S mx proto (ConnEvent cid False True rd (IoOk k) reg E) w = Some (w', []) \<and>
    sl_get S (mw_connections w') cid = None"
proof -
  have "mn_write_buf_idx c < length (bp_buffers (mw_buffers w))" "mn_write_buf_idx c \<noteq> usize_max"
    using inv_facts(4,7) [OF inv c] n by (auto simp: owned_def)
  then have "handle_connection_event S E False True rd (IoOk k) reg cid w = Returned (w, Some WriteZero, [])"
    using c st by (simp add: handle_connection_event_def handle_writable_def pool_get_def slice_ok Let_def)
  then show ?thesis using close_connection_inv [OF S inv, of cid] by auto
qed

text \<open>
  A request that does not end within the read buffer ends the connection: once the buffer is
  full the next read has no room, returns zero, and is taken for the end of the stream. The
  chain that was allocated for a large value is never read into.
\<close>

lemma full_buffer_closes:
  assumes S: "slab_laws S ok" and inv: "worker_inv S ok mx n bs w"
    and c: "sl_get S (mw_connections w) cid = Some c" and st: "mn_data_state c = Reading bs"
  shows "\<exists>w'. worker_event S mx proto (ConnEvent cid True wb (IoOk pending) wr reg E) w = Some (w', []) \<and>
    sl_get S (mw_connections w') cid = None"
proof -
  note facts = inv_facts [OF inv c]
  then have "mn_read_buf_idx c < length (bp_buffers (mw_buffers w))"
    "length (bp_buffers (mw_buffers w) ! mn_read_buf_idx c) = bs"
    by (auto simp: owned_def pool_ok_def list_all_length)
  then have "handle_connection_event S E True wb (IoOk pending) wr reg cid w = Returned (w, Some Eof, [])"
    using c st by (simp add: handle_connection_event_def handle_readable_def pool_get_def)
  then show ?thesis using close_connection_inv [OF S inv, of cid] by auto
qed

text \<open>
  C39. Requests that arrive behind another one are lost: once an answer has been sent, whatever else
  the read that completed its request brought, the next read is answered from its own bytes alone. The
  bytes the loop had moved to the front of the read buffer are overwritten and never reach the handler.
\<close>

theorem mio_drops_pipelined:
  assumes "slab_laws S ok" "0 < bs"
    and "fst (run (worker_step S mx proto) evs0 (Some (worker_new S mx bs s0))) = Some w"
    and "sl_get S (mw_connections w) cid = Some c" "mn_data_state c = Reading f"
    and "got = take (bs - f) pending" "got \<noteq> []"
    and "process_protocol E (mn_protocol c) (take f (bp_buffers (mw_buffers w) ! mn_read_buf_idx c) @ got)
      out (mw_storage w) = (s', Returned (PResponse consumed l, out'))" "length out = bs" "0 < l"
    and "list_all (lets_write cid) evs" "l \<le> sum_list (map (offers cid) evs)"
    and "admissible (worker_step S mx proto) (others_survive S mx proto cid)
        (ConnEvent cid True False (IoOk pending) wr (True, rg) E # evs) (Some w)"
    and "run (worker_step S mx proto) (ConnEvent cid True False (IoOk pending) wr (True, rg) E # evs) (Some w) = (Some w', outs)"
    and "take bs later \<noteq> []" "length outb = bs"
      "process_protocol Eb (mn_protocol c) (take bs later) outb (mw_storage w') = (sb, Returned (PResponse kb lb, outb'))"
  shows "\<exists>w2 c2. worker_event S mx proto (ConnEvent cid True False (IoOk later) wrb (True, rgb) Eb) w' = Some (w2, []) \<and>
    mw_storage w2 = sb \<and> sl_get S (mw_connections w2) cid = Some c2 \<and> pending_response c2 (mw_buffers w2) = take lb outb'"
proof -
  let ?rd = "ConnEvent cid True False (IoOk pending) wr (True, rg) E"
  have inv: "worker_inv S ok mx (mx * 3 mod 2 ^ 64) bs w'"
    by (rule run_inv [OF assms(1,2) reachable_inv [OF assms(1,2,1,3)], of proto "?rd # evs"]) (use assms(14) in simp)
  obtain c' where c': "sl_get S (mw_connections w') cid = Some c'" "mn_protocol c' = mn_protocol c" "mn_data_state c' = Reading 0"
    using mio_served [OF assms(1,2) pool_indices reachable_inv [OF assms(1,2,1,3)] assms(4-11,13)] assms(12,14)
    by (auto simp: Let_def simp del: worker_event.simps)
  from mio_answered [OF assms(1) inv c'(1,3) refl, of later Eb outb sb kb lb outb'] c'(2) assms(15-17)
  show ?thesis by (fastforce simp: pending_response_def)
qed

text \<open>For instance, of two pings in one segment the second is lost: the message sent later is answered.\<close>

theorem mio_drops_pipelined_witness:
  "\<exists>w1 w2 c2. fst (run (worker_step vec_slab 1 ProtoPing)
      [ConnEvent 0 True False (IoOk (''PING'' @ crlf @ ''PING x'' @ crlf)) IoWouldBlock (True, True) example_env,
       ConnEvent 0 False True IoWouldBlock (IoOk 16) (True, True) example_env] (Some example_worker)) = Some w1 \<and>
    worker_event vec_slab 1 ProtoPing (ConnEvent 0 True False (IoOk (''PING y'' @ crlf)) IoWouldBlock (True, True) example_env) w1
      = Some (w2, []) \<and>
    sl_get vec_slab (mw_connections w2) 0 = Some c2 \<and> pending_response c2 (mw_buffers w2) = ''PONG y'' @ crlf"
proof -
  let ?rd = "ConnEvent 0 True False (IoOk (''PING'' @ crlf @ ''PING x'' @ crlf)) IoWouldBlock (True, True) example_env"
  let ?evs = "[ConnEvent 0 False True IoWouldBlock (IoOk 16) (True, True) example_env]"
  let ?s = "storage_new length 100 0" and ?o = "replicate 16 (CHR 0x00)"
  note ping = process_ping_def ping_parse_def rust_eval crlf_def response_pong_def response_pong_msg_def
  have adm: "admissible (worker_step vec_slab 1 ProtoPing) (others_survive vec_slab 1 ProtoPing 0) (?rd # ?evs) (Some example_worker)"
    by (simp add: others_survive_def mio_eval example_worker_def example_conn_def ping)
  obtain w1 outs where run: "run (worker_step vec_slab 1 ProtoPing) (?rd # ?evs) (Some example_worker) = (Some w1, outs)"
      "mw_storage w1 = ?s"
    by (simp add: mio_eval example_worker_def example_conn_def ping)
  have pr: "process_protocol example_env ProtoPing (''PING'' @ crlf @ ''PING x'' @ crlf) ?o ?s =
      (?s, Returned (PResponse 6 6, ''PONG'' @ crlf @ replicate 10 (CHR 0x00)))"
    "process_protocol example_env ProtoPing (''PING y'' @ crlf) ?o ?s =
      (?s, Returned (PResponse 8 8, ''PONG y'' @ crlf @ replicate 8 (CHR 0x00)))"
    by (simp_all add: process_protocol_def Let_def blit_def ping)
  have "\<exists>w2 c2. worker_event vec_slab 1 ProtoPing
        (ConnEvent 0 True False (IoOk (''PING y'' @ crlf)) IoWouldBlock (True, True) example_env) w1 = Some (w2, []) \<and>
      mw_storage w2 = ?s \<and> sl_get vec_slab (mw_connections w2) 0 = Some c2 \<and>
      pending_response c2 (mw_buffers w2) = take 8 (''PONG y'' @ crlf @ replicate 8 (CHR 0x00))"
    by (rule mio_drops_pipelined [OF vec_slab_laws _ example_accept example_get _ refl _ _ _ _ _ _ adm run(1), where f = 0
        and l = 6 and out = ?o and s' = ?s and consumed = 6 and out' = "''PONG'' @ crlf @ replicate 10 (CHR 0x00)"
        and outb = ?o and kb = 8])
      (use pr run(2) in \<open>simp_all add: example_worker_def example_conn_def crlf_def\<close>)
  with run(1) show ?thesis by (auto simp: crlf_def simp del: worker_event.simps)
qed

end
