(* ===== verification/Buf_Ring.thy ===== *)
theory Buf_Ring
  imports Prelude
begin

unbundle bit_operations_syntax

text \<open>
  The ring of provided read buffers, \<^verbatim>\<open>src/src/runtime/uring/buf_ring.rs\<close>. The worker adds buffer
  identifiers at the tail; the kernel takes them from its own head. The ring's memory is a list
  of entries, the tail a 16-bit counter that wraps; an entry holds the address, the length and the
  identifier of a buffer, the address as an offset into the allocation of the buffers and the
  length truncated to 32 bits. Allocation of the memory and registration with the kernel are
  given by the results of those calls.

  The theory states what a queue promises as the locale \<open>fifo\<close>, and shows that the ring is one,
  across the wrap of the counter, and that buffers circulate: none is lost and none is offered
  twice.
\<close>

section \<open>The ring\<close>

record buf_entry =
  be_addr :: nat
  be_len :: u32
  be_bid :: u16

record buf_ring =
  br_slots :: "buf_entry list"
  br_ring_entries :: u16
  br_buffer_size :: nat
  br_tail :: u16

text \<open>\<^verbatim>\<open>u16::is_power_of_two\<close> and \<^verbatim>\<open>u16::next_power_of_two\<close>, which wraps to 0 in a release build.\<close>

definition is_power_of_two :: "u16 \<Rightarrow> bool" where
  "is_power_of_two n = list_ex (\<lambda>k. unat n = 2 ^ k) [0..<16]"

definition next_power_of_two :: "u16 \<Rightarrow> u16" where
  "next_power_of_two n = (case find (\<lambda>k. unat n \<le> 2 ^ k) [0..<16] of Some k \<Rightarrow> 2 ^ k | None \<Rightarrow> 0)"

definition entry_for :: "nat \<Rightarrow> u16 \<Rightarrow> buf_entry" where
  "entry_for buffer_size bid =
     \<lparr>be_addr = unat bid * buffer_size mod 2 ^ 64, be_len = of_nat buffer_size, be_bid = bid\<rparr>"

definition add_buffer :: "u16 \<Rightarrow> buf_ring \<Rightarrow> buf_ring" where
  "add_buffer bid r =
     (let tail = br_tail r; idx = unat (tail AND (br_ring_entries r - 1))
      in r\<lparr>br_slots := (br_slots r)[idx := entry_for (br_buffer_size r) bid], br_tail := tail + 1\<rparr>)"

definition recycle_buffer :: "u16 \<Rightarrow> buf_ring \<Rightarrow> buf_ring" where
  "recycle_buffer bid r = add_buffer bid r"

datatype ring_error = RingInvalidInput | RingOutOfMemory | RingNotRegistered

text \<open>
  Whether the allocator grants the ring and the buffers, and the kernel the registration, are
  arguments. \<^verbatim>\<open>Layout::from_size_align\<close> refuses a size that exceeds \<^verbatim>\<open>isize::MAX\<close> when rounded up to the
  alignment; the size of the buffers is a product that wraps. The ring itself, of 16 bytes for
  each of at most 32768 entries, always passes.
\<close>

definition layout_ok :: "nat \<Rightarrow> nat \<Rightarrow> bool" where
  "layout_ok sz align = (sz \<le> 2 ^ 63 - align)"

definition buf_ring_new :: "u16 \<Rightarrow> nat \<Rightarrow> bool \<Rightarrow> bool \<Rightarrow> bool \<Rightarrow> ring_error + buf_ring" where
  "buf_ring_new ring_entries buffer_size ring_mem buf_mem registered =
     (if \<not> is_power_of_two ring_entries then Inl RingInvalidInput
      else if \<not> ring_mem then Inl RingOutOfMemory
      else if \<not> layout_ok (buffer_size * unat ring_entries mod 2 ^ 64) 4096 then Inl RingInvalidInput
      else if \<not> buf_mem then Inl RingOutOfMemory
      else if \<not> registered then Inl RingNotRegistered
      else Inr (fold (\<lambda>i. add_buffer (of_nat i)) [0..<unat ring_entries]
             \<lparr>br_slots = replicate (unat ring_entries) \<lparr>be_addr = 0, be_len = 0, be_bid = 0\<rparr>, br_ring_entries = ring_entries,
              br_buffer_size = buffer_size, br_tail = 0\<rparr>))"

section \<open>What a queue promises\<close>

text \<open>
  A bounded queue seen from both ends. \<open>items\<close> is what it holds, oldest first.
\<close>

locale fifo =
  fixes push :: "'b \<Rightarrow> 'q \<Rightarrow> 'q"
    and pop :: "'q \<Rightarrow> 'q"
    and front :: "'q \<Rightarrow> 'b"
    and items :: "'q \<Rightarrow> 'b list"
    and room :: "'q \<Rightarrow> nat"
    and ok :: "'q \<Rightarrow> bool"
  assumes push: "ok q \<Longrightarrow> length (items q) < room q \<Longrightarrow>
      ok (push b q) \<and> items (push b q) = items q @ [b] \<and> room (push b q) = room q"
    and pop: "ok q \<Longrightarrow> items q \<noteq> [] \<Longrightarrow>
      ok (pop q) \<and> items (pop q) = tl (items q) \<and> front q = hd (items q) \<and> room (pop q) = room q"
begin

lemma push_all:
  "ok q \<Longrightarrow> length (items q) + length bs \<le> room q \<Longrightarrow>
    ok (fold push bs q) \<and> items (fold push bs q) = items q @ bs \<and> room (fold push bs q) = room q"
proof (induction bs arbitrary: q)
  case (Cons b bs)
  then have "ok (push b q) \<and> items (push b q) = items q @ [b] \<and> room (push b q) = room q"
    by (intro push) simp_all
  with Cons.IH [of "push b q"] Cons.prems show ?case by simp
qed simp

text \<open>
  Circulation: things are taken from the front and may come back later. \<open>away\<close> are those that
  are out.
\<close>

definition circulates :: "'b list \<Rightarrow> 'q \<times> 'b set \<Rightarrow> bool" where
  "circulates all x =
     (ok (fst x) \<and> room (fst x) = length all \<and> distinct (items (fst x)) \<and> distinct all \<and>
      set (items (fst x)) \<inter> snd x = {} \<and> set (items (fst x)) \<union> snd x = set all)"

lemma circulates_pop:
  assumes "circulates all (q, away)" "items q \<noteq> []"
  shows "circulates all (pop q, insert (front q) away)" "front q \<in> set all - away"
proof -
  obtain b bs where b: "items q = b # bs" using assms(2) by (cases "items q") auto
  have "ok q" using assms(1) by (simp add: circulates_def)
  from pop [OF this assms(2)] b
  have "ok (pop q)" "items (pop q) = bs" "front q = b" "room (pop q) = room q" by simp_all
  with assms(1) b show "circulates all (pop q, insert (front q) away)" "front q \<in> set all - away"
    by (auto simp: circulates_def)
qed

lemma circulates_push:
  assumes "circulates all (q, away)" "b \<in> away"
  shows "circulates all (push b q, away - {b})" "items (push b q) = items q @ [b]"
proof -
  have c: "ok q" "room q = length all" "distinct (items q)" "distinct all" "set (items q) \<inter> away = {}"
    "set (items q) \<union> away = set all" using assms(1) by (simp_all add: circulates_def)
  have "set (items q) \<subset> set all" using c assms(2) by blast
  then have "length (items q) < length all"
    using c(3,4) by (metis List.finite_set distinct_card psubset_card_mono)
  from push [OF c(1), of b] this c(2) have "ok (push b q)" "items (push b q) = items q @ [b]" "room (push b q) = room q"
    by simp_all
  with c assms(2) show "circulates all (push b q, away - {b})" "items (push b q) = items q @ [b]"
    by (auto simp: circulates_def)
qed

end

section \<open>The ring is a queue\<close>

text \<open>
  The ring with the kernel's head. What the kernel may take are the slots from the head up to
  the tail.
\<close>

type_synonym ring_view = "buf_ring \<times> u16"

definition ring_entry :: "buf_ring \<Rightarrow> u16 \<Rightarrow> buf_entry" where
  "ring_entry r pos = br_slots r ! unat (pos AND (br_ring_entries r - 1))"

definition ring_slot :: "buf_ring \<Rightarrow> u16 \<Rightarrow> u16" where
  "ring_slot r pos = be_bid (ring_entry r pos)"

definition ring_items :: "ring_view \<Rightarrow> u16 list" where
  "ring_items x = (case x of (r, head) \<Rightarrow>
     map (\<lambda>i. ring_slot r (head + of_nat i)) [0..<unat (br_tail r - head)])"

definition ring_room :: "ring_view \<Rightarrow> nat" where
  "ring_room x = unat (br_ring_entries (fst x))"

definition ring_push :: "u16 \<Rightarrow> ring_view \<Rightarrow> ring_view" where
  "ring_push bid x = (case x of (r, head) \<Rightarrow> (add_buffer bid r, head))"

definition ring_pop :: "ring_view \<Rightarrow> ring_view" where
  "ring_pop x = (case x of (r, head) \<Rightarrow> (r, head + 1))"

definition ring_front :: "ring_view \<Rightarrow> u16" where
  "ring_front x = (case x of (r, head) \<Rightarrow> ring_slot r head)"

definition ring_ok :: "ring_view \<Rightarrow> bool" where
  "ring_ok x = (case x of (r, head) \<Rightarrow>
     is_power_of_two (br_ring_entries r) \<and> length (br_slots r) = unat (br_ring_entries r) \<and>
     unat (br_tail r - head) \<le> unat (br_ring_entries r))"

lemma power_of_two_cases:
  assumes "is_power_of_two n"
  obtains k where "k < 16" "n = 2 ^ k" "unat n = 2 ^ k"
proof -
  from assms obtain k where k: "k < 16" "unat n = 2 ^ k" by (auto simp: is_power_of_two_def list_ex_iff)
  then have "n = of_nat (2 ^ k)" by (metis of_nat_unat ucast_id)
  with k that show ?thesis by simp
qed

lemma masked_position:
  assumes "is_power_of_two n"
  shows "unat ((h + of_nat i) AND (n - 1)) = (unat h + i) mod unat n"
proof -
  obtain k where k: "k < 16" "n = 2 ^ k" "unat n = 2 ^ k" by (rule power_of_two_cases [OF assms])
  have "(h + of_nat i) AND (n - 1) = take_bit k (h + of_nat i)"
    using k(2) by (simp add: take_bit_eq_mask mask_eq_exp_minus_1)
  then have "unat ((h + of_nat i) AND (n - 1)) = unat (h + of_nat i) mod 2 ^ k"
    by (simp only: unsigned_take_bit_eq take_bit_eq_mod [where 'a = nat])
  also have "unat (h + of_nat i) = (unat h + i) mod 2 ^ 16"
    by (simp add: unat_word_ariths unat_of_nat mod_add_right_eq)
  also have "(unat h + i) mod 2 ^ 16 mod 2 ^ k = (unat h + i) mod 2 ^ k"
    using k(1) by (intro mod_mod_cancel le_imp_power_dvd) simp
  finally show ?thesis using k(3) by simp
qed

lemma ring_slot_eq:
  "is_power_of_two (br_ring_entries r) \<Longrightarrow>
    ring_slot r (h + of_nat i) = be_bid (br_slots r ! ((unat h + i) mod unat (br_ring_entries r)))"
  by (simp add: ring_slot_def ring_entry_def masked_position)

lemma length_ring_items: "length (ring_items (r, h)) = unat (br_tail r - h)"
  by (simp add: ring_items_def)

lemma ring_items_nth: "i < unat (br_tail r - h) \<Longrightarrow> ring_items (r, h) ! i = ring_slot r (h + of_nat i)"
  by (simp add: ring_items_def)

text \<open>The window never covers a slot twice.\<close>

lemma window_distinct: "(i :: nat) < n \<Longrightarrow> n < m \<Longrightarrow> (h + i) mod m \<noteq> (h + n) mod m"
proof
  assume l: "i < n" "n < m" and "(h + i) mod m = (h + n) mod m"
  then have "m dvd (h + n) - (h + i)" by (metis mod_eq_dvd_iff_nat add_left_mono less_imp_le)
  with l show False by (auto dest: dvd_imp_le)
qed

lemma power_of_two_small: "is_power_of_two n \<Longrightarrow> unat n < 2 ^ 16"
  using unsigned_less [of n, where 'a = nat] by simp

lemma ring_push_ok:
  assumes ok: "ring_ok (r, h)" and room: "length (ring_items (r, h)) < ring_room (r, h)"
  shows "ring_ok (ring_push b (r, h)) \<and> ring_items (ring_push b (r, h)) = ring_items (r, h) @ [b] \<and>
    ring_room (ring_push b (r, h)) = ring_room (r, h)"
proof -
  let ?n = "br_ring_entries r" and ?len = "unat (br_tail r - h)"
  have p: "is_power_of_two ?n" "length (br_slots r) = unat ?n" "?len < unat ?n" "unat ?n < 2 ^ 16"
    using assms power_of_two_small by (auto simp: ring_ok_def ring_room_def length_ring_items)
  have tail: "br_tail r = h + of_nat ?len" by simp
  have idx: "unat (br_tail r AND (?n - 1)) = (unat h + ?len) mod unat ?n"
    using masked_position [OF p(1), of h ?len] tail by simp
  have len: "unat (br_tail r + 1 - h) = Suc ?len"
  proof -
    have "br_tail r + 1 - h = of_nat (Suc ?len)" by simp
    moreover have "unat (of_nat (Suc ?len) :: u16) = Suc ?len" using p(3,4) by (simp only: unat_of_nat) simp
    ultimately show ?thesis by metis
  qed
  have old: "ring_slot (add_buffer b r) (h + of_nat i) = ring_slot r (h + of_nat i)" if "i < ?len" for i
    using window_distinct [OF that p(3), of "unat h"] p(1) idx
    by (simp add: ring_slot_eq add_buffer_def Let_def)
  have new: "ring_slot (add_buffer b r) (h + of_nat ?len) = b"
    using p(2) mod_less_divisor [of "unat ?n" "unat h + ?len"] p(3) idx
    by (simp add: ring_slot_def ring_entry_def entry_for_def add_buffer_def Let_def)
  have "ring_items (add_buffer b r, h) = ring_items (r, h) @ [b]"
    using old new len by (auto simp: ring_items_def add_buffer_def [of b r] Let_def)
  moreover have "ring_ok (add_buffer b r, h)"
    using p len by (simp add: ring_ok_def add_buffer_def Let_def)
  ultimately show ?thesis by (simp add: ring_push_def ring_room_def add_buffer_def Let_def)
qed

lemma ring_pop_ok:
  assumes ok: "ring_ok (r, h)" and ne: "ring_items (r, h) \<noteq> []"
  shows "ring_ok (ring_pop (r, h)) \<and> ring_items (ring_pop (r, h)) = tl (ring_items (r, h)) \<and>
    ring_front (r, h) = hd (ring_items (r, h)) \<and> ring_room (ring_pop (r, h)) = ring_room (r, h)"
proof -
  obtain m where m: "unat (br_tail r - h) = Suc m"
    using ne by (cases "unat (br_tail r - h)") (simp_all add: ring_items_def)
  have "unat (br_tail r - (h + 1)) = m"
    using m unat_minus_one [of "br_tail r - h"] by (cases "br_tail r - h = 0") (simp_all add: diff_diff_add)
  with ok m show ?thesis
    by (auto simp: ring_pop_def ring_items_def ring_front_def ring_ok_def ring_room_def upt_conv_Cons
        map_Suc_upt [symmetric] add.assoc simp del: upt_Suc)
qed

interpretation provided: fifo ring_push ring_pop ring_front ring_items ring_room ring_ok
proof
  fix q :: ring_view and b
  show "ring_ok q \<Longrightarrow> length (ring_items q) < ring_room q \<Longrightarrow>
      ring_ok (ring_push b q) \<and> ring_items (ring_push b q) = ring_items q @ [b] \<and> ring_room (ring_push b q) = ring_room q"
    using ring_push_ok by (cases q) blast
  show "ring_ok q \<Longrightarrow> ring_items q \<noteq> [] \<Longrightarrow>
      ring_ok (ring_pop q) \<and> ring_items (ring_pop q) = tl (ring_items q) \<and> ring_front q = hd (ring_items q) \<and>
      ring_room (ring_pop q) = ring_room q"
    using ring_pop_ok by (cases q) blast
qed

section \<open>Circulation\<close>

datatype ring_op = Select | Recycle u16

fun ring_step :: "ring_op \<Rightarrow> ring_view \<times> u16 set \<Rightarrow> (ring_view \<times> u16 set) \<times> u16 option" where
  "ring_step Select (x, away) =
     (if ring_items x = [] then ((x, away), None)
      else ((ring_pop x, insert (ring_front x) away), Some (ring_front x)))"
| "ring_step (Recycle bid) ((r, head), away) = (((recycle_buffer bid r, head), away - {bid}), None)"

fun returns_own :: "ring_op \<Rightarrow> ring_view \<times> u16 set \<Rightarrow> bool" where
  "returns_own Select x = True"
| "returns_own (Recycle bid) x = (bid \<in> snd x)"

lemma ring_stepwise: "stepwise_invariant ring_step returns_own (provided.circulates all)"
proof
  fix op and x :: "ring_view \<times> u16 set"
  assume "provided.circulates all x" "returns_own op x"
  then show "provided.circulates all (fst (ring_step op x))"
    using provided.circulates_pop(1) [of all "fst x" "snd x"] provided.circulates_push(1) [of all "fst x" "snd x"]
    by (cases op; cases x; cases "fst x") (auto simp: ring_push_def recycle_buffer_def)
qed

lemma buf_ring_new_circulates:
  assumes "buf_ring_new n sz ring_mem buf_mem registered = Inr r"
  shows "provided.circulates (map of_nat [0..<unat n]) ((r, 0), {})" "ring_items (r, 0) = map of_nat [0..<unat n]"
proof -
  let ?r0 = "\<lparr>br_slots = replicate (unat n) \<lparr>be_addr = 0, be_len = 0, be_bid = 0\<rparr>, br_ring_entries = n, br_buffer_size = sz, br_tail = 0\<rparr>"
  have n: "is_power_of_two n" and r: "r = fold (\<lambda>i. add_buffer (of_nat i)) [0..<unat n] ?r0"
    using assms by (auto simp: buf_ring_new_def split: if_splits)
  have fold: "(fold (\<lambda>i. add_buffer (of_nat i)) is ?r0, 0) = fold ring_push (map of_nat is) (?r0, 0)" for "is"
    by (induction "is" rule: rev_induct) (simp_all add: ring_push_def split: prod.splits, metis Pair_inject)
  have "ring_ok (?r0, 0)" "ring_items (?r0, 0) = []" using n by (simp_all add: ring_ok_def ring_items_def)
  with provided.push_all [of "(?r0, 0)" "map of_nat [0..<unat n]"] r fold
  have c: "ring_ok (r, 0)" "ring_items (r, 0) = map of_nat [0..<unat n]" "ring_room (r, 0) = unat n"
    by (simp_all add: ring_room_def)
  have "unat (of_nat i :: u16) = i" if "i < unat n" for i
    using that power_of_two_small [OF n] by (simp add: unat_of_nat)
  then have "inj_on (of_nat :: nat \<Rightarrow> u16) {0..<unat n}" by (intro inj_onI) (metis atLeastLessThan_iff)
  with c show "provided.circulates (map of_nat [0..<unat n]) ((r, 0), {})"
    by (simp add: provided.circulates_def distinct_map)
  show "ring_items (r, 0) = map of_nat [0..<unat n]" by (fact c(2))
qed

text \<open>
  C19. The provided buffers circulate: from the fresh ring on, through any number of completions
  that take the next buffer and of returns of buffers that are out, in any order and across the
  wrap of the 16-bit counters, every buffer is in the ring or out and never both, the kernel is
  offered them in the order they came back, and a buffer it takes is not one that is still out.
\<close>

theorem buffers_circulate:
  assumes "buf_ring_new n sz ring_mem buf_mem registered = Inr r" "admissible ring_step returns_own ops ((r, 0), {})"
    and "fst (run ring_step ops ((r, 0), {})) = ((r', head), away)"
  shows "distinct (ring_items (r', head)) \<and> set (ring_items (r', head)) \<inter> away = {}
    \<and> set (ring_items (r', head)) \<union> away = of_nat ` {..<unat n}
    \<and> (\<forall>b\<in>away. ring_items (recycle_buffer b r', head) = ring_items (r', head) @ [b])
    \<and> (case snd (ring_step Select ((r', head), away)) of
         Some b \<Rightarrow> b \<notin> away \<and> ring_items (r', head) = b # ring_items (r', head + 1)
       | None \<Rightarrow> away = of_nat ` {..<unat n})"
proof -
  have c: "provided.circulates (map of_nat [0..<unat n]) ((r', head), away)"
    using stepwise_invariant.inv_run [OF ring_stepwise buf_ring_new_circulates(1) [OF assms(1)] assms(2)] assms(3)
    by simp
  then have s: "distinct (ring_items (r', head))" "set (ring_items (r', head)) \<inter> away = {}"
    "set (ring_items (r', head)) \<union> away = of_nat ` {..<unat n}" "ring_ok (r', head)"
    by (auto simp: provided.circulates_def lessThan_atLeast0)
  have "ring_items (recycle_buffer b r', head) = ring_items (r', head) @ [b]" if "b \<in> away" for b
    using provided.circulates_push(2) [OF c that] by (simp add: ring_push_def recycle_buffer_def)
  moreover have "case snd (ring_step Select ((r', head), away)) of
      Some b \<Rightarrow> b \<notin> away \<and> ring_items (r', head) = b # ring_items (r', head + 1)
    | None \<Rightarrow> away = of_nat ` {..<unat n}"
  proof (cases "ring_items (r', head) = []")
    case False
    from provided.pop [OF s(4) this] provided.circulates_pop(2) [OF c False] False show ?thesis
      by (simp add: ring_pop_def)
  qed (use s in simp)
  ultimately show ?thesis using s by blast
qed

theorem buffers_circulate_witness:
  "\<exists>r r' head. buf_ring_new 2 64 True True True = Inr r \<and>
     fst (run ring_step [Select, Select, Recycle 1, Select, Recycle 0, Recycle 1] ((r, 0), {})) = ((r', head), {}) \<and>
     set (ring_items (r', head)) = of_nat ` {..<2}"
proof -
  let ?r = "\<lparr>br_slots = map (entry_for 64) [0, 1], br_ring_entries = 2, br_buffer_size = 64, br_tail = 2\<rparr>"
  let ?ops = "[Select, Select, Recycle 1, Select, Recycle 0, Recycle 1]"
  have new: "buf_ring_new 2 64 True True True = Inr ?r"
    by (simp add: buf_ring_new_def layout_ok_def is_power_of_two_def add_buffer_def entry_for_def upt_rec)
      (simp add: numeral_2_eq_2)
  have "admissible ring_step returns_own ?ops ((?r, 0), {})"
    and "fst (run ring_step ?ops ((?r, 0), {})) = ((?r\<lparr>br_slots := map (entry_for 64) [1, 0], br_tail := 5\<rparr>, 3), {})"
    by (auto simp: ring_items_def ring_pop_def ring_front_def ring_slot_def ring_entry_def entry_for_def
        recycle_buffer_def add_buffer_def upt_rec)
  from buffers_circulate [OF new this] new show ?thesis
    using \<open>fst (run ring_step ?ops ((?r, 0), {})) = _\<close> by auto
qed

section \<open>The memory of the buffers\<close>

text \<open>
  The buffers lie one after the other in one allocation; \<open>mem\<close> is its contents. \<^verbatim>\<open>get_buffer\<close> is an
  offset into it, \<^verbatim>\<open>get_buffer_slice\<close> what a reader of the buffer sees, and a write of \<open>d\<close> through
  \<^verbatim>\<open>get_buffer_slice_mut\<close>, or by the kernel, puts \<open>d\<close> at the front of the buffer.
\<close>

definition get_buffer :: "u16 \<Rightarrow> buf_ring \<Rightarrow> nat" where
  "get_buffer bid r = unat bid * br_buffer_size r mod 2 ^ 64"

definition get_buffer_slice :: "u16 \<Rightarrow> buf_ring \<Rightarrow> bytes \<Rightarrow> bytes" where
  "get_buffer_slice bid r mem = take (br_buffer_size r) (drop (get_buffer bid r) mem)"

definition get_buffer_slice_mut :: "u16 \<Rightarrow> buf_ring \<Rightarrow> bytes \<Rightarrow> bytes \<Rightarrow> bytes" where
  "get_buffer_slice_mut bid r d mem = blit (get_buffer bid r) d mem"

lemma add_buffer_size [simp]: "br_buffer_size (add_buffer b r) = br_buffer_size r"
  by (simp add: add_buffer_def Let_def)

lemma buf_ring_new_size:
  assumes "buf_ring_new n sz ring_mem buf_mem registered = Inr r"
  shows "br_buffer_size r = sz"
proof -
  have "br_buffer_size (fold (\<lambda>i. add_buffer (of_nat i)) is r0) = br_buffer_size r0" for "is" r0
    by (induction "is" arbitrary: r0) simp_all
  with assms show ?thesis by (auto simp: buf_ring_new_def split: if_splits)
qed

lemma buffer_offset:
  assumes "sz * unat n < 2 ^ 64" "bid < n"
  shows "unat bid * sz mod 2 ^ 64 = unat bid * sz" "unat bid * sz + sz \<le> sz * unat n"
proof -
  have "Suc (unat bid) \<le> unat n" using assms(2) by (simp add: word_less_nat_alt)
  then have "Suc (unat bid) * sz \<le> unat n * sz" by (rule mult_le_mono1)
  then show "unat bid * sz + sz \<le> sz * unat n" by (simp add: mult.commute add.commute)
  with assms(1) show "unat bid * sz mod 2 ^ 64 = unat bid * sz" by simp
qed

lemma offsets_apart:
  assumes "a \<noteq> b"
  shows "unat a * sz + sz \<le> unat b * sz \<or> unat b * sz + sz \<le> unat (a :: u16) * (sz :: nat)"
proof -
  have "Suc (unat a) \<le> unat b \<or> Suc (unat b) \<le> unat a" using assms by (metis Suc_leI linorder_neqE_nat unsigned_word_eqI)
  then have "Suc (unat a) * sz \<le> unat b * sz \<or> Suc (unat b) * sz \<le> unat a * sz" by (metis mult_le_mono1)
  then show ?thesis by (simp add: add.commute)
qed

text \<open>
  What is written to a buffer is read back from it, and no other buffer changes, as long as the size
  of the allocation was computed without wrapping.
\<close>

lemma buffers_separate:
  assumes "buf_ring_new n sz ring_mem buf_mem registered = Inr r" "sz * unat n < 2 ^ 64"
    "length mem = sz * unat n mod 2 ^ 64" "bid < n" "length d \<le> sz"
  shows "length (get_buffer_slice bid r mem) = sz"
    "take (length d) (get_buffer_slice bid r (get_buffer_slice_mut bid r d mem)) = d"
    "bid' < n \<Longrightarrow> bid' \<noteq> bid \<Longrightarrow>
      get_buffer_slice bid' r (get_buffer_slice_mut bid r d mem) = get_buffer_slice bid' r mem"
proof -
  let ?m = "get_buffer_slice_mut bid r d mem"
  have r: "br_buffer_size r = sz" by (rule buf_ring_new_size [OF assms(1)])
  note off = buffer_offset [OF assms(2)]
  have len: "length mem = sz * unat n" using assms(2,3) by simp
  note le = off(2) [OF assms(4), folded len]
  then show "length (get_buffer_slice bid r mem) = sz" using off(1) [OF assms(4)]
    by (simp add: get_buffer_slice_def get_buffer_def r)
  have m: "?m = take (unat bid * sz) mem @ d @ drop (unat bid * sz + length d) mem"
    using off(1) [OF assms(4)] by (simp add: get_buffer_slice_mut_def get_buffer_def blit_def r)
  show "take (length d) (get_buffer_slice bid r ?m) = d"
    unfolding m using le assms(5) off(1) [OF assms(4)]
    by (simp add: get_buffer_slice_def get_buffer_def r min_absorb1 min_absorb2)
  assume b: "bid' < n" "bid' \<noteq> bid"
  have "unat bid' * sz + sz \<le> unat bid * sz \<or> unat bid * sz + sz \<le> unat bid' * sz" by (rule offsets_apart [OF b(2)])
  then show "get_buffer_slice bid' r ?m = get_buffer_slice bid' r mem"
  proof
    assume "unat bid' * sz + sz \<le> unat bid * sz"
    then show ?thesis
      unfolding m using le off(1) [OF b(1)]
      by (simp add: get_buffer_slice_def get_buffer_def r drop_take [symmetric] take_drop)
  next
    assume "unat bid * sz + sz \<le> unat bid' * sz"
    moreover from this have "unat bid * sz \<le> unat bid' * sz" "unat bid * sz - unat bid' * sz = 0" by linarith+
    ultimately show ?thesis
      unfolding m using le off(1) [OF b(1)] assms(5) by (simp add: get_buffer_slice_def get_buffer_def r)
  qed
qed

text \<open>
  When the product wraps, the set-up still succeeds, with an allocation that holds none of the
  buffers. The configuration of the server, with its buffers of 64 kilobytes, is far from that.
\<close>

lemma allocation_wraps: "buf_ring_new 16 (2 ^ 60) True True True \<noteq> Inl e \<and> 2 ^ 60 * unat (16 :: u16) mod 2 ^ 64 = 0"
  by (simp add: buf_ring_new_def layout_ok_def is_power_of_two_def upt_rec)

section \<open>What the kernel is offered\<close>

text \<open>The entries between head and tail describe the buffers they name.\<close>

definition entries_exact :: "nat \<Rightarrow> ring_view \<Rightarrow> bool" where
  "entries_exact sz x = (case x of (r, head) \<Rightarrow>
     br_buffer_size r = sz \<and>
     (\<forall>i < unat (br_tail r - head). ring_entry r (head + of_nat i) = entry_for sz (ring_slot r (head + of_nat i))))"

lemma entry_for_self [simp]: "be_bid (entry_for sz b) = b"
  by (simp add: entry_for_def)

lemma entries_exact_push:
  assumes x: "entries_exact sz (r, h)" and ok: "ring_ok (r, h)"
    and room: "length (ring_items (r, h)) < ring_room (r, h)"
  shows "entries_exact sz (ring_push b (r, h))"
proof -
  let ?n = "br_ring_entries r" and ?len = "unat (br_tail r - h)"
  have p: "is_power_of_two ?n" "length (br_slots r) = unat ?n" "?len < unat ?n"
    using assms by (auto simp: ring_ok_def ring_room_def length_ring_items)
  have tail: "br_tail r = h + of_nat ?len" by simp
  have idx: "unat (br_tail r AND (?n - 1)) = (unat h + ?len) mod unat ?n"
    using masked_position [OF p(1), of h ?len] tail by simp
  have "unat (br_tail (add_buffer b r) - h) = Suc ?len"
    using ring_push_ok [OF ok room, of b] length_ring_items [of "add_buffer b r" h] length_ring_items [of r h]
    by (simp add: ring_push_def)
  moreover have "ring_entry (add_buffer b r) (h + of_nat i) =
      (if i = ?len then entry_for sz b else ring_entry r (h + of_nat i))" if "i \<le> ?len" for i
    using that window_distinct [of i ?len "unat ?n" "unat h"] p idx x mod_less_divisor [of "unat ?n" "unat h + ?len"]
    by (auto simp: ring_entry_def masked_position add_buffer_def Let_def entries_exact_def)
  ultimately show ?thesis
    using x by (auto simp: entries_exact_def ring_push_def ring_slot_def less_Suc_eq_le)
qed

lemma entries_exact_pop:
  assumes x: "entries_exact sz (r, h)" and ne: "ring_items (r, h) \<noteq> []"
  shows "entries_exact sz (ring_pop (r, h))"
proof -
  obtain m where m: "unat (br_tail r - h) = Suc m"
    using ne by (cases "unat (br_tail r - h)") (simp_all add: ring_items_def)
  have "unat (br_tail r - (h + 1)) = m"
    using m unat_minus_one [of "br_tail r - h"] by (cases "br_tail r - h = 0") (simp_all add: diff_diff_add)
  moreover have "ring_entry r (h + 1 + of_nat i) = entry_for sz (ring_slot r (h + 1 + of_nat i))" if "i < m" for i
  proof -
    have "\<forall>i < Suc m. ring_entry r (h + of_nat i) = entry_for sz (ring_slot r (h + of_nat i))"
      using x m by (simp add: entries_exact_def)
    from this [rule_format, of "Suc i"] that show ?thesis by (simp add: add.assoc)
  qed
  ultimately show ?thesis using x by (simp add: entries_exact_def ring_pop_def)
qed

lemma ring_exact_stepwise:
  "stepwise_invariant ring_step returns_own (\<lambda>x. provided.circulates all x \<and> entries_exact sz (fst x))"
proof
  fix op and x :: "ring_view \<times> u16 set"
  assume x: "provided.circulates all x \<and> entries_exact sz (fst x)" "returns_own op x"
  obtain r h away where d: "x = ((r, h), away)" by (metis prod.exhaust)
  have "provided.circulates all (fst (ring_step op x))"
    using stepwise_invariant.inv_step [OF ring_stepwise] x by blast
  moreover have "entries_exact sz (fst (fst (ring_step op x)))"
  proof (cases op)
    case (Recycle b)
    then have "b \<in> away" using x(2) d by simp
    have c: "provided.circulates all ((r, h), away)" using x(1) d by simp
    have "length (ring_items (r, h)) < ring_room (r, h)"
    proof -
      have "set (ring_items (r, h)) \<subset> set all" using c \<open>b \<in> away\<close> by (auto simp: provided.circulates_def)
      then show ?thesis using c
        by (simp add: provided.circulates_def) (metis List.finite_set distinct_card psubset_card_mono)
    qed
    with entries_exact_push [of sz r h b] x(1) c d Recycle show ?thesis
      by (simp add: provided.circulates_def ring_push_def recycle_buffer_def)
  qed (use entries_exact_pop [of sz r h] x(1) d in simp)
  ultimately show "provided.circulates all (fst (ring_step op x)) \<and> entries_exact sz (fst (fst (ring_step op x)))" by blast
qed

lemma buf_ring_new_exact:
  assumes "buf_ring_new n sz ring_mem buf_mem registered = Inr r"
  shows "entries_exact sz (r, 0)"
proof -
  let ?r0 = "\<lparr>br_slots = replicate (unat n) \<lparr>be_addr = 0, be_len = 0, be_bid = 0\<rparr>, br_ring_entries = n,
    br_buffer_size = sz, br_tail = 0\<rparr>"
  have n: "is_power_of_two n" and r: "r = fold (\<lambda>i. add_buffer (of_nat i)) [0..<unat n] ?r0"
    using assms by (auto simp: buf_ring_new_def split: if_splits)
  let ?f = "\<lambda>m. fold (\<lambda>i. add_buffer (of_nat i)) [0..<m] ?r0"
  have "ring_ok (?f m, 0) \<and> length (ring_items (?f m, 0)) = m \<and> ring_room (?f m, 0) = unat n \<and> entries_exact sz (?f m, 0)"
    if "m \<le> unat n" for m
    using that
  proof (induction m)
    case 0
    with n show ?case by (simp add: ring_ok_def ring_items_def ring_room_def entries_exact_def)
  next
    case (Suc m)
    then have room: "length (ring_items (?f m, 0)) < ring_room (?f m, 0)" by simp
    with Suc ring_push_ok [OF _ room, of "of_nat m"] entries_exact_push [OF _ _ room, of sz "of_nat m"] show ?case
      by (simp add: ring_push_def)
  qed
  with r show ?thesis by blast
qed

text \<open>
  C40. The kernel is offered only its own memory: from the fresh ring on, through any number of
  selections and returns, every entry between head and tail names a buffer of the allocation, its
  address and length cover exactly that buffer and nothing beyond the end of the allocation, and
  the region is apart from that of every other entry and of every buffer the worker is still reading.
  The sizes are those of the set-up, computed without wrapping and below 4 GiB.
\<close>

theorem offered_regions_apart:
  assumes "buf_ring_new n sz ring_mem buf_mem registered = Inr r" "admissible ring_step returns_own ops ((r, 0), {})"
    and "fst (run ring_step ops ((r, 0), {})) = ((r', head), away)"
    and "sz * unat n < 2 ^ 64" "sz < 2 ^ 32" "i < unat (br_tail r' - head)" "e = ring_entry r' (head + of_nat i)"
  shows "be_addr e = get_buffer (be_bid e) r' \<and> unat (be_len e) = sz \<and> be_addr e + unat (be_len e) \<le> sz * unat n
    \<and> (\<forall>b\<in>away. be_addr e + sz \<le> get_buffer b r' \<or> get_buffer b r' + sz \<le> be_addr e)
    \<and> (\<forall>j < unat (br_tail r' - head). j \<noteq> i \<longrightarrow>
         be_addr e + sz \<le> be_addr (ring_entry r' (head + of_nat j)) \<or>
         be_addr (ring_entry r' (head + of_nat j)) + sz \<le> be_addr e)"
proof -
  have "provided.circulates (map of_nat [0..<unat n]) ((r', head), away) \<and> entries_exact sz (r', head)"
    using stepwise_invariant.inv_run [OF ring_exact_stepwise _ assms(2), of "map of_nat [0..<unat n]" sz]
      buf_ring_new_circulates(1) [OF assms(1)] buf_ring_new_exact [OF assms(1)] assms(3) by simp
  then have dist: "distinct (ring_items (r', head))" "set (ring_items (r', head)) \<inter> away = {}"
    and all: "set (ring_items (r', head)) \<union> away = of_nat ` {..<unat n}" and ex: "entries_exact sz (r', head)"
    by (auto simp: provided.circulates_def lessThan_atLeast0)
  have size: "br_buffer_size r' = sz" using ex by (simp add: entries_exact_def)
  have item: "ring_entry r' (head + of_nat j) = entry_for sz (ring_items (r', head) ! j)"
    "ring_items (r', head) ! j \<in> set (ring_items (r', head))" if "j < unat (br_tail r' - head)" for j
    using ex that nth_mem [of j "ring_items (r', head)"] by (simp_all add: entries_exact_def ring_items_nth length_ring_items)
  have n: "b < n" if "b \<in> set (ring_items (r', head)) \<union> away" for b
  proof -
    from that all obtain k where "b = of_nat k" "k < unat n" by auto
    then show ?thesis using unsigned_less [of n, where 'a = nat] by (simp add: word_less_nat_alt unat_of_nat)
  qed
  note off = buffer_offset [OF assms(4)]
  have addr: "be_addr (entry_for sz b) = unat b * sz" "get_buffer b r' = unat b * sz"
    if "b \<in> set (ring_items (r', head)) \<union> away" for b
    using off(1) [OF n [OF that]] size by (simp_all add: entry_for_def get_buffer_def)
  let ?b = "ring_items (r', head) ! i"
  have e: "e = entry_for sz ?b" "?b \<in> set (ring_items (r', head))" using item [OF assms(6)] assms(7) by simp_all
  have len: "unat (be_len e) = sz" using e(1) assms(5) by (simp add: entry_for_def unat_of_nat)
  have "be_addr e + sz \<le> sz * unat n" using addr(1) off(2) [OF n] e by simp
  moreover have "be_addr e + sz \<le> get_buffer b r' \<or> get_buffer b r' + sz \<le> be_addr e" if "b \<in> away" for b
    using offsets_apart [of ?b b sz] dist(2) that e addr by auto
  moreover have "be_addr e + sz \<le> be_addr (ring_entry r' (head + of_nat j)) \<or>
      be_addr (ring_entry r' (head + of_nat j)) + sz \<le> be_addr e" if "j < unat (br_tail r' - head)" "j \<noteq> i" for j
    using offsets_apart [of ?b "ring_items (r', head) ! j" sz] nth_eq_iff_index_eq [OF dist(1), of i j] that assms(6)
      item [OF that(1)] e addr by (auto simp: length_ring_items)
  ultimately show ?thesis using len addr e by simp
qed

theorem offered_regions_apart_witness:
  "\<exists>r r' head. buf_ring_new 2 64 True True True = Inr r \<and>
     fst (run ring_step [Select, Recycle 0, Select] ((r, 0), {})) = ((r', head), {1}) \<and>
     be_addr (ring_entry r' head) + unat (be_len (ring_entry r' head)) \<le> get_buffer 1 r'"
proof -
  let ?r = "\<lparr>br_slots = map (entry_for 64) [0, 1], br_ring_entries = 2, br_buffer_size = 64, br_tail = 2\<rparr>"
  let ?ops = "[Select, Recycle 0, Select]" and ?r' = "\<lparr>br_slots = map (entry_for 64) [0, 1], br_ring_entries = 2, br_buffer_size = 64, br_tail = 3\<rparr>"
  have new: "buf_ring_new 2 64 True True True = Inr ?r"
    by (simp add: buf_ring_new_def layout_ok_def is_power_of_two_def add_buffer_def entry_for_def upt_rec)
      (simp add: numeral_2_eq_2)
  have run: "admissible ring_step returns_own ?ops ((?r, 0), {})" "fst (run ring_step ?ops ((?r, 0), {})) = ((?r', 2), {1})"
    by (auto simp: ring_items_def ring_pop_def ring_front_def ring_slot_def ring_entry_def entry_for_def
        recycle_buffer_def add_buffer_def upt_rec)
  have "be_addr (ring_entry ?r' 2) = 0" by (simp add: ring_entry_def entry_for_def)
  with offered_regions_apart [OF new run, of 0] new run(2) show ?thesis
    by (auto simp: get_buffer_def)
qed

end
