(* ===== verification/Uring.thy ===== *)
theory Uring
  imports Connection Buffer Dispatch Buf_Ring
begin

text \<open>
  The completion-based event loop, \<^verbatim>\<open>src/src/runtime/uring/event_loop.rs\<close>, for one worker: the
  submission of accepts, reads and writes, and the handling of their completions. The worker's
  state is its registry of connections, its tokens (both over slabs, which are parameters), its
  write buffers, the ring of provided read buffers and the store.

  The kernel's part of a completion is an argument: token, result, the buffer it selected, the
  memory of the provided buffers as the kernel left it, and whether the submission queue has
  room for the submissions that follow. A handler returns the new state, the error of an early
  return, and what it submitted; a submitted write carries the bytes its pointer and length
  cover, a length the code truncates to 32 bits.
\<close>

section \<open>State\<close>

record ('c, 't) uring_worker =
  uw_connections :: "'c registry"
  uw_tokens :: 't
  uw_write_buffers :: buffer_pool
  uw_read_ring :: buf_ring
  uw_storage :: storage

datatype uring_error = SubmissionQueueFull | UringNotFound | NotWriting

datatype sqe = SqeAccept u64 | SqeRecv int u64 | SqeWrite int bytes u64

type_synonym ('c, 't) handled = "(('c, 't) uring_worker \<times> uring_error option \<times> sqe list) outcome"

definition put_write_pool :: "buffer_pool \<Rightarrow> ('c, 't) uring_worker \<Rightarrow> ('c, 't) uring_worker" where
  "put_write_pool p w = w\<lparr>uw_write_buffers := p\<rparr>"

definition put_uconn ::
  "('c, connection) slab_ops \<Rightarrow> nat \<Rightarrow> connection \<Rightarrow> ('c, 't) uring_worker \<Rightarrow> ('c, 't) uring_worker" where
  "put_uconn C cid c w = w\<lparr>uw_connections := registry_set C cid c (uw_connections w)\<rparr>"

definition recycle :: "u16 \<Rightarrow> ('c, 't) uring_worker \<Rightarrow> ('c, 't) uring_worker" where
  "recycle bid w = w\<lparr>uw_read_ring := recycle_buffer bid (uw_read_ring w)\<rparr>"

section \<open>Submitting\<close>

text \<open>The token is allocated first; when the queue is full it is freed again.\<close>

definition submit ::
  "('t, op_type) slab_ops \<Rightarrow> op_type \<Rightarrow> (u64 \<Rightarrow> sqe) \<Rightarrow> bool \<Rightarrow> ('c, 't) uring_worker \<Rightarrow>
   ('c, 't) uring_worker \<times> uring_error option \<times> sqe list" where
  "submit T op entry push w =
     (let (tokens, token) = token_alloc T op (uw_tokens w)
      in if push then (w\<lparr>uw_tokens := tokens\<rparr>, None, [entry token])
         else (w\<lparr>uw_tokens := fst (token_free T token tokens)\<rparr>, Some SubmissionQueueFull, []))"

definition submit_accept ::
  "('t, op_type) slab_ops \<Rightarrow> bool \<Rightarrow> ('c, 't) uring_worker \<Rightarrow>
   ('c, 't) uring_worker \<times> uring_error option \<times> sqe list" where
  "submit_accept T push w = submit T OpAccept SqeAccept push w"

definition submit_read ::
  "('c, connection) slab_ops \<Rightarrow> ('t, op_type) slab_ops \<Rightarrow> bool \<Rightarrow> nat \<Rightarrow> ('c, 't) uring_worker \<Rightarrow>
   ('c, 't) uring_worker \<times> uring_error option \<times> sqe list" where
  "submit_read C T push cid w =
     (case registry_get C cid (uw_connections w) of
        None \<Rightarrow> (w, Some UringNotFound, [])
      | Some conn \<Rightarrow> submit T (OpRead cid) (SqeRecv (cn_fd conn)) push w)"

definition submit_write ::
  "('c, connection) slab_ops \<Rightarrow> ('t, op_type) slab_ops \<Rightarrow> bool \<Rightarrow> nat \<Rightarrow> nat \<Rightarrow> ('c, 't) uring_worker \<Rightarrow>
   ('c, 't) handled" where
  "submit_write C T push cid len w =
     (case registry_get C cid (uw_connections w) of
        None \<Rightarrow> Returned (w, Some UringNotFound, [])
      | Some conn \<Rightarrow>
          (case cn_phase conn of
             Established (Writing buf_idx offset total_bytes) \<Rightarrow>
               (case pool_get (uw_write_buffers w) buf_idx of
                  Panicked \<Rightarrow> Panicked
                | Returned buf \<Rightarrow>
                    Returned (submit T (OpWrite cid buf_idx)
                      (SqeWrite (cn_fd conn) (take (len mod 2 ^ 32) (drop offset buf))) push w))
           | _ \<Rightarrow> Returned (w, Some NotWriting, [])))"

definition uring_close_connection ::
  "('c, connection) slab_ops \<Rightarrow> nat \<Rightarrow> ('c, 't) uring_worker \<Rightarrow> ('c, 't) uring_worker" where
  "uring_close_connection C cid w =
     (case registry_remove C cid (uw_connections w) of
        (reg, None) \<Rightarrow> w
      | (reg, Some conn) \<Rightarrow>
          let p1 = (case cn_phase conn of
                      Established (Writing buf_idx _ _) \<Rightarrow> pool_free buf_idx (uw_write_buffers w)
                    | _ \<Rightarrow> uw_write_buffers w);
              p2 = (case cn_read_buf_idx conn of Some buf_idx \<Rightarrow> pool_free buf_idx p1 | None \<Rightarrow> p1)
          in w\<lparr>uw_connections := reg, uw_write_buffers := p2\<rparr>)"

section \<open>Accepting\<close>

text \<open>A connection over the limit is closed at once.\<close>

definition handle_accept ::
  "('c, connection) slab_ops \<Rightarrow> ('t, op_type) slab_ops \<Rightarrow> int \<Rightarrow> bool \<Rightarrow> bool \<Rightarrow> protocol \<Rightarrow>
   ('c, 't) uring_worker \<Rightarrow> ('c, 't) handled" where
  "handle_accept C T result push1 push2 proto w =
     (case submit_accept T push1 w of
        (w1, Some e, sq) \<Rightarrow> Returned (w1, Some e, sq)
      | (w1, None, sq) \<Rightarrow>
          if result < 0 then Returned (w1, None, sq)
          else (case registry_insert C (connection_new result proto) (uw_connections w1) of
                  (reg, None) \<Rightarrow> Returned (w1, None, sq)
                | (reg, Some cid) \<Rightarrow>
                    let (w2, e, sq') = submit_read C T push2 cid (w1\<lparr>uw_connections := reg\<rparr>)
                    in Returned (w2, e, sq @ sq')))"

section \<open>Reading\<close>

text \<open>
  The \<^verbatim>\<open>Response\<close> and \<^verbatim>\<open>LargeResponse\<close> branches: unconsumed bytes move to the front of the
  accumulation buffer and stay counted.
\<close>

definition shift_accumulated ::
  "nat \<Rightarrow> nat \<Rightarrow> nat \<Rightarrow> connection \<Rightarrow> buffer_pool \<Rightarrow> (connection \<times> buffer_pool) outcome" where
  "shift_accumulated accum_buf_idx consumed total_len conn p =
     (if consumed < total_len
      then (case pool_get p accum_buf_idx of
              Panicked \<Rightarrow> Panicked
            | Returned buf \<Rightarrow>
                (case slice consumed total_len buf of
                   Panicked \<Rightarrow> Panicked
                 | Returned rest \<Rightarrow>
                     Returned (conn\<lparr>cn_read_accumulated := total_len - consumed\<rparr>,
                               pool_set accum_buf_idx (blit 0 rest buf) p)))
      else Returned (conn\<lparr>cn_read_accumulated := 0\<rparr>, p))"

definition begin_response ::
  "('c, connection) slab_ops \<Rightarrow> ('t, op_type) slab_ops \<Rightarrow> bool \<Rightarrow> nat \<Rightarrow> nat \<Rightarrow> nat \<Rightarrow> connection \<Rightarrow>
   ('c, 't) uring_worker \<Rightarrow> ('c, 't) handled" where
  "begin_response C T push cid write_buf_idx response_len conn w =
     (case start_writing write_buf_idx response_len conn of
        Panicked \<Rightarrow> Panicked
      | Returned conn' \<Rightarrow> submit_write C T push cid response_len (put_uconn C cid conn' w))"

definition reject ::
  "('c, connection) slab_ops \<Rightarrow> nat \<Rightarrow> nat \<Rightarrow> ('c, 't) uring_worker \<Rightarrow> ('c, 't) handled" where
  "reject C cid write_buf_idx w =
     Returned (uring_close_connection C cid
       (put_write_pool (pool_free write_buf_idx (uw_write_buffers w)) w), None, [])"

definition uring_on_result ::
  "('c, connection) slab_ops \<Rightarrow> ('t, op_type) slab_ops \<Rightarrow> bool \<Rightarrow> nat \<Rightarrow> nat \<Rightarrow> nat \<Rightarrow> nat \<Rightarrow> process_result \<Rightarrow>
   connection \<Rightarrow> ('c, 't) uring_worker \<Rightarrow> ('c, 't) handled" where
  "uring_on_result C T push cid accum_buf_idx total_len write_buf_idx result conn w =
     (case result of
        PNeedData \<Rightarrow>
          Returned (submit_read C T push cid
            (put_write_pool (pool_free write_buf_idx (uw_write_buffers w)) w))
      | PNeedChain _ _ \<Rightarrow> reject C cid write_buf_idx w
      | PResponse consumed response_len \<Rightarrow>
          (case shift_accumulated accum_buf_idx consumed total_len conn (uw_write_buffers w) of
             Panicked \<Rightarrow> Panicked
           | Returned (conn', p) \<Rightarrow>
               begin_response C T push cid write_buf_idx response_len conn' (put_write_pool p w))
      | PLargeResponse consumed response_data \<Rightarrow>
          (case shift_accumulated accum_buf_idx consumed total_len conn (uw_write_buffers w) of
             Panicked \<Rightarrow> Panicked
           | Returned (conn', p) \<Rightarrow>
               if length response_data \<le> bp_buffer_size p
               then (case pool_get p write_buf_idx of
                       Panicked \<Rightarrow> Panicked
                     | Returned write_buf \<Rightarrow>
                         if length response_data > length write_buf then Panicked
                         else begin_response C T push cid write_buf_idx (length response_data) conn'
                                (put_write_pool (pool_set write_buf_idx (blit 0 response_data write_buf) p) w))
               else reject C cid write_buf_idx (put_uconn C cid conn' (put_write_pool p w)))
      | PQuit \<Rightarrow> reject C cid write_buf_idx w
      | PError \<Rightarrow> reject C cid write_buf_idx w)"

text \<open>
  The part of \<^verbatim>\<open>handle_read\<close> after the data has been copied and the provided buffer returned. The
  connection was stored just before, so the branch for a connection that is gone does not arise.
\<close>

definition serve_input ::
  "('c, connection) slab_ops \<Rightarrow> ('t, op_type) slab_ops \<Rightarrow> env \<Rightarrow> bool \<Rightarrow> nat \<Rightarrow> nat \<Rightarrow> nat \<Rightarrow> bytes \<Rightarrow> connection \<Rightarrow>
   ('c, 't) uring_worker \<Rightarrow> ('c, 't) handled" where
  "serve_input C T E push cid accum_buf_idx total_len input conn w =
     (case pool_alloc (uw_write_buffers w) of
        (p, None) \<Rightarrow> Returned (uring_close_connection C cid w, None, [])
      | (p, Some write_buf_idx) \<Rightarrow>
          (case pool_get p write_buf_idx of
             Panicked \<Rightarrow> Panicked
           | Returned write_buf \<Rightarrow>
               (case process_protocol E (cn_protocol conn) input write_buf (uw_storage w) of
                  (s', Panicked) \<Rightarrow> Panicked
                | (s', Returned (result, write_buf')) \<Rightarrow>
                    uring_on_result C T push cid accum_buf_idx total_len write_buf_idx result conn
                      (w\<lparr>uw_write_buffers := pool_set write_buf_idx write_buf' p, uw_storage := s'\<rparr>))))"

definition accumulate ::
  "('c, connection) slab_ops \<Rightarrow> ('t, op_type) slab_ops \<Rightarrow> env \<Rightarrow> (u16 \<Rightarrow> bytes) \<Rightarrow> bool \<Rightarrow> nat \<Rightarrow> nat \<Rightarrow> u16 \<Rightarrow> nat \<Rightarrow>
   connection \<Rightarrow> ('c, 't) uring_worker \<Rightarrow> ('c, 't) handled" where
  "accumulate C T E mem push cid n bid accum_buf_idx conn w =
     (case slice 0 n (mem bid) of
        Panicked \<Rightarrow> Panicked
      | Returned new_data \<Rightarrow>
          let total_len = cn_read_accumulated conn + n in
          if total_len > bp_buffer_size (uw_write_buffers w)
          then Returned (uring_close_connection C cid (recycle bid w), None, [])
          else (case pool_get (uw_write_buffers w) accum_buf_idx of
                  Panicked \<Rightarrow> Panicked
                | Returned accum_buf \<Rightarrow>
                    if total_len > length accum_buf then Panicked
                    else let accum_buf' = blit (cn_read_accumulated conn) new_data accum_buf;
                             conn' = conn\<lparr>cn_read_accumulated := total_len\<rparr>
                         in serve_input C T E push cid accum_buf_idx total_len (take total_len accum_buf') conn'
                              (put_uconn C cid conn'
                                (recycle bid
                                  (put_write_pool (pool_set accum_buf_idx accum_buf' (uw_write_buffers w)) w)))))"

definition handle_read ::
  "('c, connection) slab_ops \<Rightarrow> ('t, op_type) slab_ops \<Rightarrow> env \<Rightarrow> (u16 \<Rightarrow> bytes) \<Rightarrow> bool \<Rightarrow> int \<Rightarrow> nat \<Rightarrow> u16 option \<Rightarrow>
   ('c, 't) uring_worker \<Rightarrow> ('c, 't) handled" where
  "handle_read C T E mem push result cid buf_id w =
     (if result \<le> 0
      then Returned (uring_close_connection C cid
             (case buf_id of Some bid \<Rightarrow> recycle bid w | None \<Rightarrow> w), None, [])
      else (case buf_id of
              None \<Rightarrow> Returned (uring_close_connection C cid w, None, [])
            | Some bid \<Rightarrow>
                (case registry_get C cid (uw_connections w) of
                   None \<Rightarrow> Returned (recycle bid w, None, [])
                 | Some conn \<Rightarrow>
                     (case cn_read_buf_idx conn of
                        Some idx \<Rightarrow> accumulate C T E mem push cid (nat result) bid idx conn w
                      | None \<Rightarrow>
                          (case pool_alloc (uw_write_buffers w) of
                             (p, None) \<Rightarrow>
                               Returned (uring_close_connection C cid (recycle bid w), None, [])
                           | (p, Some idx) \<Rightarrow>
                               let conn' = conn\<lparr>cn_read_buf_idx := Some idx\<rparr>
                               in accumulate C T E mem push cid (nat result) bid idx conn'
                                    (put_uconn C cid conn' (put_write_pool p w)))))))"

section \<open>Writing\<close>

definition handle_write ::
  "('c, connection) slab_ops \<Rightarrow> ('t, op_type) slab_ops \<Rightarrow> bool \<Rightarrow> int \<Rightarrow> nat \<Rightarrow> nat \<Rightarrow> ('c, 't) uring_worker \<Rightarrow>
   ('c, 't) handled" where
  "handle_write C T push result cid buf_idx w =
     (let freed = put_write_pool (pool_free buf_idx (uw_write_buffers w)) w in
      if result \<le> 0 then Returned (uring_close_connection C cid freed, None, [])
      else (case registry_get C cid (uw_connections w) of
              None \<Rightarrow> Returned (freed, None, [])
            | Some conn \<Rightarrow>
                (case cn_phase conn of
                   Established (Writing idx written total_bytes) \<Rightarrow>
                     let written' = uadd written (nat result) in
                     if written' \<ge> total_bytes
                     then (case start_reading conn of
                             Panicked \<Rightarrow> Panicked
                           | Returned conn' \<Rightarrow> Returned (submit_read C T push cid (put_uconn C cid conn' freed)))
                     else submit_write C T push cid (total_bytes - written')
                            (put_uconn C cid
                              (conn\<lparr>cn_phase := Established (Writing idx written' total_bytes)\<rparr>) w)
                 | _ \<Rightarrow> Returned (w, None, []))))"

section \<open>The worker\<close>

record cqe =
  cq_token :: u64
  cq_result :: int
  cq_buffer :: "u16 option"
  cq_memory :: "u16 \<Rightarrow> bytes"
  cq_push1 :: bool
  cq_push2 :: bool
  cq_env :: env

text \<open>
  One round of the inner loop. \<open>None\<close> stands for the end of the worker: a panic, or an error that
  \<^verbatim>\<open>worker_loop\<close> returns. A completion with an unknown token is skipped.
\<close>

definition uring_event ::
  "('c, connection) slab_ops \<Rightarrow> ('t, op_type) slab_ops \<Rightarrow> protocol \<Rightarrow> cqe \<Rightarrow> ('c, 't) uring_worker \<Rightarrow>
   (('c, 't) uring_worker \<times> sqe list) option" where
  "uring_event C T proto e w =
     (case token_free T (cq_token e) (uw_tokens w) of
        (tokens, None) \<Rightarrow> Some (w, [])
      | (tokens, Some op) \<Rightarrow>
          let w1 = w\<lparr>uw_tokens := tokens\<rparr> in
          (case (case op of
                   OpAccept \<Rightarrow> handle_accept C T (cq_result e) (cq_push1 e) (cq_push2 e) proto w1
                 | OpRead cid \<Rightarrow>
                     handle_read C T (cq_env e) (cq_memory e) (cq_push1 e) (cq_result e) cid (cq_buffer e) w1
                 | OpWrite cid buf_idx \<Rightarrow> handle_write C T (cq_push1 e) (cq_result e) cid buf_idx w1) of
             Returned (w', None, sq) \<Rightarrow> Some (w', sq)
           | _ \<Rightarrow> None))"

fun uring_step ::
  "('c, connection) slab_ops \<Rightarrow> ('t, op_type) slab_ops \<Rightarrow> protocol \<Rightarrow> cqe \<Rightarrow> ('c, 't) uring_worker option \<Rightarrow>
   ('c, 't) uring_worker option \<times> sqe list" where
  "uring_step C T proto e None = (None, [])"
| "uring_step C T proto e (Some w) =
     (case uring_event C T proto e w of None \<Rightarrow> (None, []) | Some (w', sq) \<Rightarrow> (Some w', sq))"

text \<open>
  The set-up: the size of the read ring, the pool, the registry, the tokens and the first accept.
\<close>

definition ring_entries_for :: "nat \<Rightarrow> u16" where
  "ring_entries_for max_connections = min (next_power_of_two (of_nat max_connections)) 4096"

definition uring_worker_new ::
  "('c, connection) slab_ops \<Rightarrow> ('t, op_type) slab_ops \<Rightarrow> nat \<Rightarrow> nat \<Rightarrow> storage \<Rightarrow> bool \<Rightarrow> bool \<Rightarrow> bool \<Rightarrow> bool \<Rightarrow>
   ('c, 't) uring_worker option" where
  "uring_worker_new C T max_connections buffer_size s ring_mem buf_mem registered push =
     (case buf_ring_new (ring_entries_for max_connections) buffer_size ring_mem buf_mem registered of
        Inl e \<Rightarrow> None
      | Inr ring \<Rightarrow>
          (case submit_accept T push
                  \<lparr>uw_connections = registry_new C max_connections, uw_tokens = sl_new T,
                   uw_write_buffers = pool_new (min (max_connections * 2 mod 2 ^ 64) 8192) buffer_size,
                   uw_read_ring = ring, uw_storage = s\<rparr> of
             (w, None, sq) \<Rightarrow> Some w
           | _ \<Rightarrow> None))"

end
