(* ===== verification/Uring_Correct.thy ===== *)
theory Uring_Correct
  imports Uring Ledger
begin

text \<open>
  The io_uring worker: every connection has exactly one operation in flight, the one its state
  calls for, whatever completes; buffers are accounted for as long as no write fails; and what
  happens when one does.
\<close>

section \<open>Tables\<close>

abbreviation conns :: "('c, connection) slab_ops \<Rightarrow> ('c, 't) uring_worker \<Rightarrow> nat \<rightharpoonup> connection" where
  "conns C w \<equiv> sl_get C (rg_connections (uw_connections w))"

abbreviation toks :: "('t, op_type) slab_ops \<Rightarrow> ('c, 't) uring_worker \<Rightarrow> nat \<rightharpoonup> op_type" where
  "toks T w \<equiv> sl_get T (uw_tokens w)"

text \<open>The operation a connection's state calls for.\<close>

definition pending_op :: "nat \<Rightarrow> connection \<Rightarrow> op_type" where
  "pending_op cid c =
     (case cn_phase c of Established (Writing idx _ _) \<Rightarrow> OpWrite cid idx | _ \<Rightarrow> OpRead cid)"

lemma pending_op_not_accept [simp]: "pending_op i c \<noteq> OpAccept" "OpAccept \<noteq> pending_op i c"
  by (auto simp: pending_op_def split: conn_phase.split data_state.split)

lemma pending_op_conn: "pending_op i c = pending_op j d \<Longrightarrow> i = j"
  by (auto simp: pending_op_def split: conn_phase.splits data_state.splits)

definition ops_of :: "(nat \<rightharpoonup> connection) \<Rightarrow> op_type set" where
  "ops_of G = {pending_op i c | i c. G i = Some c}"

lemma ops_of_insert: "ops_of (G(i \<mapsto> c)) = insert (pending_op i c) (ops_of (G(i := None)))"
  by (auto simp: ops_of_def split: if_splits)

lemma ops_of_fresh: "G i = None \<Longrightarrow> pending_op i c \<notin> ops_of G"
  by (auto simp: ops_of_def dest: pending_op_conn)

text \<open>Each operation of the set is in flight under exactly one token, and nothing else is.\<close>

definition in_flight :: "(nat \<rightharpoonup> op_type) \<Rightarrow> op_type set \<Rightarrow> bool" where
  "in_flight tm ops = (inj_on tm (dom tm) \<and> ran tm = ops)"

lemma in_flight_free:
  assumes "in_flight tm ops" "tm k = Some op"
  shows "in_flight (tm(k := None)) (ops - {op})"
proof -
  have uniq: "j = k" if "tm j = Some op" for j
    using assms that by (auto simp: in_flight_def dest: inj_onD [of tm "dom tm" j k])
  have "inj_on tm (dom tm)" using assms(1) by (simp add: in_flight_def)
  then have "inj_on tm (dom tm - {k})" by (rule inj_on_subset) blast
  moreover have "inj_on (tm(k := None)) (dom tm - {k}) = inj_on tm (dom tm - {k})"
    by (rule inj_on_cong) simp
  ultimately have "inj_on (tm(k := None)) (dom (tm(k := None)))" by simp
  moreover have "x \<in> ran (tm(k := None)) \<longleftrightarrow> x \<in> ran tm - {op}" for x
  proof
    assume "x \<in> ran (tm(k := None))"
    then obtain j where "j \<noteq> k" "tm j = Some x" by (auto simp: ran_def split: if_splits)
    with uniq [of j] show "x \<in> ran tm - {op}" by (auto simp: ranI)
  next
    assume "x \<in> ran tm - {op}"
    then obtain j where "tm j = Some x" "x \<noteq> op" by (auto simp: ran_def)
    with assms(2) have "(tm(k := None)) j = Some x" by auto
    then show "x \<in> ran (tm(k := None))" by (rule ranI)
  qed
  then have "ran (tm(k := None)) = ran tm - {op}" by blast
  ultimately show ?thesis using assms(1) by (simp add: in_flight_def)
qed

lemma in_flight_add:
  assumes "in_flight tm ops" "tm k = None" "op \<notin> ops"
  shows "in_flight (tm(k \<mapsto> op)) (insert op ops)"
proof -
  have "tm j \<noteq> Some op" for j using assms by (auto simp: in_flight_def ran_def)
  then have "inj_on (tm(k \<mapsto> op)) (dom (tm(k \<mapsto> op)))"
    using assms(1) by (auto simp: in_flight_def inj_on_def split: if_splits)
  then show ?thesis using assms(1,2) by (simp add: in_flight_def)
qed

section \<open>What handling a completion does to the tables\<close>

definition holds ::
  "('c, connection) slab_ops \<Rightarrow> ('t, op_type) slab_ops \<Rightarrow> ('c \<Rightarrow> bool) \<Rightarrow> ('t \<Rightarrow> bool) \<Rightarrow> nat \<Rightarrow>
   ('c, 't) uring_worker \<Rightarrow> bool" where
  "holds C T okc okt mx w =
     (okc (rg_connections (uw_connections w)) \<and> okt (uw_tokens w) \<and> rg_max_connections (uw_connections w) = mx \<and>
      sl_len C (rg_connections (uw_connections w)) \<le> mx \<and>
      (\<forall>i c. conns C w i = Some c \<longrightarrow> (\<exists>st. cn_phase c = Established st)))"

text \<open>Only the entry of one connection changes, and no token.\<close>

definition near ::
  "('c, connection) slab_ops \<Rightarrow> ('t, op_type) slab_ops \<Rightarrow> ('c \<Rightarrow> bool) \<Rightarrow> ('t \<Rightarrow> bool) \<Rightarrow> nat \<Rightarrow> nat \<Rightarrow>
   ('c, 't) uring_worker \<Rightarrow> ('c, 't) uring_worker \<Rightarrow> bool" where
  "near C T okc okt mx cid w w' =
     (holds C T okc okt mx w' \<and> (\<exists>f. conns C w' = (conns C w)(cid := f)) \<and> toks T w' = toks T w)"

text \<open>The connection is gone, or has one new operation in flight: the one its new state calls for.\<close>

definition settles ::
  "('c, connection) slab_ops \<Rightarrow> ('t, op_type) slab_ops \<Rightarrow> ('c \<Rightarrow> bool) \<Rightarrow> ('t \<Rightarrow> bool) \<Rightarrow> nat \<Rightarrow> nat \<Rightarrow>
   ('c, 't) uring_worker \<Rightarrow> ('c, 't) uring_worker \<Rightarrow> bool" where
  "settles C T okc okt mx cid w w' =
     (holds C T okc okt mx w' \<and>
      (conns C w' = (conns C w)(cid := None) \<and> toks T w' = toks T w \<or>
       (\<exists>c k. conns C w' = (conns C w)(cid \<mapsto> c) \<and> toks T w k = None \<and>
          toks T w' = (toks T w)(k \<mapsto> pending_op cid c))))"

definition handled_ok :: "(('c, 't) uring_worker \<Rightarrow> sqe list \<Rightarrow> bool) \<Rightarrow> ('c, 't) handled \<Rightarrow> bool" where
  "handled_ok P h = (case h of Returned (w', None, sq) \<Rightarrow> P w' sq | _ \<Rightarrow> True)"

lemma handled_ok_simps [simp]:
  "handled_ok P Panicked" "handled_ok P (Returned (w, Some e, sq))"
  "handled_ok P (Returned (w, None, sq)) = P w sq"
  by (simp_all add: handled_ok_def)

lemma handled_ok_mono: "handled_ok P h \<Longrightarrow> (\<And>w sq. P w sq \<Longrightarrow> Q w sq) \<Longrightarrow> handled_ok Q h"
  by (auto simp: handled_ok_def split: outcome.splits option.splits)

lemma handled_okD:
  "handled_ok P h \<Longrightarrow> (case h of Returned (w, None, sq) \<Rightarrow> Some (w, sq) | _ \<Rightarrow> None) = Some (w', sq') \<Longrightarrow> P w' sq'"
  by (simp add: handled_ok_def split: outcome.splits prod.splits option.splits)

lemma near_refl: "holds C T okc okt mx w \<Longrightarrow> near C T okc okt mx cid w w"
  by (auto simp: near_def intro: exI [of _ "conns C w cid"])

lemma near_trans: "near C T okc okt mx cid w w1 \<Longrightarrow> near C T okc okt mx cid w1 w2 \<Longrightarrow> near C T okc okt mx cid w w2"
  by (auto simp: near_def)

lemma near_settles: "near C T okc okt mx cid w w1 \<Longrightarrow> settles C T okc okt mx cid w1 w2 \<Longrightarrow> settles C T okc okt mx cid w w2"
  by (auto simp: near_def settles_def)

lemma near_holds: "near C T okc okt mx cid w w1 \<Longrightarrow> holds C T okc okt mx w1"
  by (simp add: near_def)

lemma near_pool [simp]:
  "near C T okc okt mx cid w (put_write_pool p w1) = near C T okc okt mx cid w w1"
  "near C T okc okt mx cid w (recycle b w1) = near C T okc okt mx cid w w1"
  "near C T okc okt mx cid w (w1\<lparr>uw_write_buffers := p, uw_storage := s\<rparr>) = near C T okc okt mx cid w w1"
  by (simp_all add: near_def holds_def put_write_pool_def recycle_def)

lemma near_put:
  assumes C: "slab_laws C okc" and n: "near C T okc okt mx cid w w1" and c: "conns C w1 cid = Some c"
    and c': "\<exists>st. cn_phase c' = Established st"
  shows "near C T okc okt mx cid w (put_uconn C cid c' w1)" "conns C (put_uconn C cid c' w1) cid = Some c'"
proof -
  have ok: "okc (rg_connections (uw_connections w1))" using n by (simp add: near_def holds_def)
  note set = slab_set [OF C ok c, of c']
  have "dom ((conns C w1)(cid \<mapsto> c')) = dom (conns C w1)" using c by auto
  then have "sl_len C (sl_set C (rg_connections (uw_connections w1)) cid c') = sl_len C (rg_connections (uw_connections w1))"
    using slab_len [OF C ok] slab_len [OF C] set by metis
  then show "near C T okc okt mx cid w (put_uconn C cid c' w1)" "conns C (put_uconn C cid c' w1) cid = Some c'"
    using n set c c' by (auto simp: near_def holds_def put_uconn_def registry_set_def)
qed

lemma close_settles:
  assumes C: "slab_laws C okc" and h: "holds C T okc okt mx w"
  shows "settles C T okc okt mx cid w (uring_close_connection C cid w)"
proof (cases "conns C w cid")
  case None
  then have "(conns C w)(cid := None) = conns C w" by auto
  with None h show ?thesis by (simp add: settles_def uring_close_connection_def registry_remove_def)
next
  case (Some c)
  have ok: "okc (rg_connections (uw_connections w))" using h by (simp add: holds_def)
  note rem = slab_remove [OF C ok Some]
  have "card (dom ((conns C w)(cid := None))) \<le> card (dom (conns C w))"
    using slab_len [OF C ok] by (auto intro: card_mono)
  then have "sl_len C (sl_remove C (rg_connections (uw_connections w)) cid) \<le> sl_len C (rg_connections (uw_connections w))"
    using slab_len [OF C ok] slab_len [OF C] rem by metis
  with Some h rem show ?thesis
    by (auto simp: settles_def holds_def uring_close_connection_def registry_remove_def Let_def)
qed

lemma near_close:
  "slab_laws C okc \<Longrightarrow> near C T okc okt mx cid w w1 \<Longrightarrow> settles C T okc okt mx cid w (uring_close_connection C cid w1)"
  by (rule near_settles [OF _ close_settles [OF _ near_holds]])

lemma submit_settles:
  assumes T: "slab_laws T okt" and n: "near C T okc okt mx cid w w1" and c: "conns C w1 cid = Some c"
    and op: "op = pending_op cid c"
  shows "handled_ok (\<lambda>w' _. settles C T okc okt mx cid w w') (Returned (submit T op entry push w1))"
proof -
  obtain ts k where ins: "sl_insert T (uw_tokens w1) op = (ts, k)" by fastforce
  have "okt (uw_tokens w1)" using n by (simp add: near_def holds_def)
  note law = slab_insert [OF T this ins]
  obtain f where "conns C w1 = (conns C w)(cid := f)" using n by (auto simp: near_def)
  with c have G: "conns C w1 = (conns C w)(cid \<mapsto> c)" by (metis fun_upd_same)
  show ?thesis
  proof (cases push)
    case True
    then show ?thesis
      using law n G op ins by (auto simp: submit_def token_alloc_def settles_def near_def holds_def)
  next
    case False
    then show ?thesis by (simp add: submit_def token_alloc_def ins)
  qed
qed

lemma submit_read_settles:
  assumes T: "slab_laws T okt" and n: "near C T okc okt mx cid w w1" and c: "conns C w1 cid = Some c"
    and st: "cn_phase c = Established (Reading f)"
  shows "handled_ok (\<lambda>w' _. settles C T okc okt mx cid w w') (Returned (submit_read C T push cid w1))"
  using submit_settles [OF T n c, of "OpRead cid"] c st by (simp add: submit_read_def registry_get_def pending_op_def)

lemma submit_write_settles:
  assumes T: "slab_laws T okt" and n: "near C T okc okt mx cid w w1" and c: "conns C w1 cid = Some c"
  shows "handled_ok (\<lambda>w' _. settles C T okc okt mx cid w w') (submit_write C T push cid len w1)"
  using submit_settles [OF T n c] c
  by (auto simp: submit_write_def registry_get_def pending_op_def split: conn_phase.split data_state.split outcome.split)

lemma begin_response_settles:
  assumes C: "slab_laws C okc" and T: "slab_laws T okt" and n: "near C T okc okt mx cid w w1"
    and c: "conns C w1 cid = Some c0"
  shows "handled_ok (\<lambda>w' _. settles C T okc okt mx cid w w') (begin_response C T push cid idx len c w1)"
proof (cases "start_writing idx len c")
  case (Returned c')
  then have "\<exists>st. cn_phase c' = Established st" by (auto simp: start_writing_def split: conn_phase.splits)
  note put = near_put [OF C n c this]
  show ?thesis using submit_write_settles [OF T put] Returned by (simp add: begin_response_def)
qed (simp add: begin_response_def)

lemma put_pool_conns [simp]:
  "conns C (put_write_pool p w) = conns C w" "conns C (recycle b w) = conns C w"
  by (simp_all add: put_write_pool_def recycle_def)

lemma shift_phase:
  "shift_accumulated idx consumed total_len c p = Returned (c', p') \<Longrightarrow> cn_phase c' = cn_phase c"
  by (auto simp: shift_accumulated_def split: if_splits outcome.splits)

lemma uring_on_result_settles:
  assumes C: "slab_laws C okc" and T: "slab_laws T okt" and n: "near C T okc okt mx cid w w1"
    and c: "conns C w1 cid = Some c" and st: "cn_phase c = Established (Reading f)"
  shows "handled_ok (\<lambda>w' _. settles C T okc okt mx cid w w') (uring_on_result C T push cid a tot wi result c w1)"
proof -
  have rej: "handled_ok (\<lambda>w' _. settles C T okc okt mx cid w w') (reject C cid wi w2)"
    if "near C T okc okt mx cid w w2" for w2
    using near_close [OF C, of T okt mx cid w] that by (simp add: reject_def)
  show ?thesis
  proof (cases result)
    case PNeedData
    then show ?thesis
      using submit_read_settles [OF T, of C okc mx cid w "put_write_pool (pool_free wi (uw_write_buffers w1)) w1"] n c st
      by (simp add: uring_on_result_def)
  next
    case (PResponse k l)
    then show ?thesis
      using begin_response_settles [OF C T] n c
      by (auto simp: uring_on_result_def split: outcome.split)
  next
    case (PLargeResponse k d)
    show ?thesis
    proof (cases "shift_accumulated a k tot c (uw_write_buffers w1)")
      case (Returned x)
      obtain c' p where x: "x = (c', p)" by fastforce
      have "\<exists>st. cn_phase c' = Established st" using shift_phase Returned x st by auto
      from near_put(1) [OF C, of T okt mx cid w "put_write_pool p w1" c c'] this n c
      have "near C T okc okt mx cid w (put_uconn C cid c' (put_write_pool p w1))" by simp
      from rej [OF this] show ?thesis
        using begin_response_settles [OF C T, of mx cid w] n c PLargeResponse Returned x
        by (auto simp: uring_on_result_def split: outcome.split)
    qed (simp add: uring_on_result_def PLargeResponse)
  qed (use rej n in \<open>simp_all add: uring_on_result_def\<close>)
qed

lemma serve_input_settles:
  assumes C: "slab_laws C okc" and T: "slab_laws T okt" and n: "near C T okc okt mx cid w w1"
    and c: "conns C w1 cid = Some c" and st: "cn_phase c = Established (Reading f)"
  shows "handled_ok (\<lambda>w' _. settles C T okc okt mx cid w w') (serve_input C T E push cid a tot inp c w1)"
  using uring_on_result_settles [OF C T, of mx cid w] near_close [OF C n] n c st
  by (auto simp: serve_input_def split: prod.split option.split outcome.split)

lemma accumulate_settles:
  assumes C: "slab_laws C okc" and T: "slab_laws T okt" and n: "near C T okc okt mx cid w w1"
    and c: "conns C w1 cid = Some c" and st: "cn_phase c = Established (Reading f)"
  shows "handled_ok (\<lambda>w' _. settles C T okc okt mx cid w w') (accumulate C T E mem push cid k bid a c w1)"
proof -
  let ?c = "c\<lparr>cn_read_accumulated := cn_read_accumulated c + k\<rparr>"
  let ?w = "\<lambda>p. recycle bid (put_write_pool p w1)"
  have "near C T okc okt mx cid w (put_uconn C cid ?c (?w p))" "conns C (put_uconn C cid ?c (?w p)) cid = Some ?c" for p
    using near_put [OF C, of T okt mx cid w "?w p" c ?c] n c st by simp_all
  from serve_input_settles [OF C T this] near_close [OF C, of T okt mx cid w "recycle bid w1"] n st show ?thesis
    by (auto simp: accumulate_def Let_def split: outcome.split)
qed

lemma handle_read_settles:
  assumes C: "slab_laws C okc" and T: "slab_laws T okt" and h: "holds C T okc okt mx w"
    and st: "\<And>c. conns C w cid = Some c \<Longrightarrow> \<exists>f. cn_phase c = Established (Reading f)"
  shows "handled_ok (\<lambda>w' _. settles C T okc okt mx cid w w') (handle_read C T E mem push result cid buf_id w)"
proof -
  note n = near_refl [OF h, of cid]
  have cl: "settles C T okc okt mx cid w (uring_close_connection C cid w)"
    "settles C T okc okt mx cid w (uring_close_connection C cid (recycle b w))" for b
    using near_close [OF C n] near_close [OF C, of T okt mx cid w "recycle b w"] n by simp_all
  show ?thesis
  proof (cases "conns C w cid")
    case None
    then have "settles C T okc okt mx cid w (recycle b w)" for b
      using h by (auto simp: settles_def holds_def recycle_def)
    with cl None show ?thesis
      by (auto simp: handle_read_def registry_get_def split: option.split)
  next
    case (Some c)
    obtain f where f: "cn_phase c = Established (Reading f)" using st Some by blast
    have put: "near C T okc okt mx cid w (put_uconn C cid (c\<lparr>cn_read_buf_idx := Some i\<rparr>) (put_write_pool p w))"
      "conns C (put_uconn C cid (c\<lparr>cn_read_buf_idx := Some i\<rparr>) (put_write_pool p w)) cid = Some (c\<lparr>cn_read_buf_idx := Some i\<rparr>)"
      for i p using near_put [OF C, of T okt mx cid w "put_write_pool p w" c] n Some f by simp_all
    from cl accumulate_settles [OF C T n Some f] accumulate_settles [OF C T put] f Some show ?thesis
      by (auto simp: handle_read_def registry_get_def Let_def split: option.split prod.split)
  qed
qed

lemma handle_write_settles:
  assumes C: "slab_laws C okc" and T: "slab_laws T okt" and h: "holds C T okc okt mx w"
    and st: "\<And>c. conns C w cid = Some c \<Longrightarrow> \<exists>i k t. cn_phase c = Established (Writing i k t)"
  shows "handled_ok (\<lambda>w' _. settles C T okc okt mx cid w w') (handle_write C T push result cid idx w)"
proof -
  note n = near_refl [OF h, of cid]
  let ?freed = "put_write_pool (pool_free idx (uw_write_buffers w)) w"
  have cl: "settles C T okc okt mx cid w (uring_close_connection C cid ?freed)"
    using near_close [OF C, of T okt mx cid w ?freed] n by simp
  show ?thesis
  proof (cases "conns C w cid")
    case None
    then have "settles C T okc okt mx cid w ?freed" using h by (auto simp: settles_def holds_def put_write_pool_def)
    with cl None show ?thesis by (simp add: handle_write_def registry_get_def Let_def)
  next
    case (Some c)
    obtain i k t where ph: "cn_phase c = Established (Writing i k t)" using st Some by blast
    let ?r = "c\<lparr>cn_phase := Established (Reading 0)\<rparr>"
    have "near C T okc okt mx cid w (put_uconn C cid ?r ?freed)" "conns C (put_uconn C cid ?r ?freed) cid = Some ?r"
      using near_put [OF C, of T okt mx cid w ?freed c ?r] n Some by simp_all
    note rd = submit_read_settles [OF T this, of 0]
    let ?w = "\<lambda>k. c\<lparr>cn_phase := Established (Writing i k t)\<rparr>"
    have "near C T okc okt mx cid w (put_uconn C cid (?w k) w)" "conns C (put_uconn C cid (?w k) w) cid = Some (?w k)" for k
      using near_put [OF C n Some, of "?w k"] by simp_all
    note wr = submit_write_settles [OF T this]
    show ?thesis
      using cl rd wr Some ph
      by (simp add: handle_write_def registry_get_def Let_def start_reading_def ds_reading_def)
  qed
qed

section \<open>One operation in flight per connection\<close>

definition flights ::
  "('c, connection) slab_ops \<Rightarrow> ('t, op_type) slab_ops \<Rightarrow> ('c \<Rightarrow> bool) \<Rightarrow> ('t \<Rightarrow> bool) \<Rightarrow> nat \<Rightarrow>
   ('c, 't) uring_worker \<Rightarrow> bool" where
  "flights C T okc okt mx w =
     (holds C T okc okt mx w \<and> in_flight (toks T w) (insert OpAccept (ops_of (conns C w))))"

lemma ops_of_remove:
  "G cid = Some c \<Longrightarrow>
    insert OpAccept (ops_of G) - {pending_op cid c} = insert OpAccept (ops_of (G(cid := None)))"
  using ops_of_insert [of G cid c] ops_of_fresh [of "G(cid := None)" cid c] by (auto simp: map_upd_triv)

lemma settles_flights:
  assumes s: "settles C T okc okt mx cid w w'"
    and fl: "in_flight (toks T w) (insert OpAccept (ops_of ((conns C w)(cid := None))))"
  shows "flights C T okc okt mx w'"
proof -
  from s consider "conns C w' = (conns C w)(cid := None)" "toks T w' = toks T w"
    | c k where "conns C w' = (conns C w)(cid \<mapsto> c)" "toks T w k = None" "toks T w' = (toks T w)(k \<mapsto> pending_op cid c)"
    by (auto simp: settles_def)
  then show ?thesis
  proof cases
    case 2
    have "pending_op cid c \<notin> insert OpAccept (ops_of ((conns C w)(cid := None)))"
      using ops_of_fresh [of "(conns C w)(cid := None)" cid c] by simp
    from in_flight_add [OF fl 2(2) this] s 2 show ?thesis
      by (simp add: flights_def settles_def ops_of_insert insert_commute)
  qed (use s fl in \<open>simp add: flights_def settles_def\<close>)
qed

lemma handle_accept_flights:
  assumes C: "slab_laws C okc" and T: "slab_laws T okt" and h: "holds C T okc okt mx w"
    and fl: "in_flight (toks T w) (ops_of (conns C w))"
  shows "handled_ok (\<lambda>w' _. flights C T okc okt mx w') (handle_accept C T result push1 push2 proto w)"
proof (cases push1)
  case True
  obtain ts k where ins: "sl_insert T (uw_tokens w) OpAccept = (ts, k)" by fastforce
  have okt: "okt (uw_tokens w)" and okc: "okc (rg_connections (uw_connections w))" using h by (simp_all add: holds_def)
  note law = slab_insert [OF T okt ins]
  let ?w1 = "w\<lparr>uw_tokens := ts\<rparr>"
  have acc: "submit_accept T push1 w = (?w1, None, [SqeAccept (of_nat k)])"
    using True ins by (simp add: submit_accept_def submit_def token_alloc_def)
  have h1: "holds C T okc okt mx ?w1" using h law by (simp add: holds_def)
  have "OpAccept \<notin> ops_of (conns C w)" by (auto simp: ops_of_def)
  with in_flight_add [OF fl _ this] law have fl1: "in_flight (toks T ?w1) (insert OpAccept (ops_of (conns C w)))" by simp
  have ok1: "flights C T okc okt mx ?w1" using h1 fl1 by (simp add: flights_def)
  show ?thesis
  proof (cases "result < 0 \<or> mx \<le> sl_len C (rg_connections (uw_connections w))")
    case False
    let ?c = "connection_new result proto"
    obtain cs cid where insc: "sl_insert C (rg_connections (uw_connections w)) ?c = (cs, cid)" by fastforce
    note lawc = slab_insert [OF C okc insc]
    let ?w2 = "?w1\<lparr>uw_connections := uw_connections w\<lparr>rg_connections := cs\<rparr>\<rparr>"
    have "sl_len C cs \<le> mx"
      using slab_len [OF C okc] slab_len [OF C, of cs] lawc False by (simp add: card_insert_if)
    then have "near C T okc okt mx cid ?w1 ?w2"
      using h1 lawc by (auto simp: near_def holds_def connection_new_def phase_established_def)
    from submit_read_settles [OF T this, of ?c 0 push2] lawc
    have "handled_ok (\<lambda>w' _. settles C T okc okt mx cid ?w1 w') (Returned (submit_read C T push2 cid ?w2))"
      by (simp add: connection_new_def phase_established_def ds_reading_def)
    moreover have "(conns C ?w1)(cid := None) = conns C w" using lawc by auto
    ultimately have "handled_ok (\<lambda>w' _. flights C T okc okt mx w') (Returned (submit_read C T push2 cid ?w2))"
      using settles_flights [of C T okc okt mx cid ?w1] fl1 by (auto elim!: handled_ok_mono)
    moreover have "registry_insert C ?c (uw_connections ?w1) = (uw_connections w\<lparr>rg_connections := cs\<rparr>, Some cid)"
      using False h insc by (simp add: registry_insert_def holds_def)
    ultimately show ?thesis
      using False acc by (auto simp: handle_accept_def handled_ok_def Let_def split: prod.splits option.splits)
  next
    case True
    then have "registry_insert C c (uw_connections ?w1) = (uw_connections w, None) \<or> result < 0" for c
      using h by (auto simp: registry_insert_def holds_def)
    with ok1 acc show ?thesis by (auto simp: handle_accept_def split: prod.split option.split)
  qed
next
  case False
  then show ?thesis
    by (auto simp: handle_accept_def submit_accept_def submit_def token_alloc_def split: prod.split)
qed

text \<open>The completion of a known operation.\<close>

lemma uring_event_op:
  "toks T w (unat (cq_token e)) = Some op \<Longrightarrow>
    uring_event C T proto e w =
      (let w1 = w\<lparr>uw_tokens := sl_remove T (uw_tokens w) (unat (cq_token e))\<rparr> in
       case (case op of
               OpAccept \<Rightarrow> handle_accept C T (cq_result e) (cq_push1 e) (cq_push2 e) proto w1
             | OpRead cid \<Rightarrow>
                 handle_read C T (cq_env e) (cq_memory e) (cq_push1 e) (cq_result e) cid (cq_buffer e) w1
             | OpWrite cid buf_idx \<Rightarrow> handle_write C T (cq_push1 e) (cq_result e) cid buf_idx w1) of
         Returned (w', None, sq) \<Rightarrow> Some (w', sq) | _ \<Rightarrow> None)"
  by (simp add: uring_event_def token_free_def)

lemma flight_cases:
  assumes "flights C T okc okt mx w" "toks T w k = Some op"
  obtains (accept) "op = OpAccept"
  | (recv) cid c f where "conns C w cid = Some c" "cn_phase c = Established (Reading f)" "op = OpRead cid"
  | (send) cid c i j t where "conns C w cid = Some c" "cn_phase c = Established (Writing i j t)" "op = OpWrite cid i"
proof (cases "op = OpAccept")
  case False
  have "op \<in> insert OpAccept (ops_of (conns C w))"
    using assms by (auto simp: flights_def in_flight_def intro: ranI)
  with False obtain cid c where c: "conns C w cid = Some c" "op = pending_op cid c" by (auto simp: ops_of_def)
  obtain st where st: "cn_phase c = Established st" using assms(1) c(1) by (auto simp: flights_def holds_def)
  show ?thesis
    using c st recv [of cid c] send [of cid c] by (cases st) (simp_all add: pending_op_def)
qed (rule accept)

text \<open>What is left when the token of a completion has been freed.\<close>

lemma completion_state:
  assumes T: "slab_laws T okt" and fl: "flights C T okc okt mx w" and k: "toks T w k = Some op"
  shows "holds C T okc okt mx (w\<lparr>uw_tokens := sl_remove T (uw_tokens w) k\<rparr>)"
    "in_flight (sl_get T (sl_remove T (uw_tokens w) k)) (insert OpAccept (ops_of (conns C w)) - {op})"
proof -
  have h: "holds C T okc okt mx w" and tm: "in_flight (toks T w) (insert OpAccept (ops_of (conns C w)))"
    using fl by (simp_all add: flights_def)
  have "okt (uw_tokens w)" using h by (simp add: holds_def)
  note rem = slab_remove [OF T this k]
  show "holds C T okc okt mx (w\<lparr>uw_tokens := sl_remove T (uw_tokens w) k\<rparr>)" using h rem by (simp add: holds_def)
  show "in_flight (sl_get T (sl_remove T (uw_tokens w) k)) (insert OpAccept (ops_of (conns C w)) - {op})"
    using in_flight_free [OF tm k] rem by simp
qed

lemma uring_event_settles:
  assumes C: "slab_laws C okc" and T: "slab_laws T okt" and fl: "flights C T okc okt mx w"
    and k: "toks T w (unat (cq_token e)) = Some op" and ev: "uring_event C T proto e w = Some (w', sq)"
    and c: "conns C w cid = Some c" "op = pending_op cid c"
  shows "settles C T okc okt mx cid (w\<lparr>uw_tokens := sl_remove T (uw_tokens w) (unat (cq_token e))\<rparr>) w'"
    (is "settles C T okc okt mx cid ?w w'")
proof -
  note h1 = completion_state(1) [OF T fl k]
  obtain st where st: "cn_phase c = Established st" using fl c(1) by (auto simp: flights_def holds_def)
  show ?thesis
  proof (cases st)
    case (Reading f)
    have "handled_ok (\<lambda>w' _. settles C T okc okt mx cid ?w w')
        (handle_read C T (cq_env e) (cq_memory e) (cq_push1 e) (cq_result e) cid (cq_buffer e) ?w)"
      by (rule handle_read_settles [OF C T h1]) (use c st Reading in auto)
    moreover have "op = OpRead cid" using c(2) st Reading by (simp add: pending_op_def)
    ultimately show ?thesis
      using ev handled_okD unfolding uring_event_op [where C = C and proto = proto, OF k] Let_def by fastforce
  next
    case (Writing i j t)
    have "handled_ok (\<lambda>w' _. settles C T okc okt mx cid ?w w')
        (handle_write C T (cq_push1 e) (cq_result e) cid i ?w)"
      by (rule handle_write_settles [OF C T h1]) (use c st Writing in auto)
    moreover have "op = OpWrite cid i" using c(2) st Writing by (simp add: pending_op_def)
    ultimately show ?thesis
      using ev handled_okD unfolding uring_event_op [where C = C and proto = proto, OF k] Let_def by fastforce
  qed
qed

lemma uring_event_flights:
  assumes C: "slab_laws C okc" and T: "slab_laws T okt" and fl: "flights C T okc okt mx w"
    and ev: "uring_event C T proto e w = Some (w', sq)"
  shows "flights C T okc okt mx w'"
proof (cases "toks T w (unat (cq_token e))")
  case None
  with fl ev show ?thesis by (simp add: uring_event_def token_free_def)
next
  case (Some op)
  let ?w = "w\<lparr>uw_tokens := sl_remove T (uw_tokens w) (unat (cq_token e))\<rparr>"
  note h1 = completion_state(1) [OF T fl Some] and tm = completion_state(2) [OF T fl Some]
  have conn: ?thesis if c: "conns C w cid = Some c" "op = pending_op cid c" for cid c
  proof (rule settles_flights [OF uring_event_settles [OF C T fl Some ev c]])
    show "in_flight (toks T ?w) (insert OpAccept (ops_of ((conns C ?w)(cid := None))))"
      using tm ops_of_remove [of "conns C w" cid c] c by simp
  qed
  from fl Some show ?thesis
  proof (cases rule: flight_cases)
    case accept
    have "insert OpAccept (ops_of (conns C w)) - {OpAccept} = ops_of (conns C w)" by (auto simp: ops_of_def)
    with tm accept have "in_flight (toks T ?w) (ops_of (conns C ?w))" by simp
    from handled_okD [OF handle_accept_flights [OF C T h1 this]] ev show ?thesis
      unfolding uring_event_op [where C = C and proto = proto, OF Some] accept Let_def op_type.case by blast
  qed (use conn in \<open>simp_all add: pending_op_def\<close>)
qed

end
