(* ===== verification/Uring_Buffers.thy ===== *)
theory Uring_Buffers
  imports Uring_Correct
begin

text \<open>
  The buffers of the io_uring worker. A connection owns its accumulation buffer and, while it
  writes, the buffer of the response; a handler exchanges buffers with the free list. As long as
  no write fails the ledger is kept; a write that fails, or that has nothing to send, returns
  its buffer twice.
\<close>

section \<open>Exchanges, one buffer at a time\<close>

definition base :: "buffer_pool \<Rightarrow> nat list \<Rightarrow> bool" where
  "base p os = (pool_ok p \<and> set os \<subseteq> {..<length (bp_buffers p)})"

lemma exchange_facts:
  assumes "base p0 os0" "exchange p0 os0 p os"
  shows "pool_ok p" "distinct os" "set os \<inter> set (bp_free_list p) = {}" "set os \<subseteq> {..<length (bp_buffers p)}"
    "bp_buffer_size p = bp_buffer_size p0" "length (bp_buffers p) = length (bp_buffers p0)"
proof -
  show "pool_ok p" "distinct os" "set os \<inter> set (bp_free_list p) = {}" "bp_buffer_size p = bp_buffer_size p0"
    "length (bp_buffers p) = length (bp_buffers p0)" using assms(2) by (simp_all add: exchange_def)
  have "set os \<subseteq> set os0 \<union> set (bp_free_list p0)" using assms(2) by (auto simp: exchange_def)
  with assms free_in_range [of p0] show "set os \<subseteq> {..<length (bp_buffers p)}"
    by (auto simp: base_def exchange_def)
qed

lemma exchange_free1:
  assumes "base p0 os0" "exchange p0 os0 p (i # os)"
  shows "exchange p0 os0 (pool_free i p) os"
proof -
  note f = exchange_facts [OF assms]
  have "exchange p (i # os) (pool_free i p) os"
    by (rule exchange_give [OF f(1-4), where js = "[i]"]) (simp_all add: pool_free_def)
  with assms(2) show ?thesis by (rule exchange_trans)
qed

lemma exchange_alloc1:
  assumes "base p0 os0" "exchange p0 os0 p os" "pool_alloc p = (p', Some i)"
  shows "exchange p0 os0 p' (i # os)"
  using exchange_trans [OF assms(2) exchange_alloc(1) [OF exchange_facts(1-3) [OF assms(1,2)] assms(3)]] .

lemma exchange_fill1:
  assumes "base p0 os0" "exchange p0 os0 p os" "i \<in> set os" "length b = bp_buffer_size p"
  shows "exchange p0 os0 (pool_set i b p) os"
  using exchange_fill [OF assms(2,3)] assms(4) exchange_facts(5) [OF assms(1,2)] by simp

lemma exchange_get:
  assumes "base p0 os0" "exchange p0 os0 p os" "i \<in> set os"
  shows "pool_get p i = Returned (bp_buffers p ! i)" "length (bp_buffers p ! i) = bp_buffer_size p"
  using exchange_facts [OF assms(1,2)] assms(3) by (auto simp: pool_get_def pool_ok_def list_all_length)

section \<open>What a connection owns\<close>

definition uowned :: "connection \<Rightarrow> nat list" where
  "uowned c =
     (case cn_phase c of Established (Writing idx _ _) \<Rightarrow> [idx] | _ \<Rightarrow> []) @
     (case cn_read_buf_idx c of Some i \<Rightarrow> [i] | None \<Rightarrow> [])"

definition uowned_at :: "('c, connection) slab_ops \<Rightarrow> nat \<Rightarrow> ('c, 't) uring_worker \<Rightarrow> nat list" where
  "uowned_at C cid w = (case conns C w cid of Some c \<Rightarrow> uowned c | None \<Rightarrow> [])"

definition uconn_ok :: "nat \<Rightarrow> connection \<Rightarrow> bool" where
  "uconn_ok bs c =
     (cn_read_accumulated c \<le> bs \<and> (cn_read_buf_idx c = None \<longrightarrow> cn_read_accumulated c = 0) \<and>
      (case cn_phase c of Established (Writing idx written t) \<Rightarrow> written \<le> t \<and> t \<le> bs | _ \<Rightarrow> True))"

text \<open>The pool after a handler, against the pool and the connection's buffers before it.\<close>

definition pooled ::
  "('c, connection) slab_ops \<Rightarrow> buffer_pool \<Rightarrow> nat list \<Rightarrow> nat \<Rightarrow> ('c, 't) uring_worker \<Rightarrow> bool" where
  "pooled C p0 os0 cid w =
     (exchange p0 os0 (uw_write_buffers w) (uowned_at C cid w) \<and>
      (\<forall>c. conns C w cid = Some c \<longrightarrow> uconn_ok (bp_buffer_size p0) c))"

text \<open>A handler result that panics only if \<open>pan\<close>, and is as stated when it goes on.\<close>

definition safe :: "bool \<Rightarrow> (('c, 't) uring_worker \<Rightarrow> bool) \<Rightarrow> ('c, 't) handled \<Rightarrow> bool" where
  "safe pan P h =
     (case h of Returned (w', None, sq) \<Rightarrow> P w' | Returned (w', Some e, sq) \<Rightarrow> True | Panicked \<Rightarrow> pan)"

lemma safe_simps [simp]:
  "safe pan P Panicked = pan" "safe pan P (Returned (w, Some e, sq))"
  "safe pan P (Returned (w, None, sq)) = P w"
  by (simp_all add: safe_def)

lemma uring_pool_simps [simp]:
  "uw_write_buffers (put_write_pool p w) = p" "uw_write_buffers (put_uconn C cid c w) = uw_write_buffers w"
  "uw_write_buffers (recycle b w) = uw_write_buffers w"
  by (simp_all add: put_write_pool_def put_uconn_def recycle_def)

lemma submit_fields:
  "submit T op entry push w = (w', e, sq) \<Longrightarrow>
    uw_connections w' = uw_connections w \<and> uw_write_buffers w' = uw_write_buffers w"
  by (auto simp: submit_def Let_def split: prod.splits if_splits)

lemma submit_pooled:
  assumes "exchange p0 os0 (uw_write_buffers w) (uowned c)" "conns C w cid = Some c" "uconn_ok (bp_buffer_size p0) c"
  shows "safe pan (pooled C p0 os0 cid) (Returned (submit T op entry push w))"
proof -
  obtain w' e sq where s: "submit T op entry push w = (w', e, sq)" by (cases "submit T op entry push w")
  with submit_fields [OF s] assms show ?thesis by (cases e) (simp_all add: pooled_def uowned_at_def)
qed

lemma submit_read_pooled:
  assumes "exchange p0 os0 (uw_write_buffers w) (uowned c)" "conns C w cid = Some c" "uconn_ok (bp_buffer_size p0) c"
  shows "safe pan (pooled C p0 os0 cid) (Returned (submit_read C T push cid w))"
  using submit_pooled [OF assms] assms(2) by (simp add: submit_read_def registry_get_def)

lemma submit_write_pooled:
  assumes b: "base p0 os0" and "exchange p0 os0 (uw_write_buffers w) (uowned c)" "conns C w cid = Some c"
    "uconn_ok (bp_buffer_size p0) c"
  shows "safe pan (pooled C p0 os0 cid) (submit_write C T push cid len w)"
proof (cases "\<exists>i k t. cn_phase c = Established (Writing i k t)")
  case True
  then obtain i k t where ph: "cn_phase c = Established (Writing i k t)" by blast
  then have "i \<in> set (uowned c)" by (simp add: uowned_def)
  from exchange_get(1) [OF b assms(2) this] submit_pooled [OF assms(2-4)] ph assms(3) show ?thesis
    by (simp add: submit_write_def registry_get_def)
next
  case False
  then show ?thesis
    using assms(3) by (auto simp: submit_write_def registry_get_def split: conn_phase.split data_state.split)
qed

lemma close_pooled:
  assumes C: "slab_laws C okc" "okc (rg_connections (uw_connections w))" and b: "base p0 os0"
    and ex: "exchange p0 os0 (uw_write_buffers w) (uowned c)" and c: "conns C w cid = Some c"
  shows "pooled C p0 os0 cid (uring_close_connection C cid w)"
proof -
  let ?p = "uw_write_buffers (uring_close_connection C cid w)"
  have p: "bp_free_list ?p = bp_free_list (uw_write_buffers w) @ uowned c"
    "bp_buffers ?p = bp_buffers (uw_write_buffers w)" "bp_buffer_size ?p = bp_buffer_size (uw_write_buffers w)"
    using c by (auto simp: uring_close_connection_def registry_remove_def Let_def uowned_def pool_free_def
        split: conn_phase.split data_state.split option.split)
  have "exchange (uw_write_buffers w) (uowned c) ?p []"
    by (rule exchange_give [OF exchange_facts(1-4) [OF b ex], where js = "uowned c"]) (simp_all add: p)
  moreover have "conns C (uring_close_connection C cid w) cid = None"
    using slab_remove [OF C c] c by (simp add: uring_close_connection_def registry_remove_def Let_def)
  ultimately show ?thesis using exchange_trans [OF ex] by (simp add: pooled_def uowned_at_def)
qed

section \<open>The handlers\<close>

definition conns_ok :: "('c \<Rightarrow> bool) \<Rightarrow> ('c, 't) uring_worker \<Rightarrow> bool" where
  "conns_ok okc w = okc (rg_connections (uw_connections w))"

lemma conns_ok_simps [simp]:
  "conns_ok okc (put_write_pool p w) = conns_ok okc w" "conns_ok okc (recycle b w) = conns_ok okc w"
  "conns_ok okc (w\<lparr>uw_write_buffers := p, uw_storage := s\<rparr>) = conns_ok okc w"
  by (simp_all add: conns_ok_def put_write_pool_def recycle_def)

lemma put_conns:
  assumes "slab_laws C okc" "conns_ok okc w" "conns C w cid = Some c"
  shows "conns C (put_uconn C cid c' w) cid = Some c'" "conns_ok okc (put_uconn C cid c' w)"
  using slab_set [OF assms(1) _ assms(3), of c'] assms
  by (simp_all add: conns_ok_def put_uconn_def registry_set_def)

lemma begin_response_pooled:
  assumes C: "slab_laws C okc" "conns_ok okc w" and b: "base p0 os0"
    and ex: "exchange p0 os0 (uw_write_buffers w) (wi # a # [])" and c: "conns C w cid = Some c0"
    and c1: "cn_phase c1 = Established st" "cn_read_buf_idx c1 = Some a" "cn_read_accumulated c1 \<le> bp_buffer_size p0"
    and len: "len \<le> bp_buffer_size p0"
  shows "safe pan (pooled C p0 os0 cid) (begin_response C T push cid wi len c1 w)"
proof -
  let ?c = "c1\<lparr>cn_phase := Established (Writing wi 0 len)\<rparr>"
  have "safe pan (pooled C p0 os0 cid) (submit_write C T push cid len (put_uconn C cid ?c w))"
    by (rule submit_write_pooled [OF b _ put_conns(1) [OF C c]])
      (use ex c1 len in \<open>simp_all add: uowned_def uconn_ok_def\<close>)
  then show ?thesis using c1(1) by (simp add: begin_response_def start_writing_def ds_writing_def)
qed

lemma reject_pooled:
  assumes C: "slab_laws C okc" "conns_ok okc w" and b: "base p0 os0"
    and ex: "exchange p0 os0 (uw_write_buffers w) (wi # uowned c)" and c: "conns C w cid = Some c"
  shows "safe pan (pooled C p0 os0 cid) (reject C cid wi w)"
  unfolding reject_def safe_simps
  by (rule close_pooled [OF C(1) _ b]) (use C(2) exchange_free1 [OF b ex] c in \<open>simp_all add: conns_ok_def put_write_pool_def\<close>)

text \<open>The accumulation buffer is rewritten in place.\<close>

lemma shift_pooled:
  assumes b: "base p0 os0" and ex: "exchange p0 os0 p os" and a: "a \<in> set os"
    and tot: "tot \<le> bp_buffer_size p0"
  shows "\<exists>c' p'. shift_accumulated a k tot c p = Returned (c', p') \<and> exchange p0 os0 p' os \<and>
    cn_phase c' = cn_phase c \<and> cn_read_buf_idx c' = cn_read_buf_idx c \<and> cn_read_accumulated c' \<le> tot \<and>
    (\<forall>i. i \<noteq> a \<longrightarrow> bp_buffers p' ! i = bp_buffers p ! i)"
proof (cases "k < tot")
  case True
  note g = exchange_get [OF b ex a]
  let ?buf = "bp_buffers p ! a"
  have bs: "bp_buffer_size p = bp_buffer_size p0" by (rule exchange_facts(5) [OF b ex])
  have "slice k tot ?buf = Returned (take (tot - k) (drop k ?buf))" using True tot g bs by (simp add: slice_ok)
  moreover have "exchange p0 os0 (pool_set a (blit 0 (take (tot - k) (drop k ?buf)) ?buf) p) os"
    by (rule exchange_fill1 [OF b ex a]) (use g tot bs in \<open>simp add: length_blit\<close>)
  ultimately show ?thesis using True g by (simp add: shift_accumulated_def) (simp add: pool_set_def)
qed (use ex in \<open>simp add: shift_accumulated_def\<close>)

lemma on_result_pooled:
  assumes C: "slab_laws C okc" "conns_ok okc w" and b: "base p0 os0"
    and ex: "exchange p0 os0 (uw_write_buffers w) (wi # a # [])" and c: "conns C w cid = Some c"
    and ph: "cn_phase c = Established (Reading f)" "cn_read_buf_idx c = Some a" "cn_read_accumulated c = tot"
    and tot: "tot \<le> bp_buffer_size p0" and len: "case result of PResponse k l \<Rightarrow> l \<le> bp_buffer_size p0 | _ \<Rightarrow> True"
  shows "safe pan (pooled C p0 os0 cid) (uring_on_result C T push cid a tot wi result c w)"
proof -
  have own: "uowned c = [a]" and cok: "uconn_ok (bp_buffer_size p0) c" using ph tot by (simp_all add: uowned_def uconn_ok_def)
  have rej: "safe pan (pooled C p0 os0 cid) (reject C cid wi w)"
    by (rule reject_pooled [OF C b _ c]) (use ex own in simp)
  show ?thesis
  proof (cases result)
    case PNeedData
    then show ?thesis
      using submit_read_pooled [of p0 os0 "put_write_pool (pool_free wi (uw_write_buffers w)) w" c C cid pan T push]
        exchange_free1 [OF b ex] own c cok
      by (simp add: uring_on_result_def)
  next
    case (PResponse k l)
    obtain c' p' where s: "shift_accumulated a k tot c (uw_write_buffers w) = Returned (c', p')"
      "exchange p0 os0 p' [wi, a]" "cn_phase c' = cn_phase c" "cn_read_buf_idx c' = cn_read_buf_idx c"
      "cn_read_accumulated c' \<le> tot"
      using shift_pooled [OF b ex _ tot, of a k c] by auto
    have "safe pan (pooled C p0 os0 cid) (begin_response C T push cid wi l c' (put_write_pool p' w))"
      by (rule begin_response_pooled [OF C(1) _ b]) (use C(2) s ph c tot len PResponse in auto)
    with PResponse s(1) show ?thesis by (simp add: uring_on_result_def)
  next
    case (PLargeResponse k d)
    obtain c' p' where s: "shift_accumulated a k tot c (uw_write_buffers w) = Returned (c', p')"
      "exchange p0 os0 p' [wi, a]" "cn_phase c' = cn_phase c" "cn_read_buf_idx c' = cn_read_buf_idx c"
      "cn_read_accumulated c' \<le> tot"
      using shift_pooled [OF b ex _ tot, of a k c] by auto
    have bs: "bp_buffer_size p' = bp_buffer_size p0" by (rule exchange_facts(5) [OF b s(2)])
    have g: "pool_get p' wi = Returned (bp_buffers p' ! wi)" "length (bp_buffers p' ! wi) = bp_buffer_size p0"
      using exchange_get [OF b s(2), of wi] bs by simp_all
    show ?thesis
    proof (cases "length d \<le> bp_buffer_size p0")
      case True
      have "exchange p0 os0 (pool_set wi (blit 0 d (bp_buffers p' ! wi)) p') [wi, a]"
        by (rule exchange_fill1 [OF b s(2)]) (use g bs True in \<open>simp_all add: length_blit\<close>)
      then have "safe pan (pooled C p0 os0 cid) (begin_response C T push cid wi (length d) c'
          (put_write_pool (pool_set wi (blit 0 d (bp_buffers p' ! wi)) p') w))"
        by (intro begin_response_pooled [OF C(1) _ b]) (use C(2) s ph c tot True in auto)
      with PLargeResponse s(1) g bs True show ?thesis by (simp add: uring_on_result_def)
    next
      case False
      have c2: "conns C (put_write_pool p' w) cid = Some c" using c by simp
      have "safe pan (pooled C p0 os0 cid) (reject C cid wi (put_uconn C cid c' (put_write_pool p' w)))"
        by (rule reject_pooled [OF C(1) put_conns(2) [OF C(1) _ c2] b _ put_conns(1) [OF C(1) _ c2]])
          (use C(2) s own ph in \<open>simp_all add: uowned_def\<close>)
      with PLargeResponse s(1) bs False show ?thesis by (simp add: uring_on_result_def)
    qed
  qed (use rej in \<open>simp_all add: uring_on_result_def\<close>)
qed

text \<open>Whether the protocol handler can panic on the store as it is.\<close>

definition handler_panics :: "env \<Rightarrow> protocol \<Rightarrow> storage \<Rightarrow> bool" where
  "handler_panics E proto s = (\<exists>input out. snd (process_protocol E proto input out s) = Panicked)"

lemma serve_input_pooled:
  assumes C: "slab_laws C okc" "conns_ok okc w" and b: "base p0 os0"
    and ex: "exchange p0 os0 (uw_write_buffers w) [a]" and c: "conns C w cid = Some c"
    and ph: "cn_phase c = Established (Reading f)" "cn_read_buf_idx c = Some a" "cn_read_accumulated c = tot"
    and tot: "tot \<le> bp_buffer_size p0"
  shows "safe (handler_panics E (cn_protocol c) (uw_storage w)) (pooled C p0 os0 cid)
    (serve_input C T E push cid a tot inp c w)"
proof (cases "pool_alloc (uw_write_buffers w)")
  case (Pair p r)
  have own: "uowned c = [a]" using ph by (simp add: uowned_def)
  show ?thesis
  proof (cases r)
    case None
    with Pair close_pooled [OF C(1) C(2) [unfolded conns_ok_def] b _ c] ex own show ?thesis
      by (simp add: serve_input_def)
  next
    case (Some wi)
    note ex1 = exchange_alloc1 [OF b ex Pair [unfolded Some]]
    note g = exchange_get [OF b ex1, of wi]
    let ?out = "bp_buffers p ! wi"
    obtain s' res where pr: "process_protocol E (cn_protocol c) inp ?out (uw_storage w) = (s', res)" by fastforce
    show ?thesis
    proof (cases res)
      case Panicked
      then have "handler_panics E (cn_protocol c) (uw_storage w)" using pr by (metis handler_panics_def snd_conv)
      with Pair Some g pr Panicked show ?thesis by (simp add: serve_input_def)
    next
      case (Returned x)
      obtain result out' where x: "x = (result, out')" by fastforce
      have bs: "bp_buffer_size p = bp_buffer_size p0" by (rule exchange_facts(5) [OF b ex1])
      have fit: "length out' = bp_buffer_size p" "case result of PResponse k l \<Rightarrow> l \<le> bp_buffer_size p0 | _ \<Rightarrow> True"
        using process_protocol_fits [of ?out E "cn_protocol c" inp "uw_storage w"] pr Returned x g bs
        by (auto simp: fits_output_def split: process_result.splits)
      note ex2 = exchange_fill1 [OF b ex1 _ fit(1), of wi]
      have "safe (handler_panics E (cn_protocol c) (uw_storage w)) (pooled C p0 os0 cid)
          (uring_on_result C T push cid a tot wi result c (w\<lparr>uw_write_buffers := pool_set wi out' p, uw_storage := s'\<rparr>))"
        by (rule on_result_pooled [OF C(1) _ b _ _ ph tot]) (use C(2) ex2 c fit(2) bs in simp_all)
      with Pair Some g pr Returned x show ?thesis by (simp add: serve_input_def)
    qed
  qed
qed

lemma accumulate_pooled:
  assumes C: "slab_laws C okc" "conns_ok okc w" and b: "base p0 os0"
    and ex: "exchange p0 os0 (uw_write_buffers w) [a]" and c: "conns C w cid = Some c"
    and ph: "cn_phase c = Established (Reading f)" "cn_read_buf_idx c = Some a"
  shows "safe (handler_panics E (cn_protocol c) (uw_storage w) \<or> length (mem bid) < n) (pooled C p0 os0 cid)
    (accumulate C T E mem push cid n bid a c w)"
proof -
  let ?tot = "cn_read_accumulated c + n" and ?p = "uw_write_buffers w"
  let ?c = "c\<lparr>cn_read_accumulated := ?tot\<rparr>"
  let ?buf = "bp_buffers ?p ! a"
  let ?buf' = "blit (cn_read_accumulated c) (take n (mem bid)) ?buf"
  let ?w = "put_uconn C cid ?c (recycle bid (put_write_pool (pool_set a ?buf' ?p) w))"
  have bs: "bp_buffer_size ?p = bp_buffer_size p0" by (rule exchange_facts(5) [OF b ex])
  note g = exchange_get [OF b ex, of a]
  have own: "uowned c = [a]" using ph by (simp add: uowned_def)
  have close: "pooled C p0 os0 cid (uring_close_connection C cid (recycle bid w))"
    by (rule close_pooled [OF C(1) _ b]) (use C(2) ex own c in \<open>simp_all add: conns_ok_def recycle_def\<close>)
  show ?thesis
  proof (cases "n \<le> length (mem bid) \<and> ?tot \<le> bp_buffer_size ?p")
    case True
    have "exchange p0 os0 (pool_set a ?buf' ?p) [a]"
      by (rule exchange_fill1 [OF b ex]) (use True g in \<open>simp_all add: length_blit\<close>)
    then have "safe (handler_panics E (cn_protocol ?c) (uw_storage ?w)) (pooled C p0 os0 cid)
        (serve_input C T E push cid a ?tot (take ?tot ?buf') ?c ?w)"
      using C c ph True bs
      by (intro serve_input_pooled [OF C(1) put_conns(2) b _ put_conns(1)]) auto
    moreover have "accumulate C T E mem push cid n bid a c w =
        serve_input C T E push cid a ?tot (take ?tot ?buf') ?c ?w"
      using True g by (simp add: accumulate_def slice_def Let_def)
    moreover have "uw_storage ?w = uw_storage w" by (simp add: put_uconn_def recycle_def put_write_pool_def)
    ultimately show ?thesis by (auto simp: safe_def split: outcome.splits option.splits)
  next
    case False
    then show ?thesis
      using close by (cases "n \<le> length (mem bid)") (auto simp: accumulate_def slice_def Let_def)
  qed
qed

lemma handle_read_pooled:
  assumes C: "slab_laws C okc" "conns_ok okc w" and c: "conns C w cid = Some c"
    and b: "base (uw_write_buffers w) (uowned c)" "distinct (uowned c)"
      "set (uowned c) \<inter> set (bp_free_list (uw_write_buffers w)) = {}"
    and ok: "cn_phase c = Established (Reading f)" "uconn_ok (bp_buffer_size (uw_write_buffers w)) c"
  shows "safe (handler_panics E (cn_protocol c) (uw_storage w) \<or> (\<exists>bid. buf_id = Some bid \<and> length (mem bid) < nat result))
    (pooled C (uw_write_buffers w) (uowned c) cid) (handle_read C T E mem push result cid buf_id w)"
proof -
  let ?p = "uw_write_buffers w"
  have ex: "exchange ?p (uowned c) ?p (uowned c)" using b by (auto simp: base_def intro: exchange_refl)
  have cl: "pooled C ?p (uowned c) cid (uring_close_connection C cid w)"
    "pooled C ?p (uowned c) cid (uring_close_connection C cid (recycle bd w))" for bd
    by (rule close_pooled [OF C(1) _ b(1)]; use C(2) ex c in \<open>simp add: conns_ok_def recycle_def\<close>)+
  show ?thesis
  proof (cases "0 < result")
    case True
    show ?thesis
    proof (cases buf_id)
      case (Some bid)
      show ?thesis
      proof (cases "cn_read_buf_idx c")
        case (Some a)
        with ok(1) have "uowned c = [a]" by (simp add: uowned_def)
        with accumulate_pooled [OF C b(1) _ c ok(1) Some, of E mem bid "nat result" T push] ex True c Some \<open>buf_id = Some bid\<close>
        show ?thesis by (simp add: handle_read_def registry_get_def)
      next
        case None
        with ok(1) have own: "uowned c = []" by (simp add: uowned_def)
        show ?thesis
        proof (cases "pool_alloc ?p")
          case (Pair p r)
          show ?thesis
          proof (cases r)
            case (Some a)
            let ?c = "c\<lparr>cn_read_buf_idx := Some a\<rparr>" and ?w = "put_uconn C cid (c\<lparr>cn_read_buf_idx := Some a\<rparr>) (put_write_pool p w)"
            have "safe (handler_panics E (cn_protocol ?c) (uw_storage ?w) \<or> length (mem bid) < nat result) (pooled C ?p (uowned c) cid)
                (accumulate C T E mem push cid (nat result) bid a ?c ?w)"
              using C(2) c ok(1) exchange_alloc1 [OF b(1) ex Pair [unfolded Some]] own
              by (intro accumulate_pooled [OF C(1) put_conns(2) [OF C(1)] b(1) _ put_conns(1) [OF C(1)]]) auto
            moreover have "uw_storage ?w = uw_storage w" by (simp add: put_uconn_def put_write_pool_def)
            ultimately show ?thesis
              using True c None Pair Some \<open>buf_id = Some bid\<close>
              by (simp add: handle_read_def registry_get_def Let_def)
          qed (use True c None Pair \<open>buf_id = Some bid\<close> cl in \<open>simp add: handle_read_def registry_get_def\<close>)
        qed
      qed
    qed (use True cl in \<open>simp add: handle_read_def\<close>)
  qed (use cl in \<open>auto simp: handle_read_def split: option.split\<close>)
qed

lemma handle_write_pooled:
  assumes C: "slab_laws C okc" "conns_ok okc w" and c: "conns C w cid = Some c"
    and b: "base (uw_write_buffers w) (uowned c)" "distinct (uowned c)"
      "set (uowned c) \<inter> set (bp_free_list (uw_write_buffers w)) = {}"
    and ok: "cn_phase c = Established (Writing idx k t)" "uconn_ok (bp_buffer_size (uw_write_buffers w)) c"
    and good: "0 < result"
  shows "safe False (pooled C (uw_write_buffers w) (uowned c) cid) (handle_write C T push result cid idx w)"
proof -
  let ?p = "uw_write_buffers w"
  let ?freed = "put_write_pool (pool_free idx ?p) w"
  let ?r = "c\<lparr>cn_phase := Established (Reading 0)\<rparr>"
  let ?w = "\<lambda>k. c\<lparr>cn_phase := Established (Writing idx k t)\<rparr>"
  have ex: "exchange ?p (uowned c) ?p (uowned c)" using b by (auto simp: base_def intro: exchange_refl)
  have own: "uowned c = idx # uowned ?r" "uowned (?w j) = uowned c" for j using ok(1) by (simp_all add: uowned_def)
  have exr: "exchange ?p (uowned c) (pool_free idx ?p) (uowned ?r)"
    by (rule exchange_free1 [OF b(1)]) (use ex own(1) in metis)
  have "safe False (pooled C ?p (uowned c) cid) (Returned (submit_read C T push cid (put_uconn C cid ?r ?freed)))"
    by (rule submit_read_pooled [where c = ?r])
      (use exr ok C c put_conns(1) [OF C(1), of ?freed cid c ?r] in \<open>simp_all add: uconn_ok_def\<close>)
  moreover have "safe False (pooled C ?p (uowned c) cid) (submit_write C T push cid len (put_uconn C cid (?w j) w))"
    if "j \<le> t" for j len
    by (rule submit_write_pooled [OF b(1), where c = "?w j"])
      (use ex own(2) ok that put_conns(1) [OF C c, of "?w j"] in \<open>simp_all add: uconn_ok_def\<close>)
  ultimately show ?thesis
    using good c ok(1) by (simp add: handle_write_def registry_get_def Let_def start_reading_def ds_reading_def)
qed

section \<open>The ledger of the worker\<close>

definition uring_inv ::
  "('c, connection) slab_ops \<Rightarrow> ('t, op_type) slab_ops \<Rightarrow> ('c \<Rightarrow> bool) \<Rightarrow> ('t \<Rightarrow> bool) \<Rightarrow> nat \<Rightarrow> nat \<Rightarrow> nat \<Rightarrow>
   ('c, 't) uring_worker \<Rightarrow> bool" where
  "uring_inv C T okc okt mx n bs w =
     (flights C T okc okt mx w \<and> books uowned (conns C w) (uw_write_buffers w) \<and>
      bp_buffer_size (uw_write_buffers w) = bs \<and> length (bp_buffers (uw_write_buffers w)) = n \<and>
      (\<forall>i c. conns C w i = Some c \<longrightarrow> uconn_ok bs c))"

text \<open>
  A write completion has a positive result: the write did not fail, and it was not an empty one,
  which completes with zero.
\<close>

definition write_progresses :: "('t, op_type) slab_ops \<Rightarrow> cqe \<Rightarrow> ('c, 't) uring_worker \<Rightarrow> bool" where
  "write_progresses T e w =
     (case toks T w (unat (cq_token e)) of Some (OpWrite cid idx) \<Rightarrow> 0 < cq_result e | _ \<Rightarrow> True)"

lemma settled_books:
  assumes b: "books uowned (conns C w) (uw_write_buffers w)" and c: "conns C w cid = Some c"
    and s: "settles C T okc okt mx cid w w'" and p: "pooled C (uw_write_buffers w) (uowned c) cid w'"
    and ok: "\<forall>i c. conns C w i = Some c \<longrightarrow> uconn_ok (bp_buffer_size (uw_write_buffers w)) c"
  shows "books uowned (conns C w') (uw_write_buffers w') \<and>
    bp_buffer_size (uw_write_buffers w') = bp_buffer_size (uw_write_buffers w) \<and>
    length (bp_buffers (uw_write_buffers w')) = length (bp_buffers (uw_write_buffers w)) \<and>
    (\<forall>i c. conns C w' i = Some c \<longrightarrow> uconn_ok (bp_buffer_size (uw_write_buffers w)) c)"
proof -
  from s consider "conns C w' = (conns C w)(cid := None)" | c' where "conns C w' = (conns C w)(cid \<mapsto> c')"
    by (auto simp: settles_def)
  then have "books uowned (conns C w') (uw_write_buffers w')"
  proof cases
    case 1
    with p have "exchange (uw_write_buffers w) (uowned c) (uw_write_buffers w') []" by (simp add: pooled_def uowned_at_def)
    with books_remove [OF b c, of "uw_write_buffers w'"] 1 show ?thesis by (simp add: exchange_def)
  next
    case 2
    with p have "exchange (uw_write_buffers w) (uowned c) (uw_write_buffers w') (uowned c')"
      by (simp add: pooled_def uowned_at_def)
    with exchange_books [OF b c] 2 show ?thesis by simp
  qed
  moreover have "uconn_ok (bp_buffer_size (uw_write_buffers w)) d" if "conns C w' i = Some d" for i d
    using that p s ok by (cases "i = cid") (auto simp: pooled_def settles_def split: if_splits)
  ultimately show ?thesis using p by (auto simp: pooled_def exchange_def)
qed

lemma handle_accept_conns:
  assumes C: "slab_laws C okc" "okc (rg_connections (uw_connections w))"
  shows "handled_ok (\<lambda>w' _. uw_write_buffers w' = uw_write_buffers w \<and>
      (conns C w' = conns C w \<or> (\<exists>cid c. conns C w cid = None \<and> conns C w' = (conns C w)(cid \<mapsto> c) \<and>
         uowned c = [] \<and> uconn_ok bs c))) (handle_accept C T result push1 push2 proto w)"
proof -
  obtain w1 e sq where acc: "submit_accept T push1 w = (w1, e, sq)" by (cases "submit_accept T push1 w")
  then have w1: "uw_connections w1 = uw_connections w" "uw_write_buffers w1 = uw_write_buffers w"
    by (auto simp: submit_accept_def dest: submit_fields)
  let ?c = "connection_new result proto"
  obtain cs cid where ins: "sl_insert C (rg_connections (uw_connections w)) ?c = (cs, cid)" by fastforce
  note law = slab_insert [OF C ins]
  have new: "uowned ?c = []" "uconn_ok bs ?c"
    by (simp_all add: connection_new_def phase_established_def uowned_def uconn_ok_def ds_reading_def)
  have rd: "uw_write_buffers w3 = uw_write_buffers w2 \<and> uw_connections w3 = uw_connections w2"
    if "submit_read C T push2 cid w2 = (w3, r, sq')" for w2 w3 r sq'
    using that by (auto simp: submit_read_def split: option.splits dest: submit_fields)
  define fresh where "fresh m = (m = conns C w \<or>
    (\<exists>cid c. conns C w cid = None \<and> m = (conns C w)(cid \<mapsto> c) \<and> uowned c = [] \<and> uconn_ok bs c))" for m
  have "fresh (sl_get C cs)" "fresh (conns C w)" unfolding fresh_def using law new by blast+
  then have "handled_ok (\<lambda>w' _. uw_write_buffers w' = uw_write_buffers w \<and> fresh (conns C w'))
      (handle_accept C T result push1 push2 proto w)"
    using acc w1 ins
    by (auto simp: handle_accept_def registry_insert_def handled_ok_def Let_def dest!: rd
        split: option.splits prod.splits if_splits)
  then show ?thesis unfolding fresh_def .
qed

lemma handle_event_pooled:
  assumes C: "slab_laws C okc" and T: "slab_laws T okt" and inv: "uring_inv C T okc okt mx n bs w"
    and ws: "write_progresses T e w" and ev: "uring_event C T proto e w = Some (w', sq)"
    and k: "toks T w (unat (cq_token e)) = Some (pending_op cid c)" and c: "conns C w cid = Some c"
  shows "pooled C (uw_write_buffers w) (uowned c) cid w'"
proof -
  let ?w = "w\<lparr>uw_tokens := sl_remove T (uw_tokens w) (unat (cq_token e))\<rparr>"
  have fl: "flights C T okc okt mx w" and b: "books uowned (conns C w) (uw_write_buffers w)"
    and cok: "uconn_ok (bp_buffer_size (uw_write_buffers w)) c" using inv c by (auto simp: uring_inv_def)
  have okc: "conns_ok okc ?w" using completion_state(1) [OF T fl k] by (simp add: holds_def conns_ok_def)
  obtain st where st: "cn_phase c = Established st" using fl c by (auto simp: flights_def holds_def)
  have start: "base (uw_write_buffers ?w) (uowned c)" "distinct (uowned c)"
      "set (uowned c) \<inter> set (bp_free_list (uw_write_buffers ?w)) = {}" "conns C ?w cid = Some c"
    using books_conn [OF b c] books_pool [OF b] c by (simp_all add: base_def)
  have goes: "P w'" if "safe pan P h" "uring_event C T proto e w =
      (case h of Returned (w', None, sq) \<Rightarrow> Some (w', sq) | _ \<Rightarrow> None)" for pan P h
    using that ev by (auto simp: safe_def split: outcome.splits option.splits)
  show ?thesis
  proof (cases st)
    case (Reading f)
    have "pooled C (uw_write_buffers ?w) (uowned c) cid w'"
      by (rule goes [OF handle_read_pooled [OF C okc start(4,1-3), of f]])
        (use cok st Reading uring_event_op [where C = C and proto = proto, OF k] in \<open>simp_all add: pending_op_def\<close>)
    then show ?thesis by simp
  next
    case (Writing i j t)
    have "0 < cq_result e" using ws k st Writing by (simp add: write_progresses_def pending_op_def)
    then have "pooled C (uw_write_buffers ?w) (uowned c) cid w'"
      by (intro goes [OF handle_write_pooled [OF C okc start(4,1-3), of i j t]])
        (use cok st Writing uring_event_op [where C = C and proto = proto, OF k] in \<open>simp_all add: pending_op_def\<close>)
    then show ?thesis by simp
  qed
qed

lemma uring_event_inv:
  assumes C: "slab_laws C okc" and T: "slab_laws T okt" and inv: "uring_inv C T okc okt mx n bs w"
    and ws: "write_progresses T e w" and ev: "uring_event C T proto e w = Some (w', sq)"
  shows "uring_inv C T okc okt mx n bs w'"
proof (cases "toks T w (unat (cq_token e))")
  case None
  with inv ev show ?thesis by (simp add: uring_event_def token_free_def)
next
  case (Some op)
  let ?w = "w\<lparr>uw_tokens := sl_remove T (uw_tokens w) (unat (cq_token e))\<rparr>"
  have fl: "flights C T okc okt mx w" and b: "books uowned (conns C w) (uw_write_buffers w)"
    and cok: "\<forall>i c. conns C w i = Some c \<longrightarrow> uconn_ok bs c" and bs: "bp_buffer_size (uw_write_buffers w) = bs"
    using inv by (simp_all add: uring_inv_def)
  have conn: ?thesis if c: "conns C w cid = Some c" "op = pending_op cid c" for cid c
    using settled_books [of C ?w cid c T okc okt mx w'] uring_event_settles [OF C T fl Some ev c]
      handle_event_pooled [OF C T inv ws ev _ c(1)] Some b c cok bs uring_event_flights [OF C T fl ev] inv
    by (simp add: uring_inv_def)
  from fl Some show ?thesis
  proof (cases rule: flight_cases)
    case accept
    have okc: "okc (rg_connections (uw_connections ?w))"
      using completion_state(1) [OF T fl Some] by (simp add: holds_def)
    have "(case handle_accept C T (cq_result e) (cq_push1 e) (cq_push2 e) proto ?w of
        Returned (w', None, sq) \<Rightarrow> Some (w', sq) | _ \<Rightarrow> None) = Some (w', sq)"
      using ev uring_event_op [where C = C and proto = proto, OF Some] accept by simp
    from handled_okD [OF handle_accept_conns [OF C okc, of bs] this]
    consider "uw_write_buffers w' = uw_write_buffers w" "conns C w' = conns C w"
      | cid c where "uw_write_buffers w' = uw_write_buffers w" "conns C w cid = None" "conns C w' = (conns C w)(cid \<mapsto> c)"
        "uowned c = []" "uconn_ok bs c"
      by auto
    then show ?thesis
    proof cases
      case 2
      have "books uowned ((conns C w)(cid \<mapsto> c)) (uw_write_buffers w)"
        by (rule books_insert [OF b 2(2) books_pool [OF b]]) (simp_all add: 2(4))
      with 2 cok inv uring_event_flights [OF C T fl ev] show ?thesis by (simp add: uring_inv_def)
    qed (use inv uring_event_flights [OF C T fl ev] in \<open>simp add: uring_inv_def\<close>)
  qed (use conn in \<open>simp_all add: pending_op_def\<close>)
qed

end
