(* ===== verification/Uring_Runs.thy ===== *)
theory Uring_Runs
  imports Uring_Buffers
begin

text \<open>
  Runs of the io_uring worker from its set-up through any sequence of completions: one operation
  in flight per connection, buffers accounted for as long as every write makes progress, and completions of
  one connection leave the others alone.
\<close>

section \<open>Runs\<close>

lemma uring_new_inv:
  assumes C: "slab_laws C okc" and T: "slab_laws T okt"
    and new: "uring_worker_new C T mx bs s ring_mem buf_mem registered push = Some w"
  shows "uring_inv C T okc okt mx (min (mx * 2 mod 2 ^ 64) 8192) bs w"
proof -
  obtain ring where ring: "buf_ring_new (ring_entries_for mx) bs ring_mem buf_mem registered = Inr ring"
    using new by (auto simp: uring_worker_new_def split: sum.splits)
  let ?w = "\<lparr>uw_connections = registry_new C mx, uw_tokens = sl_new T,
    uw_write_buffers = pool_new (min (mx * 2 mod 2 ^ 64) 8192) bs, uw_read_ring = ring, uw_storage = s\<rparr>"
  obtain ts k where ins: "sl_insert T (sl_new T) OpAccept = (ts, k)" by fastforce
  have w: "w = ?w\<lparr>uw_tokens := ts\<rparr>"
    using new ring ins
    by (auto simp: uring_worker_new_def submit_accept_def submit_def token_alloc_def split: if_splits)
  note t = slab_new [OF T] and c = slab_new [OF C]
  from t have "okt (sl_new T)" by simp
  note law = slab_insert [OF T this ins]
  have len: "sl_len C (sl_new C) = 0" using slab_len [OF C, of "sl_new C"] c by simp
  have toks: "sl_get T ts = Map.empty(k \<mapsto> OpAccept)" using law t by simp
  have "holds C T okc okt mx w" using law c len by (simp add: w holds_def registry_new_def)
  moreover have "in_flight (toks T w) (insert OpAccept (ops_of (conns C w)))"
    using toks c by (simp add: w in_flight_def registry_new_def ops_of_def)
  moreover have "books uowned (conns C w) (uw_write_buffers w)"
    using pool_new_ok [of "min (mx * 2 mod 2 ^ 64) 8192" bs] c by (auto simp: w books_def registry_new_def pool_new_def)
  ultimately show ?thesis using c by (simp add: w uring_inv_def flights_def pool_new_def registry_new_def)
qed

lemma uring_step_alive:
  assumes "alive P st" "\<And>w w' sq. st = Some w \<Longrightarrow> P w \<Longrightarrow> uring_event C T proto e w = Some (w', sq) \<Longrightarrow> P w'"
  shows "alive P (fst (uring_step C T proto e st))"
  using assms by (cases st; cases "uring_event C T proto e (the st)") auto

lemma flights_stepwise:
  "slab_laws C okc \<Longrightarrow> slab_laws T okt \<Longrightarrow>
    stepwise_invariant (uring_step C T proto) (\<lambda>_ _. True) (alive (flights C T okc okt mx))"
  by unfold_locales (auto intro: uring_step_alive uring_event_flights)

lemma uring_inv_stepwise:
  "slab_laws C okc \<Longrightarrow> slab_laws T okt \<Longrightarrow>
    stepwise_invariant (uring_step C T proto) (\<lambda>e. alive (write_progresses T e)) (alive (uring_inv C T okc okt mx n bs))"
  by unfold_locales (auto intro!: uring_step_alive elim: uring_event_inv)

lemma reachable_uring_inv:
  assumes C: "slab_laws C okc" and T: "slab_laws T okt"
    and new: "uring_worker_new C T mx bs s ring_mem buf_mem registered push = Some w0"
    and good: "admissible (uring_step C T proto) (\<lambda>e. alive (write_progresses T e)) evs (Some w0)"
    and w: "fst (run (uring_step C T proto) evs (Some w0)) = Some w"
  shows "uring_inv C T okc okt mx (min (mx * 2 mod 2 ^ 64) 8192) bs w"
  using stepwise_invariant.inv_run [OF uring_inv_stepwise [OF C T] _ good, of mx "min (mx * 2 mod 2 ^ 64) 8192" bs] w
    uring_new_inv [OF C T new] by simp

section \<open>An example run\<close>

text \<open>
  A worker for two ping connections with buffers of 16 bytes, on the concrete slab, evaluated by
  rewriting with the definitions of the loop.
\<close>

lemmas uring_eval = uring_worker_new_def ring_entries_for_def next_power_of_two_def buf_ring_new_def
  is_power_of_two_def layout_ok_def add_buffer_def entry_for_def recycle_buffer_def submit_accept_def submit_read_def submit_write_def submit_def
  token_alloc_def token_free_def registry_new_def registry_insert_def registry_get_def registry_set_def
  registry_remove_def vec_slab_def vec_get_def pool_new_def pool_alloc_def pool_free_def pool_get_def pool_set_def
  uring_event_def handle_accept_def handle_read_def handle_write_def accumulate_def serve_input_def
  uring_on_result_def begin_response_def shift_accumulated_def uring_close_connection_def put_uconn_def
  put_write_pool_def recycle_def connection_new_def phase_established_def ds_reading_def ds_writing_def
  start_writing_def start_reading_def process_protocol_def slice_def blit_def Let_def upt_rec

definition completion :: "u64 \<Rightarrow> int \<Rightarrow> u16 option \<Rightarrow> bytes \<Rightarrow> cqe" where
  "completion tok r buf data =
     \<lparr>cq_token = tok, cq_result = r, cq_buffer = buf, cq_memory = (\<lambda>_. data), cq_push1 = True, cq_push2 = True,
      cq_env = example_env\<rparr>"

definition example_start :: "(connection option list, op_type option list) uring_worker" where
  "example_start =
     \<lparr>uw_connections = \<lparr>rg_connections = [], rg_max_connections = 2\<rparr>, uw_tokens = [Some OpAccept],
      uw_write_buffers = pool_new 4 16,
      uw_read_ring = \<lparr>br_slots = map (entry_for 16) [0, 1], br_ring_entries = 2, br_buffer_size = 16, br_tail = 2\<rparr>,
      uw_storage = storage_new length 100 0\<rparr>"

lemma example_new:
  "uring_worker_new vec_slab vec_slab 2 16 (storage_new length 100 0) True True True True = Some example_start"
  by (simp add: uring_eval example_start_def) (simp add: numeral_2_eq_2)

definition example_uring :: "(connection option list, op_type option list) uring_worker" where
  "example_uring =
     example_start\<lparr>uw_connections := \<lparr>rg_connections = [Some (connection_new 7 ProtoPing)], rg_max_connections = 2\<rparr>,
       uw_tokens := [Some OpAccept, Some (OpRead 0)]\<rparr>"

lemma example_accepted:
  "fst (run (uring_step vec_slab vec_slab ProtoPing) [completion 0 7 None []] (Some example_start)) = Some example_uring"
  by (simp add: uring_eval example_start_def example_uring_def completion_def)

text \<open>
  C14. One operation in flight: after any sequence of completions, with any results and whether
  writes fail or not, exactly one accept is in flight, every connection has exactly one operation
  in flight and it is the one its state calls for (a read while it reads, the write of its own
  response buffer while it writes), and no operation in flight refers to a connection that is
  gone. The number of connections stays within the limit.
\<close>

theorem uring_one_operation:
  assumes "slab_laws C okc" "slab_laws T okt"
    and "uring_worker_new C T mx bs s ring_mem buf_mem registered push = Some w0"
    and "fst (run (uring_step C T proto) evs (Some w0)) = Some w"
  shows "(\<exists>!k. toks T w k = Some OpAccept)
    \<and> (\<forall>cid c. conns C w cid = Some c \<longrightarrow> (\<exists>!k. toks T w k = Some (pending_op cid c)))
    \<and> (\<forall>k op. toks T w k = Some op \<longrightarrow> op = OpAccept \<or> (\<exists>cid c. conns C w cid = Some c \<and> op = pending_op cid c))
    \<and> card (dom (conns C w)) \<le> mx"
proof -
  have "flights C T okc okt mx w0" using uring_new_inv [OF assms(1-3)] by (simp add: uring_inv_def)
  then have fl: "flights C T okc okt mx w"
    using stepwise_invariant.inv_run [OF flights_stepwise [OF assms(1,2)] _ admissible_always, of mx "Some w0" proto evs]
      assms(4) by simp
  then have tm: "inj_on (toks T w) (dom (toks T w))" "ran (toks T w) = insert OpAccept (ops_of (conns C w))"
    and h: "holds C T okc okt mx w" by (simp_all add: flights_def in_flight_def)
  have once: "\<exists>!k. toks T w k = Some op" if "op \<in> ran (toks T w)" for op
    using that inj_onD [OF tm(1)] by (auto simp: ran_def dom_def)
  have known: "op = OpAccept \<or> (\<exists>cid c. conns C w cid = Some c \<and> op = pending_op cid c)" if "toks T w k = Some op" for k op
    using ranI [of "toks T w", OF that] tm(2) by (auto simp: ops_of_def)
  have "card (dom (conns C w)) \<le> mx"
    using h slab_len [OF assms(1), of "rg_connections (uw_connections w)"] by (simp add: holds_def)
  moreover have "\<exists>!k. toks T w k = Some (pending_op cid c)" if "conns C w cid = Some c" for cid c
    using that tm(2) by (intro once) (auto simp: ops_of_def)
  ultimately show ?thesis using once [of OpAccept] tm(2) known by blast
qed

theorem uring_one_operation_witness:
  "(\<exists>!k. toks vec_slab example_uring k = Some OpAccept) \<and> (\<exists>!k. toks vec_slab example_uring k = Some (OpRead 0))
    \<and> card (dom (conns vec_slab example_uring)) \<le> 2"
proof -
  have "conns vec_slab example_uring 0 = Some (connection_new 7 ProtoPing)"
    "pending_op 0 (connection_new 7 ProtoPing) = OpRead 0"
    by (simp_all add: uring_eval example_uring_def pending_op_def)
  with uring_one_operation [OF vec_slab_laws vec_slab_laws example_new example_accepted] show ?thesis by metis
qed

text \<open>
  C15. As long as every write completion has a positive result, no buffer leaks and none is shared:
  every buffer of the write pool is free or belongs to exactly one connection, once, and what a
  connection has accumulated or is writing fits its buffers. The condition excludes writes that fail
  and also the empty writes of \<^verbatim>\<open>noreply\<close> answers, whose result is zero: after either the buffer is
  returned twice.
\<close>

theorem uring_ownership:
  assumes "slab_laws C okc" "slab_laws T okt"
    and "uring_worker_new C T mx bs s ring_mem buf_mem registered push = Some w0"
    and "admissible (uring_step C T proto) (\<lambda>e. alive (write_progresses T e)) evs (Some w0)"
    and "fst (run (uring_step C T proto) evs (Some w0)) = Some w"
  shows "books uowned (conns C w) (uw_write_buffers w)
    \<and> length (bp_buffers (uw_write_buffers w)) = min (mx * 2 mod 2 ^ 64) 8192
    \<and> (\<forall>i c. conns C w i = Some c \<longrightarrow> uconn_ok bs c)"
  using reachable_uring_inv [OF assms] by (simp add: uring_inv_def)

theorem uring_ownership_witness:
  "books uowned (conns vec_slab example_uring) (uw_write_buffers example_uring)
    \<and> length (bp_buffers (uw_write_buffers example_uring)) = 4 \<and> uconn_ok 16 (connection_new 7 ProtoPing)"
proof -
  have "conns vec_slab example_uring 0 = Some (connection_new 7 ProtoPing)" by (simp add: uring_eval example_uring_def)
  moreover have "admissible (uring_step vec_slab vec_slab ProtoPing) (\<lambda>e. alive (write_progresses vec_slab e))
      [completion 0 7 None []] (Some example_start)"
    by (simp add: write_progresses_def completion_def example_start_def vec_slab_def vec_get_def)
  ultimately show ?thesis
    using uring_ownership [OF vec_slab_laws vec_slab_laws example_new _ example_accepted] by simp
qed

section \<open>Isolation\<close>

text \<open>Whether a completion is about a connection.\<close>

definition about :: "('t, op_type) slab_ops \<Rightarrow> nat \<Rightarrow> cqe \<Rightarrow> ('c, 't) uring_worker \<Rightarrow> bool" where
  "about T cid e w =
     (case toks T w (unat (cq_token e)) of
        Some (OpRead i) \<Rightarrow> i = cid | Some (OpWrite i idx) \<Rightarrow> i = cid | _ \<Rightarrow> False)"

lemma uring_isolates:
  assumes C: "slab_laws C okc" and T: "slab_laws T okt" and inv: "uring_inv C T okc okt mx n bs w"
    and ws: "write_progresses T e w" and ev: "uring_event C T proto e w = Some (w', sq)"
    and c: "conns C w i = Some c" and e: "\<not> about T i e w"
  shows "conns C w' i = Some c \<and> (\<forall>k\<in>set (uowned c). bp_buffers (uw_write_buffers w') ! k = bp_buffers (uw_write_buffers w) ! k)"
proof (cases "toks T w (unat (cq_token e))")
  case None
  with c ev show ?thesis by (simp add: uring_event_def token_free_def)
next
  case (Some op)
  let ?w = "w\<lparr>uw_tokens := sl_remove T (uw_tokens w) (unat (cq_token e))\<rparr>"
  have fl: "flights C T okc okt mx w" and b: "books uowned (conns C w) (uw_write_buffers w)"
    using inv by (simp_all add: uring_inv_def)
  have conn: ?thesis if d: "conns C w cid = Some d" "op = pending_op cid d" and ne: "cid \<noteq> i" for cid d
  proof -
    have "pooled C (uw_write_buffers w) (uowned d) cid w'"
      using handle_event_pooled [OF C T inv ws ev _ d(1)] Some d(2) by simp
    then have "exchange (uw_write_buffers w) (uowned d) (uw_write_buffers w') (uowned_at C cid w')" by (simp add: pooled_def)
    from exchange_frame [OF b d(1) this c] ne uring_event_settles [OF C T fl Some ev d] c show ?thesis
      by (auto simp: settles_def)
  qed
  from fl Some show ?thesis
  proof (cases rule: flight_cases)
    case accept
    have okc: "okc (rg_connections (uw_connections ?w))"
      using completion_state(1) [OF T fl Some] by (simp add: holds_def)
    have "(case handle_accept C T (cq_result e) (cq_push1 e) (cq_push2 e) proto ?w of
        Returned (w', None, sq) \<Rightarrow> Some (w', sq) | _ \<Rightarrow> None) = Some (w', sq)"
      using ev uring_event_op [where C = C and proto = proto, OF Some] accept by simp
    from handled_okD [OF handle_accept_conns [OF C okc, of bs] this] c show ?thesis by (auto split: if_splits)
  qed (use conn e Some in \<open>auto simp: about_def pending_op_def\<close>)
qed

end
