(* ===== verification/Uring_Delivery.thy ===== *)
theory Uring_Delivery
  imports Uring_Runs
begin

text \<open>
  Delivery by the io_uring worker: a read completion that completes a request submits the
  handler's answer, and the write completions that follow send it whole, however the kernel cuts
  it. The last section shows the double return of a buffer when a write fails or has nothing to
  send.
\<close>

section \<open>Writing a response\<close>

text \<open>What is left of the response a connection is writing.\<close>

definition pending_write :: "connection \<Rightarrow> buffer_pool \<Rightarrow> bytes" where
  "pending_write c p =
     (case cn_phase c of
        Established (Writing idx written t) \<Rightarrow> drop written (take t (bp_buffers p ! idx))
      | _ \<Rightarrow> [])"

lemma pending_write_length:
  assumes inv: "uring_inv C T okc okt mx n bs w" and c: "conns C w cid = Some c"
    and ph: "cn_phase c = Established (Writing idx k t)"
  shows "length (pending_write c (uw_write_buffers w)) = t - k" "k \<le> t" "t \<le> bs"
    "pool_get (uw_write_buffers w) idx = Returned (bp_buffers (uw_write_buffers w) ! idx)"
    "length (bp_buffers (uw_write_buffers w) ! idx) = bs"
proof -
  have b: "books uowned (conns C w) (uw_write_buffers w)" and bs: "bp_buffer_size (uw_write_buffers w) = bs"
    and ok: "uconn_ok bs c" using inv c by (auto simp: uring_inv_def)
  have "idx < length (bp_buffers (uw_write_buffers w))" using books_conn [OF b c] ph by (simp add: uowned_def)
  then show g: "pool_get (uw_write_buffers w) idx = Returned (bp_buffers (uw_write_buffers w) ! idx)"
    "length (bp_buffers (uw_write_buffers w) ! idx) = bs"
    using books_pool [OF b] bs by (auto simp: pool_get_def pool_ok_def list_all_length)
  show t: "k \<le> t" "t \<le> bs" using ok ph by (simp_all add: uconn_ok_def)
  show "length (pending_write c (uw_write_buffers w)) = t - k" using g t ph by (simp add: pending_write_def)
qed

text \<open>
  The completion of a write, when the submission queue has room: what is left is submitted again,
  starting behind the bytes the kernel took; after the last byte the connection reads again.
\<close>

lemma write_completion:
  assumes C: "slab_laws C okc" and inv: "uring_inv C T okc okt mx n bs w"
    and bs: "bs < 2 ^ 32" and c: "conns C w cid = Some c" and ph: "cn_phase c = Established (Writing idx k t)"
    and tok: "toks T w (unat (cq_token e)) = Some (OpWrite cid idx)"
    and r: "0 < cq_result e" "cq_result e < 2 ^ 31" and push: "cq_push1 e"
  shows "\<exists>w' sq c' tok. uring_event C T proto e w = Some (w', sq) \<and> conns C w' cid = Some c' \<and> cn_fd c' = cn_fd c \<and>
    pending_write c' (uw_write_buffers w') = drop (nat (cq_result e)) (pending_write c (uw_write_buffers w)) \<and>
    (if nat (cq_result e) < t - k
     then cn_phase c' = Established (Writing idx (k + nat (cq_result e)) t) \<and>
       sq = [SqeWrite (cn_fd c) (pending_write c' (uw_write_buffers w')) tok]
     else cn_phase c' = Established (Reading 0) \<and> sq = [SqeRecv (cn_fd c) tok])"
proof -
  let ?w = "w\<lparr>uw_tokens := sl_remove T (uw_tokens w) (unat (cq_token e))\<rparr>" and ?n = "nat (cq_result e)"
  note len = pending_write_length [OF inv c ph]
  have ok: "conns_ok okc ?w" using inv by (simp add: uring_inv_def flights_def holds_def conns_ok_def)
  have c1: "conns C ?w cid = Some c" using c by simp
  have "?n < 2147483648" "k < 4294967296" using r(2) len(2,3) bs by simp_all
  then have n: "uadd k ?n = k + ?n" by (intro uadd_no_wrap) simp
  have ev: "uring_event C T proto e w = (case handle_write C T True (cq_result e) cid idx ?w of
      Returned (w', None, sq) \<Rightarrow> Some (w', sq) | _ \<Rightarrow> None)"
    using uring_event_op [where C = C and proto = proto, OF tok] push by simp
  show ?thesis
  proof (cases "?n < t - k")
    case True
    let ?c = "c\<lparr>cn_phase := Established (Writing idx (k + ?n) t)\<rparr>"
    let ?w1 = "put_uconn C cid ?c ?w"
    have get: "conns C ?w1 cid = Some ?c" by (rule put_conns(1) [OF C ok c1])
    have "handle_write C T True (cq_result e) cid idx ?w = submit_write C T True cid (t - (k + ?n)) ?w1"
      using less_diff_conv [of ?n t k] True r(1) c ph n
      by (simp add: handle_write_def registry_get_def Let_def add.commute)
    moreover have "(t - (k + ?n)) mod 2 ^ 32 = t - (k + ?n)" using len(3) bs by simp
    ultimately obtain w' tk where "uring_event C T proto e w = Some (w',
          [SqeWrite (cn_fd c) (take (t - (k + ?n)) (drop (k + ?n) (bp_buffers (uw_write_buffers w) ! idx))) tk])"
        "uw_connections w' = uw_connections ?w1" "uw_write_buffers w' = uw_write_buffers w"
      using ev get len(4) by (simp add: submit_write_def registry_get_def submit_def Let_def split: prod.splits)
    with True get ph show ?thesis
      by (intro exI [of _ w'] exI [of _ "[_]"] exI [of _ ?c] exI [of _ tk]) (simp add: pending_write_def drop_take add.commute)
  next
    case False
    let ?c = "c\<lparr>cn_phase := Established (Reading 0)\<rparr>"
    let ?w1 = "put_uconn C cid ?c (put_write_pool (pool_free idx (uw_write_buffers ?w)) ?w)"
    have get: "conns C ?w1 cid = Some ?c" by (rule put_conns(1) [OF C]) (use ok c1 in simp_all)
    have "handle_write C T True (cq_result e) cid idx ?w = Returned (submit_read C T True cid ?w1)"
      using less_diff_conv [of ?n t k] False r(1) c ph n
      by (simp add: handle_write_def registry_get_def Let_def start_reading_def ds_reading_def add.commute)
    then obtain w' tk where "uring_event C T proto e w = Some (w', [SqeRecv (cn_fd c) tk])"
        "uw_connections w' = uw_connections ?w1"
      using ev get by (simp add: submit_read_def registry_get_def submit_def Let_def split: prod.splits)
    with False get ph len(1) show ?thesis
      by (intro exI [of _ w'] exI [of _ "[_]"] exI [of _ ?c] exI [of _ tk]) (auto simp: pending_write_def)
  qed
qed

text \<open>
  What the client gets is read off the submissions: a write entry carries the bytes its pointer
  and length cover, and a completion of it with result \<open>r\<close> means that the first \<open>r\<close> of them have
  gone out on the descriptor \<open>fd\<close>. \<open>data\<close> are the bytes of the entry in flight for the connection; the
  next entry is the one the handler of the completion submits, on the same descriptor and as its
  only submission.
\<close>

definition completes_write :: "('t, op_type) slab_ops \<Rightarrow> nat \<Rightarrow> cqe \<Rightarrow> ('c, 't) uring_worker \<Rightarrow> bool" where
  "completes_write T cid e w =
     (case toks T w (unat (cq_token e)) of Some (OpWrite i idx) \<Rightarrow> i = cid | _ \<Rightarrow> False)"

definition submitted :: "int \<Rightarrow> sqe list \<Rightarrow> bytes" where
  "submitted fd sq = (case sq of [SqeWrite fd' d tok] \<Rightarrow> if fd' = fd then d else [] | _ \<Rightarrow> [])"

fun received ::
  "('c, connection) slab_ops \<Rightarrow> ('t, op_type) slab_ops \<Rightarrow> protocol \<Rightarrow> nat \<Rightarrow> int \<Rightarrow> bytes \<Rightarrow> cqe list \<Rightarrow>
   ('c, 't) uring_worker option \<Rightarrow> bytes" where
  "received C T proto cid fd data (e # es) (Some w) =
     (let (st, sq) = uring_step C T proto e (Some w) in
      if completes_write T cid e w
      then take (nat (cq_result e)) data @ received C T proto cid fd (submitted fd sq) es st
      else received C T proto cid fd data es st)"
| "received C T proto cid fd data _ _ = []"

text \<open>How many bytes the kernel took for the connection.\<close>

definition acked :: "('t, op_type) slab_ops \<Rightarrow> nat \<Rightarrow> cqe \<Rightarrow> ('c, 't) uring_worker \<Rightarrow> nat" where
  "acked T cid e w = (if completes_write T cid e w then nat (cq_result e) else 0)"

fun acks ::
  "('c, connection) slab_ops \<Rightarrow> ('t, op_type) slab_ops \<Rightarrow> protocol \<Rightarrow> nat \<Rightarrow> cqe list \<Rightarrow> ('c, 't) uring_worker option \<Rightarrow> nat" where
  "acks C T proto cid (e # es) (Some w) = acked T cid e w + acks C T proto cid es (fst (uring_step C T proto e (Some w)))"
| "acks C T proto cid _ _ = 0"

text \<open>
  Completions while a response is on its way: every write completion has a positive, 32-bit result,
  the submission queue has room when the connection's own write completes, its next read has not
  completed yet, and no completion of another connection or of the accept ends the worker.
\<close>

definition under_way ::
  "('c, connection) slab_ops \<Rightarrow> ('t, op_type) slab_ops \<Rightarrow> protocol \<Rightarrow> nat \<Rightarrow> cqe \<Rightarrow> ('c, 't) uring_worker \<Rightarrow> bool" where
  "under_way C T proto cid e w =
     ((case toks T w (unat (cq_token e)) of
         Some (OpWrite i idx) \<Rightarrow> 0 < cq_result e \<and> cq_result e < 2 ^ 31 \<and> (i = cid \<longrightarrow> cq_push1 e)
       | Some (OpRead i) \<Rightarrow> i \<noteq> cid
       | _ \<Rightarrow> True) \<and>
      (about T cid e w \<or> uring_event C T proto e w \<noteq> None))"

lemma under_way_progresses: "under_way C T proto cid e w \<Longrightarrow> write_progresses T e w"
  by (auto simp: under_way_def write_progresses_def split: option.splits op_type.splits)

lemma completes_about: "completes_write T cid e w \<Longrightarrow> about T cid e w"
  by (auto simp: completes_write_def about_def split: option.splits op_type.splits)

lemma under_way_step:
  assumes C: "slab_laws C okc" and T: "slab_laws T okt" and inv: "uring_inv C T okc okt mx n bs w"
    and bs: "bs < 2 ^ 32" and c: "conns C w cid = Some c" and uw: "under_way C T proto cid e w"
  shows "\<exists>w' sq c'. uring_event C T proto e w = Some (w', sq) \<and> conns C w' cid = Some c' \<and> cn_fd c' = cn_fd c \<and>
    pending_write c' (uw_write_buffers w') = drop (acked T cid e w) (pending_write c (uw_write_buffers w)) \<and>
    (completes_write T cid e w \<longrightarrow> submitted (cn_fd c) sq = pending_write c' (uw_write_buffers w')) \<and>
    (pending_write c' (uw_write_buffers w') = [] \<longrightarrow>
       cn_phase c' = Established (Reading 0) \<or> pending_write c (uw_write_buffers w) = [] \<and> c' = c)"
proof (cases "about T cid e w")
  case False
  then obtain w' sq where ev: "uring_event C T proto e w = Some (w', sq)" using uw by (auto simp: under_way_def)
  note iso = uring_isolates [OF C T inv under_way_progresses [OF uw] ev c False]
  have "\<not> completes_write T cid e w" using False completes_about by blast
  moreover have "pending_write c (uw_write_buffers w') = pending_write c (uw_write_buffers w)"
    using iso by (auto simp: pending_write_def uowned_def split: conn_phase.split data_state.split)
  ultimately show ?thesis using iso ev by (simp add: acked_def)
next
  case True
  with uw obtain idx where tok: "toks T w (unat (cq_token e)) = Some (OpWrite cid idx)"
    and r: "0 < cq_result e" "cq_result e < 2 ^ 31" "cq_push1 e"
    by (auto simp: about_def under_way_def split: option.splits op_type.splits)
  have fl: "flights C T okc okt mx w" using inv by (simp add: uring_inv_def)
  from fl tok obtain k t where "cn_phase c = Established (Writing idx k t)"
    by (cases rule: flight_cases) (use c in auto)
  note ph = this
  have cw: "completes_write T cid e w" using tok by (simp add: completes_write_def)
  obtain w' sq c' tk where ev: "uring_event C T proto e w = Some (w', sq)" "conns C w' cid = Some c'" "cn_fd c' = cn_fd c"
      "pending_write c' (uw_write_buffers w') = drop (nat (cq_result e)) (pending_write c (uw_write_buffers w))"
    and sq: "if nat (cq_result e) < t - k
     then cn_phase c' = Established (Writing idx (k + nat (cq_result e)) t) \<and>
       sq = [SqeWrite (cn_fd c) (pending_write c' (uw_write_buffers w')) tk]
     else cn_phase c' = Established (Reading 0) \<and> sq = [SqeRecv (cn_fd c) tk]"
    using write_completion [OF C inv bs c ph tok r, of proto] by blast
  have "submitted (cn_fd c) sq = pending_write c' (uw_write_buffers w') \<and>
      (pending_write c' (uw_write_buffers w') = [] \<longrightarrow> cn_phase c' = Established (Reading 0))"
  proof (cases "nat (cq_result e) < t - k")
    case True
    then have "pending_write c' (uw_write_buffers w') \<noteq> []"
      using ev(4) pending_write_length(1) [OF inv c ph] by (simp flip: length_greater_0_conv)
    with True sq show ?thesis by (simp add: submitted_def)
  next
    case False
    with sq show ?thesis by (simp add: submitted_def pending_write_def)
  qed
  with ev cw show ?thesis by (intro exI [of _ w'] exI [of _ sq] exI [of _ c']) (simp add: acked_def)
qed

text \<open>Through a whole run.\<close>

lemma under_way_run:
  assumes C: "slab_laws C okc" and T: "slab_laws T okt" and bs: "bs < 2 ^ 32"
  shows "uring_inv C T okc okt mx n bs w \<Longrightarrow> conns C w cid = Some c \<Longrightarrow>
    (pending_write c (uw_write_buffers w) = [] \<longrightarrow> cn_phase c = Established (Reading 0)) \<Longrightarrow>
    admissible (uring_step C T proto) (\<lambda>e. alive (under_way C T proto cid e)) evs (Some w) \<Longrightarrow>
    received C T proto cid (cn_fd c) (pending_write c (uw_write_buffers w)) evs (Some w) =
      take (acks C T proto cid evs (Some w)) (pending_write c (uw_write_buffers w)) \<and>
    (\<exists>w' c'. fst (run (uring_step C T proto) evs (Some w)) = Some w' \<and> conns C w' cid = Some c' \<and>
       pending_write c' (uw_write_buffers w') =
         drop (acks C T proto cid evs (Some w)) (pending_write c (uw_write_buffers w)) \<and>
       (pending_write c' (uw_write_buffers w') = [] \<longrightarrow> cn_phase c' = Established (Reading 0)))"
proof (induction evs arbitrary: w c)
  case (Cons e evs)
  have uw: "under_way C T proto cid e w" using Cons.prems(4) by simp
  from under_way_step [OF C T Cons.prems(1) bs Cons.prems(2) uw] Cons.prems(3) obtain w1 sq c1 where
    ev: "uring_event C T proto e w = Some (w1, sq)" and c1: "conns C w1 cid = Some c1" "cn_fd c1 = cn_fd c"
    "pending_write c1 (uw_write_buffers w1) = drop (acked T cid e w) (pending_write c (uw_write_buffers w))"
    "completes_write T cid e w \<Longrightarrow> submitted (cn_fd c) sq = pending_write c1 (uw_write_buffers w1)"
    "pending_write c1 (uw_write_buffers w1) = [] \<longrightarrow> cn_phase c1 = Established (Reading 0)" by auto
  have rest: "admissible (uring_step C T proto) (\<lambda>e. alive (under_way C T proto cid e)) evs (Some w1)"
    using Cons.prems(4) ev by simp
  note inv1 = uring_event_inv [OF C T Cons.prems(1) under_way_progresses [OF uw] ev]
  note IH = Cons.IH [OF inv1 c1(1,5) rest]
  let ?p = "pending_write c (uw_write_buffers w)" and ?a = "acks C T proto cid evs (Some w1)"
  have "received C T proto cid (cn_fd c) ?p (e # evs) (Some w) =
      take (acked T cid e w) ?p @ received C T proto cid (cn_fd c) (drop (acked T cid e w) ?p) evs (Some w1)"
    using ev c1(3,4) by (simp add: acked_def)
  also have "\<dots> = take (acked T cid e w + ?a) ?p" using IH c1(2,3) by (simp add: take_add)
  finally show ?case using IH c1(3) ev by (simp add: run_Cons_fst add.commute del: run.simps(2) received.simps)
qed simp

section \<open>Answering a request\<close>

text \<open>What a connection has read and not yet answered.\<close>

definition accumulated :: "connection \<Rightarrow> buffer_pool \<Rightarrow> bytes" where
  "accumulated c p =
     (case cn_read_buf_idx c of Some a \<Rightarrow> take (cn_read_accumulated c) (bp_buffers p ! a) | None \<Rightarrow> [])"

lemma shift_keeps:
  "shift_accumulated a k tot c p = Returned (c', p') \<Longrightarrow> cn_fd c' = cn_fd c \<and> cn_protocol c' = cn_protocol c"
  by (auto simp: shift_accumulated_def split: if_splits outcome.splits)

text \<open>A handler's answer is submitted as the first write.\<close>

lemma serve_response:
  assumes C: "slab_laws C okc" "conns_ok okc w" and b: "base p0 os0"
    and ex: "exchange p0 os0 (uw_write_buffers w) [a]" and c: "conns C w cid = Some c"
    and ph: "cn_phase c = Established (Reading f)" "cn_read_buf_idx c = Some a" "tot \<le> bp_buffer_size p0"
    and free: "bp_free_list (uw_write_buffers w) \<noteq> []" and bs: "bp_buffer_size p0 < 2 ^ 32"
    and pr: "process_protocol E (cn_protocol c) inp out (uw_storage w) = (s', Returned (PResponse k l, out'))"
      "length out = bp_buffer_size p0"
  shows "\<exists>w' c' wi tok. serve_input C T E True cid a tot inp c w = Returned (w', None, [SqeWrite (cn_fd c) (take l out') tok]) \<and>
    conns C w' cid = Some c' \<and> cn_fd c' = cn_fd c \<and> cn_phase c' = Established (Writing wi 0 l) \<and>
    pending_write c' (uw_write_buffers w') = take l out' \<and> uw_storage w' = s'"
proof -
  obtain p wi where al: "pool_alloc (uw_write_buffers w) = (p, Some wi)" using free by (auto simp: pool_alloc_def)
  note ex1 = exchange_alloc1 [OF b ex al]
  note g = exchange_get [OF b ex1, of wi]
  have size: "bp_buffer_size p = bp_buffer_size p0" by (rule exchange_facts(5) [OF b ex1])
  have "length out = length (bp_buffers p ! wi)" using pr(2) g(2) size by simp
  from dispatched.sends [OF pr(1) this] obtain b' where
    b': "process_protocol E (cn_protocol c) inp (bp_buffers p ! wi) (uw_storage w) = (s', Returned (PResponse k l, b'))"
    "take l b' = take l out'" .
  have fit: "length b' = bp_buffer_size p" "l \<le> bp_buffer_size p0"
    using dispatched.keeps_length [OF b'(1)] dispatched.response_within [OF b'(1)] g(2) size by simp_all
  note ex2 = exchange_fill1 [OF b ex1 _ fit(1), of wi, simplified]
  obtain c1 p1 where s: "shift_accumulated a k tot c (pool_set wi b' p) = Returned (c1, p1)"
    "exchange p0 os0 p1 [wi, a]" "cn_phase c1 = cn_phase c"
    "\<forall>i. i \<noteq> a \<longrightarrow> bp_buffers p1 ! i = bp_buffers (pool_set wi b' p) ! i"
    using shift_pooled [OF b ex2 _ ph(3), of a k c] by auto
  have "wi \<noteq> a" "wi < length (bp_buffers p)"
    using exchange_facts [OF b s(2)] exchange_facts [OF b ex1] by auto
  then have wi: "bp_buffers p1 ! wi = b'" using s(4) by (simp add: pool_set_def)
  let ?c = "c1\<lparr>cn_phase := Established (Writing wi 0 l)\<rparr>"
  let ?w = "put_uconn C cid ?c (put_write_pool p1 (w\<lparr>uw_write_buffers := pool_set wi b' p, uw_storage := s'\<rparr>))"
  have get: "conns C ?w cid = Some ?c" by (rule put_conns(1) [OF C(1)]) (use C(2) c in simp_all)
  have "pool_get p1 wi = Returned b'" using exchange_get(1) [OF b s(2), of wi] wi by simp
  then have "serve_input C T E True cid a tot inp c w =
      Returned (submit T (OpWrite cid wi) (SqeWrite (cn_fd c) (take l b')) True ?w)"
    using al g(1) b'(1) s(1,3) ph(1) get shift_keeps [OF s(1)] fit(2) bs
    by (simp add: serve_input_def uring_on_result_def begin_response_def start_writing_def ds_writing_def
        submit_write_def registry_get_def)
  then obtain w' tk where "serve_input C T E True cid a tot inp c w = Returned (w', None, [SqeWrite (cn_fd c) (take l b') tk])"
      "uw_connections w' = uw_connections ?w" "uw_write_buffers w' = p1" "uw_storage w' = uw_storage ?w"
    by (simp add: submit_def Let_def split: prod.splits)
  moreover have "uw_storage ?w = s'" by (simp add: put_uconn_def put_write_pool_def)
  ultimately show ?thesis
    using get wi b'(2) shift_keeps [OF s(1)]
    by (intro exI [of _ w'] exI [of _ ?c] exI [of _ wi] exI [of _ tk]) (simp add: pending_write_def)
qed

text \<open>
  The new bytes are appended to what was accumulated, and the handler sees both. The state at
  that point, when there is a buffer to accumulate in and the bytes fit.
\<close>

definition gathered ::
  "('c, connection) slab_ops \<Rightarrow> ('c \<Rightarrow> bool) \<Rightarrow> nat \<Rightarrow> connection \<Rightarrow> nat \<Rightarrow> connection \<Rightarrow>
   ('c, 't) uring_worker \<Rightarrow> ('c, 't) uring_worker \<Rightarrow> bool" where
  "gathered C okc cid c a c1 w w1 =
     (conns_ok okc w1 \<and> exchange (uw_write_buffers w) (uowned c) (uw_write_buffers w1) [a] \<and>
      conns C w1 cid = Some c1 \<and> cn_phase c1 = cn_phase c \<and> cn_read_buf_idx c1 = Some a \<and>
      cn_protocol c1 = cn_protocol c \<and> cn_fd c1 = cn_fd c \<and> uw_storage w1 = uw_storage w \<and>
      length (bp_free_list (uw_write_buffers w)) =
        length (bp_free_list (uw_write_buffers w1)) + (if cn_read_buf_idx c = None then 1 else 0))"

lemma accumulate_serves:
  assumes C: "slab_laws C okc" "conns_ok okc w" and b: "base p0 os0"
    and ex: "exchange p0 os0 (uw_write_buffers w) [a]" and c: "conns C w cid = Some c"
    and fits: "n \<le> length (mem bid)" "cn_read_accumulated c + n \<le> bp_buffer_size p0"
  shows "\<exists>w1. accumulate C T E mem push cid n bid a c w =
      serve_input C T E push cid a (cn_read_accumulated c + n)
        (take (cn_read_accumulated c) (bp_buffers (uw_write_buffers w) ! a) @ take n (mem bid))
        (c\<lparr>cn_read_accumulated := cn_read_accumulated c + n\<rparr>) w1 \<and>
    conns_ok okc w1 \<and> exchange p0 os0 (uw_write_buffers w1) [a] \<and>
    conns C w1 cid = Some (c\<lparr>cn_read_accumulated := cn_read_accumulated c + n\<rparr>) \<and> uw_storage w1 = uw_storage w \<and>
    bp_free_list (uw_write_buffers w1) = bp_free_list (uw_write_buffers w)"
proof -
  let ?p = "uw_write_buffers w" and ?k = "cn_read_accumulated c"
  let ?c = "c\<lparr>cn_read_accumulated := ?k + n\<rparr>"
  let ?buf = "bp_buffers ?p ! a"
  let ?buf' = "blit ?k (take n (mem bid)) ?buf"
  let ?w = "put_uconn C cid ?c (recycle bid (put_write_pool (pool_set a ?buf' ?p) w))"
  note g = exchange_get [OF b ex, of a] and bs = exchange_facts(5) [OF b ex]
  have "take (?k + n) ?buf' = take ?k ?buf @ take n (mem bid)"
    using take_blit_through [of ?k ?buf "take n (mem bid)"] fits g bs by simp
  then have "accumulate C T E mem push cid n bid a c w =
      serve_input C T E push cid a (?k + n) (take ?k ?buf @ take n (mem bid)) ?c ?w"
    using fits g bs by (simp add: accumulate_def slice_def Let_def)
  moreover have "exchange p0 os0 (pool_set a ?buf' ?p) [a]"
    by (rule exchange_fill1 [OF b ex]) (use fits g bs in \<open>simp_all add: length_blit\<close>)
  moreover have "conns C ?w cid = Some ?c" "conns_ok okc ?w"
    by (rule put_conns [OF C(1)]; use C(2) c in simp)+
  moreover have "uw_storage ?w = uw_storage w" by (simp add: put_uconn_def recycle_def put_write_pool_def)
  ultimately show ?thesis by (intro exI [of _ ?w]) simp
qed

lemma handle_read_serves:
  assumes C: "slab_laws C okc" "conns_ok okc w" and c: "conns C w cid = Some c"
    and b: "base (uw_write_buffers w) (uowned c)" "distinct (uowned c)"
      "set (uowned c) \<inter> set (bp_free_list (uw_write_buffers w)) = {}"
    and ok: "cn_phase c = Established (Reading f)" "uconn_ok (bp_buffer_size (uw_write_buffers w)) c"
    and data: "0 < result" "nat result \<le> length (mem bid)"
      "cn_read_accumulated c + nat result \<le> bp_buffer_size (uw_write_buffers w)"
    and free: "bp_free_list (uw_write_buffers w) \<noteq> []"
  shows "\<exists>a c1 w1. handle_read C T E mem push result cid (Some bid) w =
      serve_input C T E push cid a (cn_read_accumulated c + nat result)
        (accumulated c (uw_write_buffers w) @ take (nat result) (mem bid)) c1 w1 \<and>
    gathered C okc cid c a c1 w w1"
proof -
  let ?p = "uw_write_buffers w"
  have ex: "exchange ?p (uowned c) ?p (uowned c)" using b by (auto simp: base_def intro: exchange_refl)
  show ?thesis
  proof (cases "cn_read_buf_idx c")
    case (Some a)
    with ok(1) have "uowned c = [a]" by (simp add: uowned_def)
    with accumulate_serves [where T = T and E = E and push = push and mem = mem and bid = bid and a = a, OF C b(1) _ c data(2,3)] ex data(1) c Some
    show ?thesis
      by (fastforce simp: handle_read_def registry_get_def gathered_def accumulated_def)
  next
    case None
    with ok have own: "uowned c = []" and zero: "cn_read_accumulated c = 0" by (simp_all add: uowned_def uconn_ok_def)
    obtain p a where al: "pool_alloc ?p = (p, Some a)"
      "length (bp_free_list ?p) = length (bp_free_list p) + 1" using free by (auto simp: pool_alloc_def)
    let ?c = "c\<lparr>cn_read_buf_idx := Some a\<rparr>"
    let ?w = "put_uconn C cid ?c (put_write_pool p w)"
    have put: "conns C ?w cid = Some ?c" "conns_ok okc ?w" by (rule put_conns [OF C(1)]; use C(2) c in simp)+
    have "exchange ?p (uowned c) (uw_write_buffers ?w) [a]" using exchange_alloc1 [OF b(1) ex al(1)] own by simp
    moreover have "uw_storage ?w = uw_storage w" by (simp add: put_uconn_def put_write_pool_def)
    ultimately show ?thesis
      using accumulate_serves [where T = T and E = E and push = push and mem = mem and bid = bid and a = a, OF C(1) put(2) b(1) _ put(1) data(2)]
        data(1,3) c None al zero
      by (fastforce simp: handle_read_def registry_get_def gathered_def accumulated_def Let_def)
  qed
qed

text \<open>
  As long as the pool has two buffers per connection, one that reads finds those it needs.
\<close>

lemma buffers_suffice:
  assumes C: "slab_laws C okc" and inv: "uring_inv C T okc okt mx n bs w"
    and enough: "card (dom (conns C w)) * 2 \<le> n"
    and c: "conns C w cid = Some c" and ph: "cn_phase c = Established (Reading f)"
  shows "(if cn_read_buf_idx c = None then 2 else 1) \<le> pool_available (uw_write_buffers w)"
proof -
  let ?G = "conns C w" and ?p = "uw_write_buffers w"
  have b: "books uowned ?G ?p" and n: "length (bp_buffers ?p) = n" using inv by (simp_all add: uring_inv_def)
  have fin: "finite (dom ?G)"
    using inv slab_len [OF C, of "rg_connections (uw_connections w)"] by (simp add: uring_inv_def flights_def holds_def)
  let ?D = "dom ?G - {cid}"
  have two: "card (set (uowned d)) \<le> 2" for d
    by (rule order.trans [OF card_length]) (simp add: uowned_def split: conn_phase.split data_state.split option.split)
  let ?rest = "\<Union>i\<in>?D. set (uowned (the (?G i)))"
  have sub: "{..<n} \<subseteq> (?rest \<union> set (uowned c)) \<union> set (bp_free_list ?p)"
  proof
    fix k assume k: "k \<in> {..<n}"
    show "k \<in> (?rest \<union> set (uowned c)) \<union> set (bp_free_list ?p)"
    proof (cases "k \<in> set (bp_free_list ?p)")
      case False
      with k n obtain i d where "?G i = Some d" "k \<in> set (uowned d)" using books_cover [OF b, of k] by auto
      then show ?thesis using c by (cases "i = cid") (auto intro!: bexI [of _ i])
    qed simp
  qed
  have "n \<le> card ((?rest \<union> set (uowned c)) \<union> set (bp_free_list ?p))"
    using card_mono [OF _ sub] fin by simp
  also have "\<dots> \<le> card (?rest \<union> set (uowned c)) + card (set (bp_free_list ?p))" by (rule card_Un_le)
  also have "\<dots> \<le> card ?rest + card (set (uowned c)) + card (set (bp_free_list ?p))" by (simp add: card_Un_le)
  finally have "n \<le> card ?rest + card (set (uowned c)) + card (set (bp_free_list ?p))" .
  moreover have "card ?rest \<le> card ?D * 2"
    using order.trans [OF card_UN_le [of ?D "\<lambda>i. set (uowned (the (?G i)))"] sum_bounded_above [of ?D _ 2]] fin two
    by simp
  moreover have "card ?D + 1 = card (dom ?G)" using fin c card_Suc_Diff1 [of "dom ?G" cid, OF fin] by (simp add: domI del: card_Diff_insert)
  moreover have "card (set (uowned c)) = (if cn_read_buf_idx c = None then 0 else 1)" using ph by (auto simp: uowned_def)
  moreover have "card (set (bp_free_list ?p)) \<le> length (bp_free_list ?p)" by (rule card_length)
  ultimately show ?thesis using enough by (auto simp: pool_available_def split: if_splits)
qed

text \<open>The pool of a worker has as many for the first 4096 connections.\<close>

lemma enough_buffers:
  assumes C: "slab_laws C okc" and inv: "uring_inv C T okc okt mx (min (mx * 2 mod 2 ^ 64) 8192) bs w"
    and few: "card (dom (conns C w)) \<le> 4096" "mx < 2 ^ 63"
  shows "card (dom (conns C w)) * 2 \<le> min (mx * 2 mod 2 ^ 64) 8192"
  using few inv slab_len [OF C, of "rg_connections (uw_connections w)"]
  by (simp add: uring_inv_def flights_def holds_def)

text \<open>The completion of a read that completes a request.\<close>

lemma read_completion:
  assumes C: "slab_laws C okc" and T: "slab_laws T okt" and inv: "uring_inv C T okc okt mx n bs w"
    and bs: "bs < 2 ^ 32" and tok: "toks T w (unat (cq_token e)) = Some (OpRead cid)"
    and c: "conns C w cid = Some c"
    and free: "(if cn_read_buf_idx c = None then 2 else 1) \<le> pool_available (uw_write_buffers w)"
    and data: "cq_buffer e = Some bid" "0 < cq_result e" "nat (cq_result e) \<le> length (cq_memory e bid)"
      "cn_read_accumulated c + nat (cq_result e) \<le> bs"
    and pr: "process_protocol (cq_env e) (cn_protocol c)
        (accumulated c (uw_write_buffers w) @ take (nat (cq_result e)) (cq_memory e bid)) out (uw_storage w) =
      (s', Returned (PResponse k l, out'))" "length out = bs" and push: "cq_push1 e"
  shows "\<exists>w' c' wi tok. uring_event C T proto e w = Some (w', [SqeWrite (cn_fd c) (take l out') tok]) \<and>
    conns C w' cid = Some c' \<and> cn_fd c' = cn_fd c \<and> cn_phase c' = Established (Writing wi 0 l) \<and>
    pending_write c' (uw_write_buffers w') = take l out' \<and> uw_storage w' = s'"
proof -
  let ?w = "w\<lparr>uw_tokens := sl_remove T (uw_tokens w) (unat (cq_token e))\<rparr>" and ?n = "nat (cq_result e)"
  have fl: "flights C T okc okt mx w" and b: "books uowned (conns C w) (uw_write_buffers w)"
    and size: "bp_buffer_size (uw_write_buffers w) = bs" and cok: "uconn_ok bs c" using inv c by (auto simp: uring_inv_def)
  have okc: "conns_ok okc ?w" using completion_state(1) [OF T fl tok] by (simp add: holds_def conns_ok_def)
  from fl tok obtain f where "cn_phase c = Established (Reading f)" by (cases rule: flight_cases) (use c in auto)
  note ph = this
  have start: "base (uw_write_buffers ?w) (uowned c)" "distinct (uowned c)"
      "set (uowned c) \<inter> set (bp_free_list (uw_write_buffers ?w)) = {}" "conns C ?w cid = Some c"
    using books_conn [OF b c] books_pool [OF b] c by (simp_all add: base_def)
  have fl': "bp_free_list (uw_write_buffers ?w) \<noteq> []" using free by (auto simp: pool_available_def split: if_splits)
  have cok': "uconn_ok (bp_buffer_size (uw_write_buffers ?w)) c" "cn_read_accumulated c + ?n \<le> bp_buffer_size (uw_write_buffers ?w)"
    using cok data(4) size by simp_all
  obtain a c1 w1 where sv: "handle_read C T (cq_env e) (cq_memory e) True (cq_result e) cid (Some bid) ?w =
      serve_input C T (cq_env e) True cid a (cn_read_accumulated c + ?n)
        (accumulated c (uw_write_buffers ?w) @ take ?n (cq_memory e bid)) c1 w1"
    and g: "gathered C okc cid c a c1 ?w w1"
    using handle_read_serves [where T = T and E = "cq_env e" and push = True and mem = "cq_memory e" and bid = bid,
        OF C okc start(4,1,2,3) ph cok'(1) data(2,3) cok'(2) fl'] by blast
  have ev: "uring_event C T proto e w =
      (case handle_read C T (cq_env e) (cq_memory e) True (cq_result e) cid (Some bid) ?w of
         Returned (w', None, sq) \<Rightarrow> Some (w', sq) | _ \<Rightarrow> None)"
    using uring_event_op [where C = C and proto = proto, OF tok] data(1) push by simp
  have "bp_free_list (uw_write_buffers w1) \<noteq> []" using g free by (auto simp: gathered_def pool_available_def split: if_splits)
  with serve_response [where T = T and okc = okc and f = f and s' = s' and k = k and l = l and out = out and out' = out'
      and E = "cq_env e" and a = a and c = c1 and w = w1 and cid = cid and tot = "cn_read_accumulated c + ?n"
      and inp = "accumulated c (uw_write_buffers ?w) @ take ?n (cq_memory e bid)", OF C _ start(1)] g ph cok' bs size pr
  obtain w' c' wi tok where "serve_input C T (cq_env e) True cid a (cn_read_accumulated c + ?n)
        (accumulated c (uw_write_buffers ?w) @ take ?n (cq_memory e bid)) c1 w1
      = Returned (w', None, [SqeWrite (cn_fd c) (take l out') tok])"
    "conns C w' cid = Some c'" "cn_fd c' = cn_fd c" "cn_phase c' = Established (Writing wi 0 l)"
    "pending_write c' (uw_write_buffers w') = take l out'" "uw_storage w' = s'"
    by (auto simp: gathered_def)
  then show ?thesis unfolding ev sv by auto
qed

text \<open>From a completed request to the bytes at the client.\<close>

lemma uring_served:
  assumes C: "slab_laws C okc" and T: "slab_laws T okt" and inv: "uring_inv C T okc okt mx n bs w"
    and enough: "card (dom (conns C w)) * 2 \<le> n" and bs: "bs < 2 ^ 32" and tok: "toks T w (unat (cq_token e)) = Some (OpRead cid)"
    and c: "conns C w cid = Some c"
    and data: "cq_buffer e = Some bid" "0 < cq_result e" "nat (cq_result e) \<le> length (cq_memory e bid)"
      "cn_read_accumulated c + nat (cq_result e) \<le> bs"
    and pr: "process_protocol (cq_env e) (cn_protocol c)
        (accumulated c (uw_write_buffers w) @ take (nat (cq_result e)) (cq_memory e bid)) out (uw_storage w) =
      (s', Returned (PResponse k l, out'))" "length out = bs" "0 < l" and push: "cq_push1 e"
    and evs: "admissible (uring_step C T proto) (\<lambda>e. alive (under_way C T proto cid e)) evs
      (fst (uring_step C T proto e (Some w)))"
  shows "\<exists>w1 tk w' c'. uring_event C T proto e w = Some (w1, [SqeWrite (cn_fd c) (take l out') tk]) \<and>
    uw_storage w1 = s' \<and> fst (run (uring_step C T proto) evs (Some w1)) = Some w' \<and>
    received C T proto cid (cn_fd c) (take l out') evs (Some w1) = take (acks C T proto cid evs (Some w1)) (take l out') \<and>
    conns C w' cid = Some c' \<and>
    (l \<le> acks C T proto cid evs (Some w1) \<longrightarrow> cn_phase c' = Established (Reading 0))"
proof -
  have fl: "flights C T okc okt mx w" using inv by (simp add: uring_inv_def)
  from fl tok obtain f where "cn_phase c = Established (Reading f)" by (cases rule: flight_cases) (use c in auto)
  note free = buffers_suffice [OF C inv enough c this]
  obtain w1 c1 wi tk where ev: "uring_event C T proto e w = Some (w1, [SqeWrite (cn_fd c) (take l out') tk])"
      and c1: "conns C w1 cid = Some c1" "cn_fd c1 = cn_fd c" "cn_phase c1 = Established (Writing wi 0 l)"
      "pending_write c1 (uw_write_buffers w1) = take l out'" "uw_storage w1 = s'"
    using read_completion [OF C T inv bs tok c free data pr(1,2) push] by blast
  have "write_progresses T e w" using tok by (simp add: write_progresses_def)
  note inv1 = uring_event_inv [OF C T inv this ev]
  have len: "length (take l out') = l" using pending_write_length(1) [OF inv1 c1(1,3)] c1(4) by simp
  then have ne: "take l out' \<noteq> []" using pr(3) by auto
  have adm: "admissible (uring_step C T proto) (\<lambda>e. alive (under_way C T proto cid e)) evs (Some w1)" using evs ev by simp
  have "l \<le> acks C T proto cid evs (Some w1) \<Longrightarrow> drop (acks C T proto cid evs (Some w1)) (take l out') = []" using len by simp
  moreover have "pending_write c1 (uw_write_buffers w1) = [] \<longrightarrow> cn_phase c1 = Established (Reading 0)" using c1(4) ne by simp
  note run = under_way_run [OF C T bs inv1 c1(1) this adm, unfolded c1(2,4)]
  ultimately show ?thesis using ev c1(5) run by (metis (no_types, lifting))
qed

text \<open>
  C6. A response reaches the client whole: when a read completion completes a request, in any
  state reached with positive write results and with at most 4096 connections, and the handler
  answers with \<open>l > 0\<close> bytes, then exactly those bytes are submitted as a write at once. And as long as
  writes make progress, the submission queue has room for the connection's entries and no completion of
  another connection or of the accept ends the worker, none of the connection's own ends it
  either, and the bytes that go out on its descriptor, as the entries submitted for it cover them and
  however the kernel cuts them, are the handler's answer from its first byte on, as many as
  the kernel took; once it took \<open>l\<close>, the connection reads again. No buffer shortage can get in
  the way: the pool has two buffers for each connection.
\<close>

theorem uring_delivers:
  assumes "slab_laws C okc" "slab_laws T okt" "card (dom (conns C w)) \<le> 4096" "mx < 2 ^ 63" "bs < 2 ^ 32"
    and "uring_worker_new C T mx bs s ring_mem buf_mem registered push = Some w0"
    and "admissible (uring_step C T proto) (\<lambda>e. alive (write_progresses T e)) evs0 (Some w0)"
    and "fst (run (uring_step C T proto) evs0 (Some w0)) = Some w"
    and "toks T w (unat (cq_token e)) = Some (OpRead cid)" "conns C w cid = Some c"
    and "cq_buffer e = Some bid" "0 < cq_result e" "nat (cq_result e) \<le> length (cq_memory e bid)"
      "cn_read_accumulated c + nat (cq_result e) \<le> bs"
    and "process_protocol (cq_env e) (cn_protocol c)
        (accumulated c (uw_write_buffers w) @ take (nat (cq_result e)) (cq_memory e bid)) out (uw_storage w) =
      (s', Returned (PResponse k l, out'))" "length out = bs" "0 < l" "cq_push1 e"
    and "admissible (uring_step C T proto) (\<lambda>e. alive (under_way C T proto cid e)) evs
      (fst (uring_step C T proto e (Some w)))"
  shows "\<exists>w1 tk w' c'. uring_event C T proto e w = Some (w1, [SqeWrite (cn_fd c) (take l out') tk]) \<and>
    fst (run (uring_step C T proto) evs (Some w1)) = Some w' \<and>
    received C T proto cid (cn_fd c) (take l out') evs (Some w1) = take (acks C T proto cid evs (Some w1)) (take l out') \<and>
    conns C w' cid = Some c' \<and>
    (l \<le> acks C T proto cid evs (Some w1) \<longrightarrow> cn_phase c' = Established (Reading 0))"
proof -
  note inv = reachable_uring_inv [OF assms(1,2,6-8)]
  from uring_served [OF assms(1,2) inv enough_buffers [OF assms(1) inv assms(3,4)] assms(5,9-19)] show ?thesis by blast
qed

text \<open>
  The example worker reads \<^verbatim>\<open>PING\<close>, the kernel takes two bytes of the answer, then the rest.
\<close>

definition example_writing :: "(connection option list, op_type option list) uring_worker" where
  "example_writing =
     example_uring\<lparr>
       uw_connections := \<lparr>rg_connections = [Some ((connection_new 7 ProtoPing)\<lparr>cn_read_buf_idx := Some 3,
         cn_phase := Established (Writing 2 0 6)\<rparr>)], rg_max_connections = 2\<rparr>,
       uw_tokens := [Some OpAccept, Some (OpWrite 0 2)],
       uw_write_buffers := \<lparr>bp_buffers = [replicate 16 (CHR 0x00), replicate 16 (CHR 0x00),
         ''PONG'' @ crlf @ replicate 10 (CHR 0x00), ''PING'' @ crlf @ replicate 10 (CHR 0x00)],
         bp_free_list = [0, 1], bp_buffer_size = 16\<rparr>,
       uw_read_ring := \<lparr>br_slots = map (entry_for 16) [0, 1], br_ring_entries = 2, br_buffer_size = 16, br_tail = 3\<rparr>\<rparr>"

lemma example_answered:
  "uring_event vec_slab vec_slab ProtoPing (completion 1 6 (Some 0) (''PING'' @ crlf)) example_uring =
     Some (example_writing, [SqeWrite 7 (''PONG'' @ crlf) 1])"
  by (simp add: uring_eval completion_def example_uring_def example_start_def example_writing_def process_ping_def
      ping_parse_def rust_eval crlf_def response_pong_def)
    (simp add: numeral_eq_Suc)

lemma cqe_fields:
  "cq_result (completion tok r buf data) = r" "cq_buffer (completion tok r buf data) = buf"
  "cq_memory (completion tok r buf data) = (\<lambda>_. data)" "cq_env (completion tok r buf data) = example_env"
  "cq_push1 (completion tok r buf data)"
  by (simp_all add: completion_def)

lemma example_few: "card (dom (conns vec_slab example_uring)) \<le> 4096"
  using vec_len [of "rg_connections (uw_connections example_uring)"] by (simp add: vec_slab_def example_uring_def)

theorem uring_delivers_witness:
  "received vec_slab vec_slab ProtoPing 0 7 (''PONG'' @ crlf)
     [completion 1 2 None [], completion 0 8 None [], completion 1 4 None []] (Some example_writing) = ''PONG'' @ crlf"
proof -
  let ?evs = "[completion 1 2 None [], completion 0 8 None [], completion 1 4 None []]"
  let ?e = "completion 1 6 (Some 0) (''PING'' @ crlf)"
  let ?o = "''PONG'' @ crlf @ replicate 10 (CHR 0x00)"
  note example = uring_eval example_writing_def example_uring_def example_start_def completion_def
  have acks: "acks vec_slab vec_slab ProtoPing 0 ?evs (Some example_writing) = 6"
    by (simp add: example acked_def completes_write_def uadd_def)
  have step: "fst (uring_step vec_slab vec_slab ProtoPing ?e (Some example_uring)) = Some example_writing"
    using example_answered by simp
  have adm: "admissible (uring_step vec_slab vec_slab ProtoPing) (\<lambda>e. alive (under_way vec_slab vec_slab ProtoPing 0 e)) ?evs
      (fst (uring_step vec_slab vec_slab ProtoPing ?e (Some example_uring)))"
    unfolding step by (simp add: example under_way_def about_def uadd_def)
  have pre: "admissible (uring_step vec_slab vec_slab ProtoPing) (\<lambda>e. alive (write_progresses vec_slab e))
      [completion 0 7 None []] (Some example_start)"
    by (simp add: write_progresses_def example)
  have c: "toks vec_slab example_uring (unat (cq_token ?e)) = Some (OpRead 0)"
    "conns vec_slab example_uring 0 = Some (connection_new 7 ProtoPing)"
    by (simp_all add: example)
  have "process_protocol (cq_env ?e) ProtoPing (''PING'' @ crlf) (replicate 16 (CHR 0x00)) (uw_storage example_uring) =
      (uw_storage example_uring, Returned (PResponse 6 6, ?o))"
    by (simp add: example process_ping_def ping_parse_def rust_eval crlf_def response_pong_def)
  then have "received vec_slab vec_slab ProtoPing 0 7 (take 6 ?o) ?evs (Some example_writing) =
      take (acks vec_slab vec_slab ProtoPing 0 ?evs (Some example_writing)) (take 6 ?o)"
    using uring_delivers [OF vec_slab_laws vec_slab_laws example_few _ _ example_new pre example_accepted c _ _ _ _ _ _ _ _
        adm, where bid = 0 and k = 6 and l = 6 and out = "replicate 16 (CHR 0x00)"
        and s' = "uw_storage example_uring" and out' = ?o] example_answered
    by (auto simp: accumulated_def connection_new_def cqe_fields crlf_def simp del: received.simps acks.simps run.simps)
  then show ?thesis unfolding acks by (simp add: crlf_def del: received.simps)
qed

section \<open>A buffer returned twice\<close>

text \<open>
  A write that fails, or that has nothing to send, returns its buffer twice: \<^verbatim>\<open>handle_write\<close> frees
  it, and \<^verbatim>\<open>close_connection\<close> frees it again, since the connection is still in its writing state.
  The answer to every \<^verbatim>\<open>noreply\<close> command is such an empty write.
\<close>

lemma failed_write_frees_twice:
  assumes inv: "uring_inv C T okc okt mx n bs w"
    and c: "conns C w cid = Some c" and ph: "cn_phase c = Established (Writing idx k t)"
    and tok: "toks T w (unat (cq_token e)) = Some (OpWrite cid idx)" and r: "cq_result e \<le> 0"
  shows "\<exists>w'. uring_event C T proto e w = Some (w', []) \<and>
    bp_free_list (uw_write_buffers w') = bp_free_list (uw_write_buffers w) @ idx # uowned c \<and>
    \<not> distinct (bp_free_list (uw_write_buffers w'))"
proof -
  let ?w = "w\<lparr>uw_tokens := sl_remove T (uw_tokens w) (unat (cq_token e))\<rparr>"
  let ?w' = "uring_close_connection C cid (put_write_pool (pool_free idx (uw_write_buffers ?w)) ?w)"
  have "uring_event C T proto e w = Some (?w', [])"
    using uring_event_op [where C = C and proto = proto, OF tok] r by (simp add: handle_write_def)
  moreover have "bp_free_list (uw_write_buffers ?w') = bp_free_list (uw_write_buffers w) @ idx # uowned c"
    using c ph by (simp add: uring_close_connection_def registry_remove_def put_write_pool_def pool_free_def uowned_def
        split: option.split)
  ultimately show ?thesis using ph by (simp add: uowned_def)
qed

text \<open>
  What follows from it: the buffer is handed out twice. The client of connection 0 resets while
  its answer is on the way; afterwards the answer to connection 1, whose write is in flight, and
  the input of the next connection share one buffer.
\<close>

lemma failed_write_shares_buffer:
  "\<exists>w c d. fst (run (uring_step vec_slab vec_slab ProtoPing)
      [completion 0 8 None [],
       completion 1 (- 104) None [],
       completion 2 6 (Some 1) (''PING'' @ crlf),
       completion 0 9 None [],
       completion 2 3 (Some 0) ''QUI''] (Some example_writing)) = Some w \<and>
    conns vec_slab w 1 = Some c \<and> conns vec_slab w 0 = Some d \<and>
    cn_phase c = Established (Writing 2 0 6) \<and> cn_read_buf_idx d = Some 2"
  by (simp add: uring_eval example_writing_def example_uring_def example_start_def completion_def process_ping_def
      ping_parse_def rust_eval crlf_def response_pong_def)

text \<open>
  Bytes that arrive behind a request stay in the accumulation buffer and are not looked at: of two
  pings in one segment the second is answered only when the client sends more.
\<close>

lemma pipelined_request_waits:
  "\<exists>w c. run (uring_step vec_slab vec_slab ProtoPing)
      [completion 1 12 (Some 0) (''PING'' @ crlf @ ''PING'' @ crlf), completion 1 6 None []] (Some example_uring) =
      (Some w, [[SqeWrite 7 (''PONG'' @ crlf) 1], [SqeRecv 7 1]]) \<and>
    conns vec_slab w 0 = Some c \<and> accumulated c (uw_write_buffers w) = ''PING'' @ crlf"
  by (simp add: uring_eval example_uring_def example_start_def completion_def process_ping_def accumulated_def
      ping_parse_def rust_eval crlf_def response_pong_def uadd_def)

end
