(* ===== verification/Backends.thy ===== *)
theory Backends
  imports Mio_Runs Uring_Delivery
begin

text \<open>
  The two event loops against each other: the same request, on the same store, gets the same
  bytes back from either of them.
\<close>

text \<open>
  C7. The runtimes are interchangeable on answers that fit a buffer: let a mio worker and an io_uring
  worker, in any states they can reach (the latter with positive write results and with at most
  4096 connections), hold the same store, buffers of the same size and a connection of the same
  protocol, and let the bytes received so far, with those that arrive now, be the same and make up a
  request the handler answers with \<open>l > 0\<close> bytes within a buffer. Then both take the request up and
  leave the same store, and once each kernel has taken the whole answer, in whatever pieces and
  without a failed write, as long as events of other connections end neither worker, both
  workers are still running and both clients have received the same bytes, the handler's answer. The
  bytes of the io_uring client are those its submitted entries cover.
\<close>

theorem backends_agree:
  assumes "slab_laws S ok" "slab_laws C okc" "slab_laws T okt" "0 < bs" "bs < 2 ^ 32" "mx' < 2 ^ 63"
      "card (dom (conns C uw)) \<le> 4096"
    and "fst (run (worker_step S mx proto) mevs0 (Some (worker_new S mx bs s0))) = Some mw"
    and "sl_get S (mw_connections mw) i = Some c" "mn_data_state c = Reading f"
      "got = take (bs - f) pending" "got \<noteq> []"
    and "uring_worker_new C T mx' bs s0' ring_mem buf_mem registered push = Some uw0"
      "admissible (uring_step C T proto') (\<lambda>e. alive (write_progresses T e)) uevs0 (Some uw0)"
      "fst (run (uring_step C T proto') uevs0 (Some uw0)) = Some uw"
    and "toks T uw (unat (cq_token e)) = Some (OpRead j)" "conns C uw j = Some d"
      "cq_buffer e = Some bid" "0 < cq_result e" "nat (cq_result e) \<le> length (cq_memory e bid)"
      "cn_read_accumulated d + nat (cq_result e) \<le> bs"
    and "mn_protocol c = cn_protocol d" "mw_storage mw = uw_storage uw"
      "take f (bp_buffers (mw_buffers mw) ! mn_read_buf_idx c) @ got =
       accumulated d (uw_write_buffers uw) @ take (nat (cq_result e)) (cq_memory e bid)"
    and "process_protocol (cq_env e) (mn_protocol c) (take f (bp_buffers (mw_buffers mw) ! mn_read_buf_idx c) @ got)
        out (mw_storage mw) = (s', Returned (PResponse k l, out'))" "length out = bs" "0 < l"
    and "list_all (lets_write i) mevs" "l \<le> sum_list (map (offers i) mevs)"
      "admissible (worker_step S mx proto) (others_survive S mx proto i)
        (ConnEvent i True False (IoOk pending) wr (True, rg) (cq_env e) # mevs) (Some mw)"
    and "cq_push1 e" "l \<le> acks C T proto' j uevs (fst (uring_step C T proto' e (Some uw)))"
      "admissible (uring_step C T proto') (\<lambda>e. alive (under_way C T proto' j e)) uevs
        (fst (uring_step C T proto' e (Some uw)))"
  shows "\<exists>mw1 mw' outs uw1 sq uw'.
    worker_event S mx proto (ConnEvent i True False (IoOk pending) wr (True, rg) (cq_env e)) mw = Some (mw1, []) \<and>
    run (worker_step S mx proto) mevs (Some mw1) = (Some mw', outs) \<and>
    uring_event C T proto' e uw = Some (uw1, sq) \<and> fst (run (uring_step C T proto') uevs (Some uw1)) = Some uw' \<and>
    mw_storage mw1 = uw_storage uw1 \<and> sent_to i mevs outs = take l out' \<and>
    sent_to i mevs outs = received C T proto' j (cn_fd d) (submitted (cn_fd d) sq) uevs (Some uw1)"
proof -
  have mi: "worker_inv S ok mx (mx * 3 mod 2 ^ 64) bs mw" by (rule reachable_inv [OF assms(1,4,1,8)])
  note ui = reachable_uring_inv [OF assms(2,3,13-15)]
  note en = enough_buffers [OF assms(2) ui assms(7,6)]
  obtain mw1 mw' outs where m: "worker_event S mx proto (ConnEvent i True False (IoOk pending) wr (True, rg) (cq_env e)) mw = Some (mw1, [])"
      "mw_storage mw1 = s'" "run (worker_step S mx proto) mevs (Some mw1) = (Some mw', outs)" "sent_to i mevs outs = take l out'"
    using mio_served [OF assms(1,4) pool_indices mi assms(9-12,25-28,30)] assms(29) by fastforce
  have pr: "process_protocol (cq_env e) (cn_protocol d)
      (accumulated d (uw_write_buffers uw) @ take (nat (cq_result e)) (cq_memory e bid)) out (uw_storage uw) =
      (s', Returned (PResponse k l, out'))"
    using assms(22-25) by simp
  obtain uw1 tk uw' where u: "uring_event C T proto' e uw = Some (uw1, [SqeWrite (cn_fd d) (take l out') tk])"
      "uw_storage uw1 = s'" "fst (run (uring_step C T proto') uevs (Some uw1)) = Some uw'"
      "received C T proto' j (cn_fd d) (take l out') uevs (Some uw1) = take (acks C T proto' j uevs (Some uw1)) (take l out')"
    using uring_served [OF assms(2,3) ui en assms(5,16-21) pr assms(26,27,31,33)] by blast
  have "l \<le> acks C T proto' j uevs (Some uw1)" using assms(32) u(1) by simp
  then have "received C T proto' j (cn_fd d) (submitted (cn_fd d) [SqeWrite (cn_fd d) (take l out') tk]) uevs (Some uw1) = take l out'"
    using u(4) by (simp add: submitted_def del: received.simps)
  with m u(1-3) show ?thesis by metis
qed

text \<open>The two example workers, each with its answer cut differently.\<close>

theorem backends_agree_witness:
  "\<exists>mw1 mw' outs.
    worker_event vec_slab 1 ProtoPing (ConnEvent 0 True False (IoOk (''PING'' @ crlf)) IoWouldBlock (True, True) example_env)
      example_worker = Some (mw1, []) \<and>
    run (worker_step vec_slab 1 ProtoPing) [ConnEvent 0 False True IoWouldBlock (IoOk 9) (True, True) example_env] (Some mw1)
      = (Some mw', outs) \<and>
    sent_to 0 [ConnEvent 0 False True IoWouldBlock (IoOk 9) (True, True) example_env] outs =
      received vec_slab vec_slab ProtoPing 0 7 (''PONG'' @ crlf) [completion 1 2 None [], completion 1 4 None []] (Some example_writing)"
proof -
  let ?mevs = "[ConnEvent 0 False True IoWouldBlock (IoOk 9) (True, True) example_env]"
  let ?uevs = "[completion 1 2 None [], completion 1 4 None []]" and ?e = "completion 1 6 (Some 0) (''PING'' @ crlf)"
  let ?rd = "ConnEvent 0 True False (IoOk (''PING'' @ crlf)) IoWouldBlock (True, True) (cq_env ?e)"
  note mex = mio_eval example_worker_def example_conn_def
  note uex = uring_eval example_writing_def example_uring_def example_start_def completion_def
  note ping = process_ping_def ping_parse_def rust_eval crlf_def response_pong_def
  have madm: "admissible (worker_step vec_slab 1 ProtoPing) (others_survive vec_slab 1 ProtoPing 0) (?rd # ?mevs) (Some example_worker)"
    by (simp add: others_survive_def cqe_fields mex ping)
  have pr: "process_protocol example_env ProtoPing (''PING'' @ crlf) (replicate 16 (CHR 0x00)) (mw_storage example_worker) =
      (mw_storage example_worker, Returned (PResponse 6 6, ''PONG'' @ crlf @ replicate 10 (CHR 0x00)))"
    by (simp add: process_protocol_def Let_def blit_def ping)
  have uadm: "admissible (uring_step vec_slab vec_slab ProtoPing) (\<lambda>e. alive (write_progresses vec_slab e))
      [completion 0 7 None []] (Some example_start)"
    and uw: "toks vec_slab example_uring (unat (cq_token ?e)) = Some (OpRead 0)"
    "conns vec_slab example_uring 0 = Some (connection_new 7 ProtoPing)"
    by (simp_all add: uex write_progresses_def)
  have step: "fst (uring_step vec_slab vec_slab ProtoPing ?e (Some example_uring)) = Some example_writing"
    using example_answered by simp
  have under: "admissible (uring_step vec_slab vec_slab ProtoPing) (\<lambda>e. alive (under_way vec_slab vec_slab ProtoPing 0 e)) ?uevs
      (fst (uring_step vec_slab vec_slab ProtoPing ?e (Some example_uring)))"
    and acks: "acks vec_slab vec_slab ProtoPing 0 ?uevs (fst (uring_step vec_slab vec_slab ProtoPing ?e (Some example_uring))) = 6"
    unfolding step by (simp_all add: uex under_way_def about_def acked_def completes_write_def uadd_def)
  have "\<exists>mw1 mw' outs uw1 sq uw'. worker_event vec_slab 1 ProtoPing ?rd example_worker = Some (mw1, []) \<and>
      run (worker_step vec_slab 1 ProtoPing) ?mevs (Some mw1) = (Some mw', outs) \<and>
      uring_event vec_slab vec_slab ProtoPing ?e example_uring = Some (uw1, sq) \<and>
      fst (run (uring_step vec_slab vec_slab ProtoPing) ?uevs (Some uw1)) = Some uw' \<and>
      mw_storage mw1 = uw_storage uw1 \<and> sent_to 0 ?mevs outs = take 6 (''PONG'' @ crlf @ replicate 10 (CHR 0x00)) \<and>
      sent_to 0 ?mevs outs = received vec_slab vec_slab ProtoPing 0 (cn_fd (connection_new 7 ProtoPing))
        (submitted (cn_fd (connection_new 7 ProtoPing)) sq) ?uevs (Some uw1)"
    by (rule backends_agree [where f = 0 and out = "replicate 16 (CHR 0x00)" and bid = 0 and k = 6 and l = 6
          and s' = "mw_storage example_worker", OF vec_slab_laws vec_slab_laws vec_slab_laws _ _ _ example_few
          example_accept example_get _ refl _ example_new uadm example_accepted uw _ _ _ _ _ _ _ _ _ _ _ _ madm _ _ under])
      (use pr acks in \<open>simp_all add: cqe_fields example_worker_def example_conn_def example_uring_def
        example_start_def accumulated_def connection_new_def crlf_def del: uring_step.simps\<close>)
  then show ?thesis
    using example_answered
    by (auto simp: submitted_def connection_new_def cqe_fields
        simp del: worker_event.simps run.simps received.simps sent_to.simps)
qed

end
