(* ===== verification/Config.thy ===== *)
theory Config
  imports Mio Uring
begin

text \<open>
  The configuration, \<^verbatim>\<open>src/src/config.rs\<close>, with the protocol and the number of workers that follow
  from it (\<^verbatim>\<open>map_protocol\<close> of \<^verbatim>\<open>src/src/runtime/mod.rs\<close> and the first lines of \<^verbatim>\<open>run\<close>).

  What the derived parsers of \<^verbatim>\<open>clap\<close> and \<^verbatim>\<open>serde\<close> find is given as records of optional values, one per
  option or field; the attributes of the source say what stands for a missing one. Reading the
  file and parsing it as TOML are parameters: a function from paths to contents and one from
  contents to the fields found.
\<close>

section \<open>Options and fields\<close>

datatype protocol_type = PtMemcached | PtResp | PtPing | PtEcho

definition protocol_default :: protocol_type where
  "protocol_default = PtMemcached"

datatype runtime_type = RtMio | RtIoUring

definition runtime_default :: runtime_type where
  "runtime_default = RtMio"

record cli_args =
  cli_config :: "bytes option"
  cli_listen :: "bytes option"
  cli_max_memory :: "nat option"
  cli_default_ttl :: "u64 option"
  cli_workers :: "nat option"
  cli_log_level :: bytes
  cli_protocol :: protocol_type
  cli_runtime :: runtime_type
  cli_max_value_size :: "nat option"

record server_config =
  sc_listen :: bytes
  sc_workers :: "nat option"
  sc_protocol :: protocol_type

record storage_config =
  tc_max_memory :: nat
  tc_default_ttl :: u64
  tc_cleanup_interval :: u64
  tc_max_value_size :: nat

record logging_config =
  lc_level :: bytes

record toml_config =
  tm_server :: server_config
  tm_storage :: storage_config
  tm_logging :: logging_config

definition default_listen :: bytes where
  "default_listen = ''127.0.0.1:11211''"

definition default_max_memory :: nat where
  "default_max_memory = 64 * 1024 * 1024"

definition default_cleanup_interval :: u64 where
  "default_cleanup_interval = 60"

definition default_log_level :: bytes where
  "default_log_level = ''info''"

definition default_max_value_size :: nat where
  "default_max_value_size = 8 * 1024 * 1024"

definition server_default :: server_config where
  "server_default = \<lparr>sc_listen = default_listen, sc_workers = None, sc_protocol = protocol_default\<rparr>"

definition storage_default :: storage_config where
  "storage_default =
     \<lparr>tc_max_memory = default_max_memory, tc_default_ttl = 0, tc_cleanup_interval = default_cleanup_interval,
      tc_max_value_size = default_max_value_size\<rparr>"

definition logging_default :: logging_config where
  "logging_default = \<lparr>lc_level = default_log_level\<rparr>"

definition toml_default :: toml_config where
  "toml_default = \<lparr>tm_server = server_default, tm_storage = storage_default, tm_logging = logging_default\<rparr>"

section \<open>What the derived parsers build\<close>

text \<open>The options as given on the command line, with the defaults of \<^verbatim>\<open>default_value\<close>.\<close>

record cli_given =
  cg_config :: "bytes option"
  cg_listen :: "bytes option"
  cg_max_memory :: "nat option"
  cg_default_ttl :: "u64 option"
  cg_workers :: "nat option"
  cg_log_level :: "bytes option"
  cg_protocol :: "protocol_type option"
  cg_runtime :: "runtime_type option"
  cg_max_value_size :: "nat option"

definition unwrap_or :: "'a option \<Rightarrow> 'a \<Rightarrow> 'a" where
  "unwrap_or a d = (case a of Some x \<Rightarrow> x | None \<Rightarrow> d)"

lemma unwrap_or_simps [simp]: "unwrap_or (Some x) d = x" "unwrap_or None d = d"
  by (simp_all add: unwrap_or_def)

definition parse_cli :: "cli_given \<Rightarrow> cli_args" where
  "parse_cli g =
     \<lparr>cli_config = cg_config g, cli_listen = cg_listen g, cli_max_memory = cg_max_memory g,
      cli_default_ttl = cg_default_ttl g, cli_workers = cg_workers g,
      cli_log_level = unwrap_or (cg_log_level g) ''info'',
      cli_protocol = unwrap_or (cg_protocol g) PtMemcached,
      cli_runtime = unwrap_or (cg_runtime g) RtMio, cli_max_value_size = cg_max_value_size g\<rparr>"

text \<open>The tables and fields of a TOML file; a missing table gives the table's default.\<close>

record server_given =
  sg_listen :: "bytes option"
  sg_workers :: "nat option"
  sg_protocol :: "protocol_type option"

record storage_given =
  tg_max_memory :: "nat option"
  tg_default_ttl :: "u64 option"
  tg_cleanup_interval :: "u64 option"
  tg_max_value_size :: "nat option"

record toml_given =
  mg_server :: "server_given option"
  mg_storage :: "storage_given option"
  mg_logging :: "bytes option option"

definition server_of :: "server_given \<Rightarrow> server_config" where
  "server_of g =
     \<lparr>sc_listen = unwrap_or (sg_listen g) default_listen, sc_workers = sg_workers g,
      sc_protocol = unwrap_or (sg_protocol g) protocol_default\<rparr>"

definition storage_of :: "storage_given \<Rightarrow> storage_config" where
  "storage_of g =
     \<lparr>tc_max_memory = unwrap_or (tg_max_memory g) default_max_memory,
      tc_default_ttl = unwrap_or (tg_default_ttl g) 0,
      tc_cleanup_interval = unwrap_or (tg_cleanup_interval g) default_cleanup_interval,
      tc_max_value_size = unwrap_or (tg_max_value_size g) default_max_value_size\<rparr>"

definition toml_of :: "toml_given \<Rightarrow> toml_config" where
  "toml_of g =
     \<lparr>tm_server = unwrap_or (map_option server_of (mg_server g)) server_default,
      tm_storage = unwrap_or (map_option storage_of (mg_storage g)) storage_default,
      tm_logging = unwrap_or (map_option (\<lambda>l. \<lparr>lc_level = unwrap_or l default_log_level\<rparr>) (mg_logging g))
        logging_default\<rparr>"

section \<open>Loading\<close>

datatype ('i, 't) config_error = FileRead bytes 'i | TomlParse bytes 't | InvalidAddress bytes

text \<open>\<^verbatim>\<open>str::rsplit_once\<close> for a character: the text before and after its last occurrence.\<close>

definition rsplit_once :: "char \<Rightarrow> bytes \<Rightarrow> (bytes \<times> bytes) option" where
  "rsplit_once c s =
     (case dropWhile (\<lambda>x. x \<noteq> c) (rev s) of
        [] \<Rightarrow> None
      | _ # before \<Rightarrow> Some (rev before, rev (takeWhile (\<lambda>x. x \<noteq> c) (rev s))))"

definition parse_listen_address :: "bytes \<Rightarrow> ('i, 't) config_error + bytes \<times> u16" where
  "parse_listen_address addr =
     (case rsplit_once (CHR '':'') addr of
        Some (host, port_str) \<Rightarrow>
          (case parse_u16 port_str of
             None \<Rightarrow> Inl (InvalidAddress addr)
           | Some port \<Rightarrow> Inr (host, port))
      | None \<Rightarrow> Inl (InvalidAddress addr))"

record config =
  cf_host :: bytes
  cf_port :: u16
  cf_max_memory :: nat
  cf_default_ttl :: u64
  cf_cleanup_interval :: u64
  cf_workers :: nat
  cf_log_level :: bytes
  cf_protocol :: protocol_type
  cf_runtime :: runtime_type
  cf_ring_size :: nat
  cf_buffer_size :: nat
  cf_max_connections :: nat
  cf_batch_size :: nat
  cf_max_value_size :: nat

definition load_toml ::
  "(bytes \<Rightarrow> 'i + bytes) \<Rightarrow> (bytes \<Rightarrow> 't + toml_given) \<Rightarrow> cli_args \<Rightarrow> ('i, 't) config_error + toml_config" where
  "load_toml read_to_string from_str cli =
     (case cli_config cli of
        None \<Rightarrow> Inr toml_default
      | Some path \<Rightarrow>
          (case read_to_string path of
             Inl e \<Rightarrow> Inl (FileRead path e)
           | Inr text \<Rightarrow>
               (case from_str text of
                  Inl e \<Rightarrow> Inl (TomlParse path e)
                | Inr g \<Rightarrow> Inr (toml_of g))))"

definition merge :: "cli_args \<Rightarrow> toml_config \<Rightarrow> bytes \<Rightarrow> u16 \<Rightarrow> config" where
  "merge cli toml host port =
     \<lparr>cf_host = host, cf_port = port,
      cf_max_memory = unwrap_or (cli_max_memory cli) (tc_max_memory (tm_storage toml)),
      cf_default_ttl = unwrap_or (cli_default_ttl cli) (tc_default_ttl (tm_storage toml)),
      cf_cleanup_interval = tc_cleanup_interval (tm_storage toml),
      cf_workers = unwrap_or (case cli_workers cli of Some n \<Rightarrow> Some n | None \<Rightarrow> sc_workers (tm_server toml)) 0,
      cf_log_level = (if cli_log_level cli \<noteq> ''info'' then cli_log_level cli else lc_level (tm_logging toml)),
      cf_protocol = (if cli_protocol cli \<noteq> protocol_default then cli_protocol cli else sc_protocol (tm_server toml)),
      cf_runtime = cli_runtime cli,
      cf_ring_size = 4096, cf_buffer_size = 64 * 1024, cf_max_connections = 10000, cf_batch_size = 64,
      cf_max_value_size = unwrap_or (cli_max_value_size cli) (tc_max_value_size (tm_storage toml))\<rparr>"

definition config_load ::
  "(bytes \<Rightarrow> 'i + bytes) \<Rightarrow> (bytes \<Rightarrow> 't + toml_given) \<Rightarrow> cli_given \<Rightarrow> ('i, 't) config_error + config" where
  "config_load read_to_string from_str given =
     (let cli = parse_cli given in
      case load_toml read_to_string from_str cli of
        Inl e \<Rightarrow> Inl e
      | Inr toml \<Rightarrow>
          (case parse_listen_address (unwrap_or (cli_listen cli) (sc_listen (tm_server toml))) of
             Inl e \<Rightarrow> Inl e
           | Inr (host, port) \<Rightarrow> Inr (merge cli toml host port)))"

text \<open>The messages; how an error of the file system or of the TOML parser prints is a parameter.\<close>

fun display_error :: "('i \<Rightarrow> bytes) \<Rightarrow> ('t \<Rightarrow> bytes) \<Rightarrow> ('i, 't) config_error \<Rightarrow> bytes" where
  "display_error show_io show_toml (FileRead path e) =
     ''Failed to read config file '' @ [CHR 0x27] @ from_utf8_lossy path @ [CHR 0x27] @ '': '' @ show_io e"
| "display_error show_io show_toml (TomlParse path e) =
     ''Failed to parse config file '' @ [CHR 0x27] @ from_utf8_lossy path @ [CHR 0x27] @ '': '' @ show_toml e"
| "display_error show_io show_toml (InvalidAddress addr) =
     ''Invalid listen address '' @ [CHR 0x27] @ addr @ [CHR 0x27] @ '': expected host:port''"

section \<open>What a runtime takes from it\<close>

fun map_protocol :: "protocol_type \<Rightarrow> protocol" where
  "map_protocol PtMemcached = ProtoMemcached"
| "map_protocol PtResp = ProtoResp"
| "map_protocol PtPing = ProtoPing"
| "map_protocol PtEcho = ProtoEcho"

definition num_workers :: "nat \<Rightarrow> config \<Rightarrow> nat" where
  "num_workers cpus cfg = (if cf_workers cfg = 0 then cpus else cf_workers cfg)"

section \<open>The listen address\<close>

lemma rsplit_once_Some:
  "rsplit_once c s = Some (a, b) \<longleftrightarrow> s = a @ c # b \<and> c \<notin> set b"
proof
  assume "rsplit_once c s = Some (a, b)"
  then obtain d before where d: "dropWhile (\<lambda>x. x \<noteq> c) (rev s) = d # before" "a = rev before"
    "b = rev (takeWhile (\<lambda>x. x \<noteq> c) (rev s))"
    by (auto simp: rsplit_once_def split: list.splits)
  have "d = c" using d(1) hd_dropWhile [of "\<lambda>x. x \<noteq> c" "rev s"] by simp
  moreover have "rev s = takeWhile (\<lambda>x. x \<noteq> c) (rev s) @ d # before" using d(1) by (metis takeWhile_dropWhile_id)
  then have "s = rev before @ d # rev (takeWhile (\<lambda>x. x \<noteq> c) (rev s))"
    by (metis append.assoc append_Cons append_Nil rev.simps(2) rev_append rev_swap)
  moreover have "c \<notin> set b" using d(3) by (auto dest: set_takeWhileD)
  ultimately show "s = a @ c # b \<and> c \<notin> set b" using d by simp
next
  assume "s = a @ c # b \<and> c \<notin> set b"
  then have s: "s = a @ c # b" "\<And>x. x \<in> set (rev b) \<Longrightarrow> x \<noteq> c" by auto
  have "dropWhile (\<lambda>x. x \<noteq> c) (rev b @ c # rev a) = c # rev a" "takeWhile (\<lambda>x. x \<noteq> c) (rev b @ c # rev a) = rev b"
    using s(2) dropWhile_append2 [of "rev b" "\<lambda>x. x \<noteq> c" "c # rev a"] takeWhile_append2 [of "rev b" "\<lambda>x. x \<noteq> c" "c # rev a"]
    by simp_all
  then show "rsplit_once c s = Some (a, b)" by (simp add: rsplit_once_def s(1))
qed

lemma parse_listen_Inr:
  "parse_listen_address a = Inr (host, port) \<longleftrightarrow>
    (\<exists>p. a = host @ '':'' @ p \<and> CHR '':'' \<notin> set p \<and> parse_u16 p = Some port)"
proof -
  have "parse_listen_address a = Inr (host, port) \<longleftrightarrow>
      (\<exists>p. rsplit_once (CHR '':'') a = Some (host, p) \<and> parse_u16 p = Some port)"
    by (auto simp: parse_listen_address_def split: option.splits)
  then show ?thesis by (auto simp: rsplit_once_Some)
qed

lemma parse_listen_Inl: "parse_listen_address a = Inl e \<Longrightarrow> e = InvalidAddress a"
  by (auto simp: parse_listen_address_def split: option.splits)

lemma show_nat_no_colon: "CHR '':'' \<notin> set (show_nat n)"
  using show_nat_all_digits [of n] by (auto simp: list_all_iff is_digit_def)

lemma parse_u16_show_nat: "parse_u16 (show_nat (unat w)) = Some w"
proof -
  have "unat w \<le> 2 ^ 16 - 1" using unsigned_less [of w, where ?'a = nat] by simp
  then show ?thesis by (simp add: parse_u16_def parse_unsigned_show_nat del: One_nat_def)
qed

text \<open>
  C33. The listen address is read exactly: whatever the host is, colons included as in an IPv6
  address, printing a host and a port gives an address that reads back as them; an address is
  accepted just when a colon is followed by a 16-bit number up to its end, the host is what
  stands before the last colon; and every other text is refused with an error that carries it.
\<close>

theorem listen_address_exact:
  fixes r :: "('i, 't) config_error + bytes \<times> u16"
  shows "parse_listen_address (host @ '':'' @ show_nat (unat port)) = Inr (host, port) \<and>
   (parse_listen_address a = r \<longleftrightarrow>
      (case r of
         Inr (h, q) \<Rightarrow> \<exists>p. a = h @ '':'' @ p \<and> CHR '':'' \<notin> set p \<and> parse_u16 p = Some q
       | Inl e \<Rightarrow> e = InvalidAddress a \<and>
           \<not> (\<exists>h p q. a = h @ '':'' @ p \<and> CHR '':'' \<notin> set p \<and> parse_u16 p = Some q)))"
proof
  show "parse_listen_address (host @ '':'' @ show_nat (unat port)) = Inr (host, port)"
    using show_nat_no_colon parse_u16_show_nat by (subst parse_listen_Inr) blast
  show "parse_listen_address a = r \<longleftrightarrow>
      (case r of
         Inr (h, q) \<Rightarrow> \<exists>p. a = h @ '':'' @ p \<and> CHR '':'' \<notin> set p \<and> parse_u16 p = Some q
       | Inl e \<Rightarrow> e = InvalidAddress a \<and>
           \<not> (\<exists>h p q. a = h @ '':'' @ p \<and> CHR '':'' \<notin> set p \<and> parse_u16 p = Some q))"
  proof (cases r)
    case (Inl e)
    have "parse_listen_address a = r \<longleftrightarrow> e = InvalidAddress a \<and> 
        \<not> (\<exists>h q. parse_listen_address a = (Inr (h, q) :: ('i, 't) config_error + bytes \<times> u16))"
      unfolding Inl by (cases "parse_listen_address a :: ('i, 't) config_error + bytes \<times> u16")
        (auto dest: parse_listen_Inl)
    then show ?thesis unfolding parse_listen_Inr Inl sum.case by blast
  next
    case (Inr x)
    then show ?thesis by (cases x) (simp add: parse_listen_Inr)
  qed
qed

section \<open>Precedence\<close>

text \<open>What the file says: nothing when no file is named.\<close>

definition file_found ::
  "(bytes \<Rightarrow> 'i + bytes) \<Rightarrow> (bytes \<Rightarrow> 't + toml_given) \<Rightarrow> bytes option \<Rightarrow> toml_given \<Rightarrow> bool" where
  "file_found read_to_string from_str path t =
     (case path of
        None \<Rightarrow> t = \<lparr>mg_server = None, mg_storage = None, mg_logging = None\<rparr>
      | Some f \<Rightarrow> \<exists>text. read_to_string f = Inr text \<and> from_str text = Inr t)"

text \<open>A value of the command line, else of the file, else the default.\<close>

definition chosen :: "'a option \<Rightarrow> 'a option \<Rightarrow> 'a \<Rightarrow> 'a" where
  "chosen arg field d = (case arg of Some x \<Rightarrow> x | None \<Rightarrow> unwrap_or field d)"

lemma chosen_unwrap: "chosen a b d = unwrap_or a (unwrap_or b d)"
  by (cases a) (simp_all add: chosen_def)

lemma load_toml_found:
  "load_toml rd fs cli = Inr toml \<Longrightarrow> \<exists>t. file_found rd fs (cli_config cli) t \<and> toml = toml_of t"
  by (auto simp: load_toml_def file_found_def toml_of_def toml_default_def split: option.splits sum.splits)

lemma toml_fields:
  "sc_listen (tm_server (toml_of t)) = unwrap_or (Option.bind (mg_server t) sg_listen) default_listen"
  "sc_workers (tm_server (toml_of t)) = Option.bind (mg_server t) sg_workers"
  "sc_protocol (tm_server (toml_of t)) = unwrap_or (Option.bind (mg_server t) sg_protocol) PtMemcached"
  "tc_max_memory (tm_storage (toml_of t)) = unwrap_or (Option.bind (mg_storage t) tg_max_memory) default_max_memory"
  "tc_default_ttl (tm_storage (toml_of t)) = unwrap_or (Option.bind (mg_storage t) tg_default_ttl) 0"
  "tc_cleanup_interval (tm_storage (toml_of t)) =
     unwrap_or (Option.bind (mg_storage t) tg_cleanup_interval) default_cleanup_interval"
  "tc_max_value_size (tm_storage (toml_of t)) =
     unwrap_or (Option.bind (mg_storage t) tg_max_value_size) default_max_value_size"
  "lc_level (tm_logging (toml_of t)) = unwrap_or (Option.bind (mg_logging t) id) ''info''"
  by (cases "mg_server t"; cases "mg_storage t"; cases "mg_logging t";
      simp add: toml_of_def server_of_def storage_of_def server_default_def storage_default_def logging_default_def
        protocol_default_def default_log_level_def)+

text \<open>
  C34. Precedence: a configuration that loads takes the listen address, memory limit, time to
  live, workers and value limit from the command line when given there, else from the file, else
  the default; the cleanup interval from the file or the default; the runtime from the command
  line only. For the log level and the protocol an option that spells out the default counts as
  not given, so the file wins over it.
\<close>

theorem config_precedence:
  fixes rd :: "bytes \<Rightarrow> 'i + bytes" and fs :: "bytes \<Rightarrow> 't + toml_given"
  assumes "config_load rd fs g = Inr cfg"
  shows "\<exists>t. file_found rd fs (cg_config g) t \<and>
    parse_listen_address (chosen (cg_listen g) (Option.bind (mg_server t) sg_listen) default_listen) =
      (Inr (cf_host cfg, cf_port cfg) :: ('i, 't) config_error + bytes \<times> u16) \<and>
    cf_max_memory cfg = chosen (cg_max_memory g) (Option.bind (mg_storage t) tg_max_memory) default_max_memory \<and>
    cf_default_ttl cfg = chosen (cg_default_ttl g) (Option.bind (mg_storage t) tg_default_ttl) 0 \<and>
    cf_max_value_size cfg =
      chosen (cg_max_value_size g) (Option.bind (mg_storage t) tg_max_value_size) default_max_value_size \<and>
    cf_workers cfg = chosen (cg_workers g) (Option.bind (mg_server t) sg_workers) 0 \<and>
    cf_cleanup_interval cfg = chosen None (Option.bind (mg_storage t) tg_cleanup_interval) default_cleanup_interval \<and>
    cf_runtime cfg = chosen (cg_runtime g) None RtMio \<and>
    cf_log_level cfg = chosen (if cg_log_level g = Some ''info'' then None else cg_log_level g)
      (Option.bind (mg_logging t) id) ''info'' \<and>
    cf_protocol cfg = chosen (if cg_protocol g = Some PtMemcached then None else cg_protocol g)
      (Option.bind (mg_server t) sg_protocol) PtMemcached"
proof -
  let ?cli = "parse_cli g"
  obtain toml host port where toml: "load_toml rd fs ?cli = Inr toml"
    and addr: "parse_listen_address (unwrap_or (cli_listen ?cli) (sc_listen (tm_server toml))) =
      (Inr (host, port) :: ('i, 't) config_error + bytes \<times> u16)"
    and cfg: "cfg = merge ?cli toml host port"
    using assms by (auto simp: config_load_def Let_def split: sum.splits)
  obtain t where t: "file_found rd fs (cg_config g) t" "toml = toml_of t"
    using load_toml_found [OF toml] by (auto simp: parse_cli_def)
  show ?thesis
    using addr unfolding cfg t(2)
    by (intro exI [of _ t] conjI t(1); cases "cg_log_level g"; cases "cg_protocol g")
      (simp_all add: merge_def chosen_unwrap parse_cli_def toml_fields protocol_default_def,
        simp_all add: unwrap_or_def toml_fields split: option.split)
qed

text \<open>A file says debug and RESP; the command line spells out info and memcached, and 8 workers.\<close>

theorem config_precedence_witness:
  "\<exists>cfg. config_load (\<lambda>_. Inr [] :: unit + bytes)
      (\<lambda>_. Inr \<lparr>mg_server = Some \<lparr>sg_listen = Some ''[::1]:80'', sg_workers = Some 4, sg_protocol = Some PtResp\<rparr>,
        mg_storage = None, mg_logging = Some (Some ''debug'')\<rparr> :: unit + toml_given)
      \<lparr>cg_config = Some ''c.toml'', cg_listen = None, cg_max_memory = None, cg_default_ttl = None, cg_workers = Some 8,
       cg_log_level = Some ''info'', cg_protocol = Some PtMemcached, cg_runtime = None, cg_max_value_size = None\<rparr> = Inr cfg \<and>
    cf_workers cfg = 8 \<and> cf_log_level cfg = ''debug'' \<and> cf_protocol cfg = PtResp"
proof -
  let ?t = "\<lparr>mg_server = Some \<lparr>sg_listen = Some ''[::1]:80'', sg_workers = Some 4, sg_protocol = Some PtResp\<rparr>,
    mg_storage = None, mg_logging = Some (Some ''debug'')\<rparr>"
  let ?rd = "\<lambda>_ :: bytes. Inr [] :: unit + bytes" and ?fs = "\<lambda>_ :: bytes. Inr ?t :: unit + toml_given"
  let ?g = "\<lparr>cg_config = Some ''c.toml'', cg_listen = None, cg_max_memory = None, cg_default_ttl = None, cg_workers = Some 8,
    cg_log_level = Some ''info'', cg_protocol = Some PtMemcached, cg_runtime = None, cg_max_value_size = None\<rparr>"
  obtain cfg where "config_load ?rd ?fs ?g = Inr cfg"
    by (simp add: config_load_def load_toml_def parse_cli_def toml_of_def server_of_def parse_listen_address_def
        rsplit_once_def rust_eval)
  with config_precedence [OF this] show ?thesis by (auto simp: file_found_def chosen_def)
qed

section \<open>Limits\<close>

text \<open>
  The limits every loaded configuration has, 10000 connections and buffers of 64 KiB, let the
  io_uring workers start when the kernel grants their requests: the ring gets 4096 entries.
\<close>

lemma loaded_ring: "ring_entries_for 10000 = 4096" "is_power_of_two 4096"
  by (simp_all add: ring_entries_for_def next_power_of_two_def is_power_of_two_def upt_rec)

lemma loaded_limits:
  "config_load rd fs g = Inr cfg \<Longrightarrow> cf_max_connections cfg = 10000 \<and> cf_buffer_size cfg = 65536"
  by (auto simp: config_load_def Let_def merge_def split: sum.splits)

end
