(* ===== verification/Startup.thy ===== *)
theory Startup
  imports Config
begin

text \<open>
  From the command line to running workers: \<^verbatim>\<open>src/src/main.rs\<close>, the functions \<^verbatim>\<open>run\<close> and the set-up of
  \<^verbatim>\<open>worker_loop\<close> in \<^verbatim>\<open>src/src/runtime/mio/event_loop.rs\<close> and \<^verbatim>\<open>src/src/runtime/uring/event_loop.rs\<close>.

  The address is parsed as the standard library parses a \<^verbatim>\<open>SocketAddr\<close>. What the operating system answers
  is a parameter, the record \<open>os\<close>: the result of each socket call, of creating and registering with the
  poll or the ring, and of spawning a thread.
\<close>

section \<open>Socket addresses\<close>

datatype socket_addr = V4 "nat list" u16 | V6 "nat list" nat u16

type_synonym 'a reader = "bytes \<Rightarrow> ('a \<times> bytes) option"

definition to_digit :: "nat \<Rightarrow> byte \<Rightarrow> nat option" where
  "to_digit radix c =
     (let n = of_char c :: nat;
          d = (if 48 \<le> n \<and> n \<le> 57 then Some (n - 48)
               else if 97 \<le> n \<and> n \<le> 122 then Some (n - 87)
               else if 65 \<le> n \<and> n \<le> 90 then Some (n - 55) else None)
      in case d of Some v \<Rightarrow> if v < radix then Some v else None | None \<Rightarrow> None)"

text \<open>
  The loop of \<^verbatim>\<open>read_number\<close>: value and number of digits so far; it fails when the value leaves the
  type, whose largest value is \<open>lim\<close>, or when there are more digits than allowed.
\<close>

fun read_digits :: "nat \<Rightarrow> nat \<Rightarrow> nat option \<Rightarrow> nat \<Rightarrow> nat \<Rightarrow> bytes \<Rightarrow> (nat \<times> nat \<times> bytes) option" where
  "read_digits radix lim max_digits r n [] = Some (r, n, [])"
| "read_digits radix lim max_digits r n (c # cs) =
     (case to_digit radix c of
        None \<Rightarrow> Some (r, n, c # cs)
      | Some d \<Rightarrow>
          if r * radix + d > lim \<or> (case max_digits of Some m \<Rightarrow> n + 1 > m | None \<Rightarrow> False) then None
          else read_digits radix lim max_digits (r * radix + d) (n + 1) cs)"

definition read_number :: "nat \<Rightarrow> nat \<Rightarrow> nat option \<Rightarrow> bool \<Rightarrow> nat reader" where
  "read_number radix lim max_digits allow_zero_prefix s =
     (case read_digits radix lim max_digits 0 0 s of
        None \<Rightarrow> None
      | Some (r, n, rest) \<Rightarrow>
          if n = 0 then None
          else if \<not> allow_zero_prefix \<and> hd s = CHR ''0'' \<and> n > 1 then None
          else Some (r, rest))"

definition read_given_char :: "byte \<Rightarrow> unit reader" where
  "read_given_char c s = (case s of x # xs \<Rightarrow> if x = c then Some ((), xs) else None | [] \<Rightarrow> None)"

definition read_separator :: "byte \<Rightarrow> nat \<Rightarrow> 'a reader \<Rightarrow> 'a reader" where
  "read_separator sep index inner s =
     (if index = 0 then inner s
      else (case read_given_char sep s of Some (_, rest) \<Rightarrow> inner rest | None \<Rightarrow> None))"

fun read_octets :: "nat \<Rightarrow> nat \<Rightarrow> nat list reader" where
  "read_octets 0 i s = Some ([], s)"
| "read_octets (Suc m) i s =
     (case read_separator (CHR ''.'') i (read_number 10 255 (Some 3) False) s of
        None \<Rightarrow> None
      | Some (a, rest) \<Rightarrow>
          (case read_octets m (Suc i) rest of
             None \<Rightarrow> None
           | Some (as, rest') \<Rightarrow> Some (a # as, rest')))"

definition read_ipv4_addr :: "nat list reader" where
  "read_ipv4_addr s = read_octets 4 0 s"

text \<open>
  The groups of an IPv6 address: \<open>m\<close> of them are left to read, \<open>i\<close> have been read. A trailing IPv4
  address takes the place of two groups.
\<close>

fun read_groups :: "nat \<Rightarrow> nat \<Rightarrow> bytes \<Rightarrow> nat list \<times> bool \<times> bytes" where
  "read_groups 0 i s = ([], False, s)"
| "read_groups (Suc m) i s =
     (case (if 0 < m then read_separator (CHR '':'') i read_ipv4_addr s else None) of
        Some (octets, rest) \<Rightarrow>
          ([octets ! 0 * 256 + octets ! 1, octets ! 2 * 256 + octets ! 3], True, rest)
      | None \<Rightarrow>
          (case read_separator (CHR '':'') i (read_number 16 65535 (Some 4) True) s of
             None \<Rightarrow> ([], False, s)
           | Some (g, rest) \<Rightarrow>
               (let (gs, v4, rest') = read_groups m (Suc i) rest in (g # gs, v4, rest'))))"

definition read_ipv6_addr :: "nat list reader" where
  "read_ipv6_addr s =
     (let (head, head_ipv4, rest) = read_groups 8 0 s in
      if length head = 8 then Some (head, rest)
      else if head_ipv4 then None
      else (case rest of
              c # c' # rest' \<Rightarrow>
                if c = CHR '':'' \<and> c' = CHR '':''
                then (let (tail, _, rest'') = read_groups (8 - (length head + 1)) 0 rest'
                      in Some (head @ replicate (8 - length head - length tail) 0 @ tail, rest''))
                else None
            | _ \<Rightarrow> None))"

definition read_port :: "u16 reader" where
  "read_port s =
     (case read_given_char (CHR '':'') s of
        None \<Rightarrow> None
      | Some (_, rest) \<Rightarrow> map_option (apfst of_nat) (read_number 10 65535 None True rest))"

definition read_scope_id :: "nat reader" where
  "read_scope_id s =
     (case read_given_char (CHR ''%'') s of
        None \<Rightarrow> None
      | Some (_, rest) \<Rightarrow> read_number 10 (2 ^ 32 - 1) None True rest)"

definition read_socket_addr_v4 :: "socket_addr reader" where
  "read_socket_addr_v4 s =
     (case read_ipv4_addr s of
        None \<Rightarrow> None
      | Some (ip, rest) \<Rightarrow> map_option (apfst (V4 ip)) (read_port rest))"

definition read_socket_addr_v6 :: "socket_addr reader" where
  "read_socket_addr_v6 s =
     (case read_given_char (CHR ''['') s of
        None \<Rightarrow> None
      | Some (_, s1) \<Rightarrow>
          (case read_ipv6_addr s1 of
             None \<Rightarrow> None
           | Some (ip, s2) \<Rightarrow>
               (let (scope_id, s3) = (case read_scope_id s2 of Some r \<Rightarrow> r | None \<Rightarrow> (0, s2)) in
                (case read_given_char (CHR '']'') s3 of
                   None \<Rightarrow> None
                 | Some (_, s4) \<Rightarrow> map_option (apfst (V6 ip scope_id)) (read_port s4)))))"

text \<open>\<^verbatim>\<open>str::parse::<SocketAddr>\<close>: the whole string has to be read.\<close>

definition parse_socket_addr :: "bytes \<Rightarrow> socket_addr option" where
  "parse_socket_addr s =
     (case (case read_socket_addr_v4 s of Some r \<Rightarrow> Some r | None \<Rightarrow> read_socket_addr_v6 s) of
        Some (addr, []) \<Rightarrow> Some addr
      | _ \<Rightarrow> None)"

lemmas [rust_eval] = to_digit_def read_number_def read_given_char_def read_separator_def read_ipv4_addr_def
  read_ipv6_addr_def read_port_def read_scope_id_def read_socket_addr_v4_def read_socket_addr_v6_def
  parse_socket_addr_def

section \<open>Workers\<close>

datatype setup_call =
    PollNew
  | RingNew nat
  | SocketNew bool
  | SetReusePort
  | SetReuseAddress
  | SetNonblocking
  | Bind socket_addr
  | Listen nat
  | RegisterListener

datatype 'e start_error = InvalidInput | Os 'e | RingSetup

text \<open>
  A listening socket, as far as the calls on it determine it. \<open>sk_bound\<close> holds the address together with
  the value of \<^verbatim>\<open>SO_REUSEPORT\<close> at the moment of the bind, which is when the system looks at that option:
  with the option unset the second worker could not bind the address.
\<close>

record socket =
  sk_v6 :: bool
  sk_reuse_port :: bool
  sk_reuse_address :: bool
  sk_nonblocking :: bool
  sk_bound :: "(socket_addr \<times> bool) option"
  sk_backlog :: "nat option"
  sk_registered :: bool

definition socket_new :: "bool \<Rightarrow> socket" where
  "socket_new v6 =
     \<lparr>sk_v6 = v6, sk_reuse_port = False, sk_reuse_address = False, sk_nonblocking = False,
      sk_bound = None, sk_backlog = None, sk_registered = False\<rparr>"

fun apply_call :: "setup_call \<Rightarrow> socket \<Rightarrow> socket" where
  "apply_call SetReusePort sk = sk\<lparr>sk_reuse_port := True\<rparr>"
| "apply_call SetReuseAddress sk = sk\<lparr>sk_reuse_address := True\<rparr>"
| "apply_call SetNonblocking sk = sk\<lparr>sk_nonblocking := True\<rparr>"
| "apply_call (Bind addr) sk = sk\<lparr>sk_bound := Some (addr, sk_reuse_port sk)\<rparr>"
| "apply_call (Listen backlog) sk = sk\<lparr>sk_backlog := Some backlog\<rparr>"
| "apply_call RegisterListener sk = sk\<lparr>sk_registered := True\<rparr>"
| "apply_call PollNew sk = sk"
| "apply_call (RingNew n) sk = sk"
| "apply_call (SocketNew v6) sk = sk"

text \<open>A chain of calls on a socket with \<^verbatim>\<open>?\<close>: the first error ends it.\<close>

fun try_calls :: "(setup_call \<Rightarrow> 'e option) \<Rightarrow> setup_call list \<Rightarrow> socket \<Rightarrow> 'e + socket" where
  "try_calls ans [] sk = Inr sk"
| "try_calls ans (c # cs) sk = (case ans c of Some e \<Rightarrow> Inl e | None \<Rightarrow> try_calls ans cs (apply_call c sk))"

definition is_v6 :: "socket_addr \<Rightarrow> bool" where
  "is_v6 addr = (case addr of V4 _ _ \<Rightarrow> False | V6 _ _ _ \<Rightarrow> True)"

definition create_listener_with_reuseport :: "(setup_call \<Rightarrow> 'e option) \<Rightarrow> socket_addr \<Rightarrow> 'e + socket" where
  "create_listener_with_reuseport ans addr =
     (case ans (SocketNew (is_v6 addr)) of
        Some e \<Rightarrow> Inl e
      | None \<Rightarrow>
          try_calls ans [SetReusePort, SetReuseAddress, SetNonblocking, Bind addr, Listen 1024]
            (socket_new (is_v6 addr)))"

text \<open>
  \<^verbatim>\<open>Arc<Storage>\<close>: the stores of the process are a list, an \<open>arc\<close> is the address of one of them. \<^verbatim>\<open>Arc::new\<close>
  allocates a store, \<^verbatim>\<open>Arc::clone\<close> hands out the same address again. The reference count, which nothing
  reads, is left out.
\<close>

type_synonym arc = nat

definition arc_new :: "storage \<Rightarrow> storage list \<Rightarrow> arc \<times> storage list" where
  "arc_new s hp = (length hp, hp @ [s])"

definition arc_clone :: "arc \<Rightarrow> arc" where
  "arc_clone a = a"

definition arc_deref :: "storage list \<Rightarrow> arc \<Rightarrow> storage" where
  "arc_deref hp a = hp ! a"

text \<open>
  The environment: for each worker the answers to its calls, whether its thread could be spawned, and
  for io_uring the memory, the registration and the first submission its set-up asks for;
  \<open>os_handle\<close> is the size of a \<^verbatim>\<open>JoinHandle\<close> in bytes.
\<close>

record 'e os =
  os_call :: "nat \<Rightarrow> setup_call \<Rightarrow> 'e option"
  os_spawn :: "nat \<Rightarrow> 'e option"
  os_ring :: "nat \<Rightarrow> bool \<times> bool \<times> bool \<times> bool"
  os_handle :: nat

text \<open>
  What a worker enters its loop with: its listener, the address of the store, the protocol it serves,
  the limit on values, and its state, in which the store is what the address refers to.
\<close>

record 'w service =
  sv_listener :: socket
  sv_storage :: arc
  sv_protocol :: protocol
  sv_max_value_size :: nat
  sv_worker :: 'w

definition mio_worker_start ::
  "('s, mio_connection) slab_ops \<Rightarrow> 'e os \<Rightarrow> storage list \<Rightarrow> nat \<Rightarrow> socket_addr \<Rightarrow> config \<Rightarrow> arc \<Rightarrow> protocol \<Rightarrow>
   'e start_error + 's mio_worker service" where
  "mio_worker_start S os hp worker_id addr cfg storage protocol =
     (let ans = os_call os worker_id in
      case ans PollNew of
        Some e \<Rightarrow> Inl (Os e)
      | None \<Rightarrow>
          (case create_listener_with_reuseport ans addr of
             Inl e \<Rightarrow> Inl (Os e)
           | Inr listener \<Rightarrow>
               (case try_calls ans [RegisterListener] listener of
                  Inl e \<Rightarrow> Inl (Os e)
                | Inr listener' \<Rightarrow>
                    Inr \<lparr>sv_listener = listener', sv_storage = storage, sv_protocol = protocol,
                         sv_max_value_size = cf_max_value_size cfg,
                         sv_worker = worker_new S (cf_max_connections cfg) (cf_buffer_size cfg)
                                       (arc_deref hp storage)\<rparr>)))"

definition uring_worker_start ::
  "('c, connection) slab_ops \<Rightarrow> ('t, op_type) slab_ops \<Rightarrow> 'e os \<Rightarrow> storage list \<Rightarrow> nat \<Rightarrow> socket_addr \<Rightarrow> config \<Rightarrow> arc \<Rightarrow>
   protocol \<Rightarrow> 'e start_error + ('c, 't) uring_worker service" where
  "uring_worker_start C T os hp worker_id addr cfg storage protocol =
     (let ans = os_call os worker_id in
      case ans (RingNew (cf_ring_size cfg mod 2 ^ 32)) of
        Some e \<Rightarrow> Inl (Os e)
      | None \<Rightarrow>
          (case create_listener_with_reuseport ans addr of
             Inl e \<Rightarrow> Inl (Os e)
           | Inr listener \<Rightarrow>
               (case os_ring os worker_id of
                  (ring_mem, buf_mem, registered, push) \<Rightarrow>
                    (case uring_worker_new C T (cf_max_connections cfg) (cf_buffer_size cfg)
                            (arc_deref hp storage) ring_mem buf_mem registered push of
                       None \<Rightarrow> Inl RingSetup
                     | Some w \<Rightarrow>
                         Inr \<lparr>sv_listener = listener, sv_storage = storage, sv_protocol = protocol,
                              sv_max_value_size = cf_max_value_size cfg, sv_worker = w\<rparr>))))"

section \<open>The server\<close>

text \<open>
  The loop that spawns the workers, each with its clone of the \<open>arc\<close>: an error of a spawn ends it, the
  threads before it run. It returns the worker identifiers of these threads with what was moved into
  their closures.
\<close>

fun spawn_workers :: "(nat \<Rightarrow> 'e option) \<Rightarrow> arc \<Rightarrow> nat list \<Rightarrow> 'e option \<times> (nat \<times> arc) list" where
  "spawn_workers spawn storage [] = (None, [])"
| "spawn_workers spawn storage (worker_id # ids) =
     (let storage' = arc_clone storage in
      case spawn worker_id of
        Some e \<Rightarrow> (Some e, [])
      | None \<Rightarrow> (let (r, started) = spawn_workers spawn storage ids in (r, (worker_id, storage') # started)))"

text \<open>
  \<^verbatim>\<open>run\<close> of both backends, for the function \<open>start\<close> that starts a worker: the result it returns, once the
  threads it waits for have ended, and the workers it started. The error of a worker is logged and
  dropped. \<^verbatim>\<open>Vec::with_capacity\<close> panics when the handles of all the workers asked for take more than
  \<^verbatim>\<open>isize::MAX\<close> bytes.
\<close>

definition run_server ::
  "('e os \<Rightarrow> storage list \<Rightarrow> nat \<Rightarrow> socket_addr \<Rightarrow> config \<Rightarrow> arc \<Rightarrow> protocol \<Rightarrow> 'e start_error + 'w) \<Rightarrow> 'e os \<Rightarrow>
   storage list \<Rightarrow> nat \<Rightarrow> config \<Rightarrow> arc \<Rightarrow> protocol \<Rightarrow>
   ('e start_error + unit) outcome \<times> ('e start_error + 'w) list" where
  "run_server start os hp cpus cfg storage protocol =
     (let n = num_workers cpus cfg in
      case parse_socket_addr (cf_host cfg @ '':'' @ show_nat (unat (cf_port cfg))) of
        None \<Rightarrow> (Returned (Inl InvalidInput), [])
      | Some addr \<Rightarrow>
          if n * os_handle os > i64_max then (Panicked, [])
          else
            (case spawn_workers (os_spawn os) storage [0..<n] of
               (e, started) \<Rightarrow>
                 (Returned (case e of Some e \<Rightarrow> Inl (Os e) | None \<Rightarrow> Inr ()),
                  map (\<lambda>(worker_id, storage'). start os hp worker_id addr cfg storage' protocol) started)))"

text \<open>
  \<^verbatim>\<open>run_mio\<close> and \<^verbatim>\<open>run_uring\<close> of the runtime module allocate the store all workers share; \<open>h\<close> is the hasher
  of its maps. The stores of the process are part of the result.
\<close>

definition run_mio ::
  "('s, mio_connection) slab_ops \<Rightarrow> (bytes \<Rightarrow> nat) \<Rightarrow> 'e os \<Rightarrow> nat \<Rightarrow> config \<Rightarrow>
   ('e start_error + unit) outcome \<times> storage list \<times> ('e start_error + 's mio_worker service) list" where
  "run_mio S h os cpus cfg =
     (let (storage, hp) = arc_new (storage_new h (cf_max_memory cfg) (cf_default_ttl cfg)) [];
          protocol = map_protocol (cf_protocol cfg);
          (r, ws) = run_server (mio_worker_start S) os hp cpus cfg storage protocol
      in (r, hp, ws))"

definition run_uring ::
  "('c, connection) slab_ops \<Rightarrow> ('t, op_type) slab_ops \<Rightarrow> (bytes \<Rightarrow> nat) \<Rightarrow> 'e os \<Rightarrow> nat \<Rightarrow> config \<Rightarrow>
   ('e start_error + unit) outcome \<times> storage list \<times> ('e start_error + ('c, 't) uring_worker service) list" where
  "run_uring C T h os cpus cfg =
     (let (storage, hp) = arc_new (storage_new h (cf_max_memory cfg) (cf_default_ttl cfg)) [];
          protocol = map_protocol (cf_protocol cfg);
          (r, ws) = run_server (uring_worker_start C T) os hp cpus cfg storage protocol
      in (r, hp, ws))"

datatype ('i, 't, 'e) main_error = ConfigFailed "('i, 't) config_error" | RunFailed "'e start_error"

definition run_result :: "('e start_error + unit) outcome \<Rightarrow> (('i, 't, 'e) main_error + unit) outcome" where
  "run_result r =
     (case r of
        Panicked \<Rightarrow> Panicked
      | Returned (Inl e) \<Rightarrow> Returned (Inl (RunFailed e))
      | Returned (Inr u) \<Rightarrow> Returned (Inr u))"

text \<open>
  \<^verbatim>\<open>main\<close>: the configuration, the stores, and the chosen backend, with its workers on the left for mio
  and on the right for io_uring.
\<close>

definition main ::
  "('s, mio_connection) slab_ops \<Rightarrow> ('c, connection) slab_ops \<Rightarrow> ('t, op_type) slab_ops \<Rightarrow> (bytes \<Rightarrow> nat) \<Rightarrow>
   (bytes \<Rightarrow> 'i + bytes) \<Rightarrow> (bytes \<Rightarrow> 'm + toml_given) \<Rightarrow> 'e os \<Rightarrow> nat \<Rightarrow> cli_given \<Rightarrow>
   (('i, 'm, 'e) main_error + unit) outcome \<times> storage list \<times>
   (('e start_error + 's mio_worker service) list + ('e start_error + ('c, 't) uring_worker service) list)" where
  "main S C T h read_to_string from_str os cpus given =
     (case config_load read_to_string from_str given of
        Inl e \<Rightarrow> (Returned (Inl (ConfigFailed e)), [], Inl [])
      | Inr cfg \<Rightarrow>
          (case cf_runtime cfg of
             RtMio \<Rightarrow> (case run_mio S h os cpus cfg of (r, hp, ws) \<Rightarrow> (run_result r, hp, Inl ws))
           | RtIoUring \<Rightarrow> (case run_uring C T h os cpus cfg of (r, hp, ws) \<Rightarrow> (run_result r, hp, Inr ws))))"

lemmas [rust_eval] = socket_new_def create_listener_with_reuseport_def arc_new_def arc_clone_def arc_deref_def is_v6_def

section \<open>Dotted addresses\<close>

definition digit_step :: "nat \<Rightarrow> byte \<Rightarrow> nat" where
  "digit_step n c = 10 * n + (of_char c - 48)"

lemma to_digit_10: "is_digit c \<Longrightarrow> \<exists>d. to_digit 10 c = Some d \<and> r * 10 + d = digit_step r c"
  by (auto simp: is_digit_def to_digit_def digit_step_def Let_def)

lemma digits_grow: "r \<le> foldl digit_step r ds"
proof (induction ds arbitrary: r)
  case (Cons c ds)
  have "r \<le> digit_step r c" by (simp add: digit_step_def)
  also have "\<dots> \<le> foldl digit_step (digit_step r c) ds" by (rule Cons)
  finally show ?case by simp
qed simp

lemma read_digits_run:
  assumes "list_all is_digit ds" "foldl digit_step r ds \<le> lim"
    "case md of Some m \<Rightarrow> n + length ds \<le> m | None \<Rightarrow> True"
    "rest = [] \<or> to_digit 10 (hd rest) = None"
  shows "read_digits 10 lim md r n (ds @ rest) = Some (foldl digit_step r ds, n + length ds, rest)"
  using assms
proof (induction ds arbitrary: r n)
  case Nil
  then show ?case by (cases rest) auto
next
  case (Cons c ds)
  obtain d where d: "to_digit 10 c = Some d" "r * 10 + d = digit_step r c"
    using to_digit_10 [of c r] Cons.prems(1) by auto
  have le: "foldl digit_step (digit_step r c) ds \<le> lim" using Cons.prems(2) by simp
  then have "digit_step r c \<le> lim" by (rule order.trans [OF digits_grow])
  moreover have "\<not> (case md of Some m \<Rightarrow> n + 1 > m | None \<Rightarrow> False)"
    using Cons.prems(3) by (auto split: option.splits)
  ultimately show ?case
    using Cons.IH [OF _ le, of "n + 1"] Cons.prems d by (simp split: option.splits)
qed

lemma show_nat_leading: "0 < n \<Longrightarrow> hd (show_nat n) \<noteq> CHR ''0''"
proof (induction n rule: show_nat.induct)
  case (1 n)
  show ?case
  proof (cases "n < 10")
    case True
    then have "n \<in> {1, 2, 3, 4, 5, 6, 7, 8, 9}" using 1(2) by auto
    then show ?thesis by (subst show_nat.simps) (auto simp: digit_char_def)
  next
    case False
    with 1 show ?thesis by (subst show_nat.simps) (auto simp: hd_append)
  qed
qed

lemma show_nat_length: "n < 10 ^ Suc k \<Longrightarrow> length (show_nat n) \<le> Suc k"
proof (induction k arbitrary: n)
  case 0
  then show ?case by (subst show_nat.simps) simp
next
  case (Suc k)
  show ?case
  proof (cases "n < 10")
    case True
    then show ?thesis by (subst show_nat.simps) simp
  next
    case False
    have "n div 10 < 10 ^ Suc k" using Suc.prems by (simp add: less_mult_imp_div_less)
    with Suc.IH [of "n div 10"] False show ?thesis by (subst show_nat.simps) simp
  qed
qed

lemma read_number_show_nat:
  assumes "n \<le> lim" "case md of Some m \<Rightarrow> length (show_nat n) \<le> m | None \<Rightarrow> True"
    "rest = [] \<or> to_digit 10 (hd rest) = None"
  shows "read_number 10 lim md b (show_nat n @ rest) = Some (n, rest)"
proof -
  have "digit_step = (\<lambda>n c. 10 * n + (of_char c - 48))" by (simp add: fun_eq_iff digit_step_def)
  then have v: "foldl digit_step 0 (show_nat n) = n"
    using show_nat_value [of n] by (simp add: digits_value_def)
  have "read_digits 10 lim md 0 0 (show_nat n @ rest) = Some (n, length (show_nat n), rest)"
    using read_digits_run [of "show_nat n", where r = 0 and n = 0 and lim = lim and md = md and rest = rest] assms show_nat_all_digits [of n]
    by (cases md) (simp_all add: v)
  moreover have "hd (show_nat n) = CHR ''0'' \<Longrightarrow> length (show_nat n) = 1"
    using show_nat_leading [of n] by (cases "n = 0") (auto simp: show_nat.simps [of 0])
  ultimately show ?thesis by (auto simp: read_number_def)
qed

definition dotted :: "nat \<Rightarrow> nat \<Rightarrow> nat \<Rightarrow> nat \<Rightarrow> bytes" where
  "dotted a b c d = show_nat a @ ''.'' @ show_nat b @ ''.'' @ show_nat c @ ''.'' @ show_nat d"

lemma parse_dotted:
  assumes "a < 256" "b < 256" "c < 256" "d < 256"
  shows "parse_socket_addr (dotted a b c d @ '':'' @ show_nat (unat (port :: u16))) = Some (V4 [a, b, c, d] port)"
proof -
  have octet: "read_number 10 255 (Some 3) False (show_nat n @ x # rest) = Some (n, x # rest)"
    if "n < 256" "x = CHR ''.'' \<or> x = CHR '':''" for n x rest
    using that show_nat_length [of n 2] by (intro read_number_show_nat) (auto simp: to_digit_def)
  have "unat port < 2 ^ LENGTH(16)" by (rule unsigned_less)
  then have p: "unat port \<le> 65535" by simp
  have "read_number 10 65535 None True (show_nat (unat port) @ []) = Some (unat port, [])"
    using p by (intro read_number_show_nat) simp_all
  moreover have "read_octets 4 0 = read_octets (Suc (Suc (Suc (Suc 0)))) 0" by (simp add: numeral_eq_Suc)
  ultimately show ?thesis
    using assms
    by (simp add: parse_socket_addr_def read_socket_addr_v4_def read_ipv4_addr_def dotted_def read_separator_def
        read_given_char_def read_port_def octet)
qed

section \<open>Names are not addresses\<close>

text \<open>The bytes an address can consist of: hexadecimal digits, dots, colons, brackets, the percent sign.\<close>

definition addr_char :: "byte \<Rightarrow> bool" where
  "addr_char c =
     (let n = of_char c :: nat
      in 48 \<le> n \<and> n \<le> 57 \<or> 65 \<le> n \<and> n \<le> 70 \<or> 97 \<le> n \<and> n \<le> 102 \<or> n \<in> {46, 58, 91, 93, 37})"

definition reads_addr :: "'a reader \<Rightarrow> bool" where
  "reads_addr p = (\<forall>s a rest. p s = Some (a, rest) \<longrightarrow> (\<exists>u. s = u @ rest \<and> list_all addr_char u))"

lemma reads_addrI:
  "(\<And>s a rest. p s = Some (a, rest) \<Longrightarrow> \<exists>u. s = u @ rest \<and> list_all addr_char u) \<Longrightarrow> reads_addr p"
  by (simp add: reads_addr_def)

lemma reads_addrE:
  assumes "reads_addr p" "p s = Some (a, rest)"
  obtains u where "s = u @ rest" "list_all addr_char u"
  using assms unfolding reads_addr_def by blast

lemma to_digit_addr: "to_digit radix c = Some d \<Longrightarrow> radix \<le> 16 \<Longrightarrow> addr_char c"
  by (auto simp: to_digit_def addr_char_def Let_def split: if_splits option.splits)

lemma read_digits_addr:
  "read_digits radix lim md r n s = Some (r', n', rest) \<Longrightarrow> radix \<le> 16 \<Longrightarrow>
    \<exists>u. s = u @ rest \<and> list_all addr_char u"
proof (induction radix lim md r n s rule: read_digits.induct)
  case (2 radix lim md r n c cs)
  show ?case
  proof (cases "to_digit radix c")
    case None
    with 2 show ?thesis by simp
  next
    case (Some d)
    with 2 obtain u where "cs = u @ rest" "list_all addr_char u" by (auto split: if_splits)
    with to_digit_addr [OF Some 2(3)] show ?thesis by (intro exI [of _ "c # u"]) simp
  qed
qed simp

lemma read_number_addr: "radix \<le> 16 \<Longrightarrow> reads_addr (read_number radix lim md b)"
  by (rule reads_addrI) (auto simp: read_number_def split: option.splits if_splits dest: read_digits_addr)

lemma read_given_char_addr: "addr_char c \<Longrightarrow> reads_addr (read_given_char c)"
  by (rule reads_addrI) (auto simp: read_given_char_def split: list.splits if_splits)

lemma addr_chars [simp]:
  "addr_char (CHR ''.'')" "addr_char (CHR '':'')" "addr_char (CHR ''['')" "addr_char (CHR '']'')" "addr_char (CHR ''%'')"
  by (simp_all add: addr_char_def)

lemma reads_addr_then:
  assumes "reads_addr p" "reads_addr q" "p s = Some (a, r)" "q r = Some (b, r')"
  shows "\<exists>u. s = u @ r' \<and> list_all addr_char u"
proof -
  obtain u v where "s = u @ r" "r = v @ r'" "list_all addr_char u" "list_all addr_char v"
    using assms by (meson reads_addrE)
  then show ?thesis by (intro exI [of _ "u @ v"]) simp
qed

lemma read_separator_addr: "addr_char c \<Longrightarrow> reads_addr p \<Longrightarrow> reads_addr (read_separator c i p)"
proof (rule reads_addrI)
  fix s a rest
  assume a: "addr_char c" "reads_addr p" "read_separator c i p s = Some (a, rest)"
  show "\<exists>u. s = u @ rest \<and> list_all addr_char u"
  proof (cases "i = 0")
    case True
    with a show ?thesis by (auto simp: read_separator_def reads_addr_def)
  next
    case False
    with a obtain x r where "read_given_char c s = Some (x, r)" "p r = Some (a, rest)"
      by (auto simp: read_separator_def split: option.splits)
    with reads_addr_then [OF read_given_char_addr [OF a(1)] a(2)] show ?thesis by blast
  qed
qed

lemma read_octets_addr: "reads_addr (read_octets m i)"
proof (induction m arbitrary: i)
  case 0
  show ?case by (rule reads_addrI) simp
next
  case (Suc m)
  show ?case
  proof (rule reads_addrI)
    fix s as rest
    assume "read_octets (Suc m) i s = Some (as, rest)"
    then obtain a r as' where "read_separator (CHR ''.'') i (read_number 10 255 (Some 3) False) s = Some (a, r)"
      "read_octets m (Suc i) r = Some (as', rest)"
      by (auto split: option.splits)
    then show "\<exists>u. s = u @ rest \<and> list_all addr_char u"
      by (rule reads_addr_then [OF read_separator_addr [OF _ read_number_addr] Suc.IH, rotated 2]) simp_all
  qed
qed

lemma read_ipv4_addr_addr: "reads_addr read_ipv4_addr"
  using read_octets_addr [of 4 0] by (simp add: reads_addr_def read_ipv4_addr_def)

lemma read_groups_addr: "read_groups m i s = (gs, b, rest) \<Longrightarrow> \<exists>u. s = u @ rest \<and> list_all addr_char u"
proof (induction m i s arbitrary: gs b rest rule: read_groups.induct)
  case (2 m i s)
  note v4 = read_separator_addr [OF _ read_ipv4_addr_addr, of "CHR '':''" i]
  note g = read_separator_addr [OF _ read_number_addr, of "CHR '':''" 16 i 65535 "Some 4" True]
  show ?case
  proof (cases "if 0 < m then read_separator (CHR '':'') i read_ipv4_addr s else None")
    case (Some r)
    with 2(2) v4 show ?thesis by (cases r) (auto simp: reads_addr_def split: if_splits)
  next
    case None
    show ?thesis
    proof (cases "read_separator (CHR '':'') i (read_number 16 65535 (Some 4) True) s")
      case n: None
      with None 2(2) show ?thesis by simp
    next
      case s: (Some x)
      obtain a r where x: "x = (a, r)" by fastforce
      obtain gs' b' where r: "read_groups m (Suc i) r = (gs', b', rest)"
        using None s x 2(2) by (auto split: prod.splits)
      obtain u where "s = u @ r" "list_all addr_char u"
        using reads_addrE [OF g s [unfolded x]] by auto
      moreover obtain v where "r = v @ rest" "list_all addr_char v" using 2(1) [OF None s x [symmetric] r] by blast
      ultimately show ?thesis by (intro exI [of _ "u @ v"]) simp
    qed
  qed
qed simp

lemma read_ipv6_addr_addr: "reads_addr read_ipv6_addr"
proof (rule reads_addrI)
  fix s ip rest
  assume a: "read_ipv6_addr s = Some (ip, rest)"
  obtain gs b r where g: "read_groups 8 0 s = (gs, b, r)" by (metis prod_cases3)
  obtain u where u: "s = u @ r" "list_all addr_char u" using read_groups_addr [OF g] by blast
  show "\<exists>u. s = u @ rest \<and> list_all addr_char u"
  proof (cases "length gs = 8")
    case True
    with a g u show ?thesis by (auto simp: read_ipv6_addr_def)
  next
    case False
    then obtain r' ts b' where r: "r = CHR '':'' # CHR '':'' # r'" "read_groups (8 - (length gs + 1)) 0 r' = (ts, b', rest)"
      using a g by (auto simp: read_ipv6_addr_def Let_def split: if_splits list.splits prod.splits)
    obtain v where "r' = v @ rest" "list_all addr_char v" using read_groups_addr [OF r(2)] by blast
    with u r(1) show ?thesis by (intro exI [of _ "u @ CHR '':'' # CHR '':'' # v"]) simp
  qed
qed

lemma read_port_addr: "reads_addr read_port"
proof (rule reads_addrI)
  fix s a rest
  assume "read_port s = Some (a, rest)"
  then obtain r b where "read_given_char (CHR '':'') s = Some ((), r)" "read_number 10 65535 None True r = Some (b, rest)"
    by (auto simp: read_port_def split: option.splits)
  then show "\<exists>u. s = u @ rest \<and> list_all addr_char u"
    by (rule reads_addr_then [OF read_given_char_addr read_number_addr, rotated 2]) simp_all
qed

lemma read_scope_id_addr: "reads_addr read_scope_id"
proof (rule reads_addrI)
  fix s a rest
  assume "read_scope_id s = Some (a, rest)"
  then obtain r where "read_given_char (CHR ''%'') s = Some ((), r)" "read_number 10 (2 ^ 32 - 1) None True r = Some (a, rest)"
    by (auto simp: read_scope_id_def split: option.splits)
  then show "\<exists>u. s = u @ rest \<and> list_all addr_char u"
    by (rule reads_addr_then [OF read_given_char_addr read_number_addr, rotated 2]) simp_all
qed

lemma read_socket_addr_v4_addr: "reads_addr read_socket_addr_v4"
proof (rule reads_addrI)
  fix s a rest
  assume "read_socket_addr_v4 s = Some (a, rest)"
  then obtain ip r p where "read_ipv4_addr s = Some (ip, r)" "read_port r = Some (p, rest)"
    by (auto simp: read_socket_addr_v4_def split: option.splits)
  then show "\<exists>u. s = u @ rest \<and> list_all addr_char u"
    by (rule reads_addr_then [OF read_ipv4_addr_addr read_port_addr])
qed

lemma read_socket_addr_v6_addr: "reads_addr read_socket_addr_v6"
proof (rule reads_addrI)
  fix s a rest
  assume "read_socket_addr_v6 s = Some (a, rest)"
  then obtain s1 ip s2 id s3 s4 p where r: "read_given_char (CHR ''['') s = Some ((), s1)" "read_ipv6_addr s1 = Some (ip, s2)"
    "(case read_scope_id s2 of Some r \<Rightarrow> r | None \<Rightarrow> (0, s2)) = (id, s3)"
    "read_given_char (CHR '']'') s3 = Some ((), s4)" "read_port s4 = Some (p, rest)"
    by (auto simp: read_socket_addr_v6_def split: option.splits prod.splits)
  obtain u1 where 1: "s = u1 @ s2" "list_all addr_char u1"
    using reads_addr_then [OF read_given_char_addr read_ipv6_addr_addr r(1,2)] by auto
  obtain u2 where 2: "s2 = u2 @ s3" "list_all addr_char u2"
  proof (cases "read_scope_id s2")
    case None
    with r(3) show ?thesis by (intro that [of "[]"]) simp_all
  next
    case (Some x)
    with r(3) have "read_scope_id s2 = Some (id, s3)" by simp
    then show ?thesis by (rule reads_addrE [OF read_scope_id_addr]) (rule that)
  qed
  obtain u3 where 3: "s3 = u3 @ rest" "list_all addr_char u3"
    using reads_addr_then [OF read_given_char_addr read_port_addr r(4,5)] by auto
  show "\<exists>u. s = u @ rest \<and> list_all addr_char u"
    using 1 2 3 by (intro exI [of _ "u1 @ u2 @ u3"]) simp
qed

lemma parse_socket_addr_chars: "parse_socket_addr s = Some a \<Longrightarrow> list_all addr_char s"
proof -
  assume "parse_socket_addr s = Some a"
  then have "read_socket_addr_v4 s = Some (a, []) \<or> read_socket_addr_v6 s = Some (a, [])"
    by (auto simp: parse_socket_addr_def split: option.splits list.splits prod.splits)
  then obtain u where "s = u @ []" "list_all addr_char u"
    using reads_addrE [OF read_socket_addr_v4_addr] reads_addrE [OF read_socket_addr_v6_addr] by metis
  then show ?thesis by simp
qed

section \<open>What a start leads to\<close>

lemma spawn_all: "(\<And>i. spawn i = None) \<Longrightarrow> spawn_workers spawn a ids = (None, map (\<lambda>i. (i, a)) ids)"
  by (induction ids) (auto simp: arc_clone_def)

lemma try_calls_fail: "isl (try_calls ans cs sk) \<longleftrightarrow> (\<exists>c\<in>set cs. ans c \<noteq> None)"
  by (induction cs arbitrary: sk) (auto split: option.split)

text \<open>A socket that accepts connections for an address, beside the other workers' sockets.\<close>

definition listening :: "socket_addr \<Rightarrow> bool \<Rightarrow> socket" where
  "listening addr registered =
     \<lparr>sk_v6 = is_v6 addr, sk_reuse_port = True, sk_reuse_address = True, sk_nonblocking = True,
      sk_bound = Some (addr, True), sk_backlog = Some 1024, sk_registered = registered\<rparr>"

lemma listener_created:
  "(\<And>c. ans c = None) \<Longrightarrow> create_listener_with_reuseport ans addr = Inr (listening addr False)"
  by (simp add: create_listener_with_reuseport_def socket_new_def listening_def)

lemma listener_fails: "ans (Bind addr) = Some e \<Longrightarrow> isl (create_listener_with_reuseport ans addr)"
  by (auto simp: create_listener_with_reuseport_def try_calls_fail split: option.split)

text \<open>
  C18. A start that succeeds. When the configuration loads, its host is a dotted IPv4 address, the
  handles of the workers fit a vector and the system grants every call, \<^verbatim>\<open>main\<close> allocates exactly one store,
  empty and with the configured limits, and starts exactly the number of workers asked for, or one per
  processor when none is asked for. Every worker refers to that store, by its address; its listener is a
  nonblocking socket bound to the parsed address, with \<^verbatim>\<open>SO_REUSEPORT\<close> set before the bind and a backlog of 1024,
  registered with the poll in mio; it has room for 10000 connections in buffers of 64 KiB and serves the
  configured protocol with its limit on values.
\<close>

theorem server_starts:
  fixes os :: "'e os" and rd :: "bytes \<Rightarrow> 'i + bytes" and fs :: "bytes \<Rightarrow> 'm + toml_given"
  assumes "config_load rd fs given = Inr cfg" "cf_host cfg = dotted a b c d" "a < 256" "b < 256" "c < 256" "d < 256"
    and "num_workers cpus cfg * os_handle os \<le> i64_max"
    and "\<And>i call. os_call os i call = None" "\<And>i. os_spawn os i = None" "\<And>i. os_ring os i = (True, True, True, True)"
  shows "let n = (if cf_workers cfg = 0 then cpus else cf_workers cfg);
             s = storage_new h (cf_max_memory cfg) (cf_default_ttl cfg);
             addr = V4 [a, b, c, d] (cf_port cfg);
             (r, hp, started) = main S C T h rd fs os cpus given
    in r = Returned (Inr ()) \<and> hp = [s]
      \<and> (case started of
            Inl ws \<Rightarrow> cf_runtime cfg = RtMio \<and>
              ws = replicate n (Inr
                \<lparr>sv_listener = listening addr True, sv_storage = 0, sv_protocol = map_protocol (cf_protocol cfg),
                 sv_max_value_size = cf_max_value_size cfg, sv_worker = worker_new S 10000 65536 s\<rparr>)
          | Inr ws \<Rightarrow> cf_runtime cfg = RtIoUring \<and>
              (\<exists>w. uring_worker_new C T 10000 65536 s True True True True = Some w
                \<and> ws = replicate n (Inr
                    \<lparr>sv_listener = listening addr False, sv_storage = 0, sv_protocol = map_protocol (cf_protocol cfg),
                     sv_max_value_size = cf_max_value_size cfg, sv_worker = w\<rparr>)))"
proof -
  let ?s = "storage_new h (cf_max_memory cfg) (cf_default_ttl cfg)" and ?addr = "V4 [a, b, c, d] (cf_port cfg)"
  have addr: "parse_socket_addr (cf_host cfg @ '':'' @ show_nat (unat (cf_port cfg))) = Some ?addr"
    using assms(2-6) by (simp only: parse_dotted)
  have limits: "cf_max_connections cfg = 10000" "cf_buffer_size cfg = 65536" using loaded_limits [OF assms(1)] by auto
  note listener = listener_created [OF assms(8)]
  have "uring_worker_new C T 10000 65536 ?s True True True True \<noteq> None"
    by (simp add: uring_worker_new_def buf_ring_new_def layout_ok_def loaded_ring submit_accept_def submit_def
        split: prod.split)
  then obtain w where w: "uring_worker_new C T 10000 65536 ?s True True True True = Some w" by blast
  have run: "run_server start os hp cpus cfg st p
      = (Returned (Inr ()), map (\<lambda>i. start os hp i ?addr cfg st p) [0..<num_workers cpus cfg])"
    for start :: "'e os \<Rightarrow> storage list \<Rightarrow> nat \<Rightarrow> socket_addr \<Rightarrow> config \<Rightarrow> arc \<Rightarrow> protocol \<Rightarrow> 'e start_error + 'w" and hp st p
    using addr spawn_all [OF assms(9)] assms(7) by (simp add: run_server_def)
  have mio: "mio_worker_start S os [?s] i ad cfg 0 p = Inr
      \<lparr>sv_listener = listening ad True, sv_storage = 0, sv_protocol = p, sv_max_value_size = cf_max_value_size cfg,
       sv_worker = worker_new S 10000 65536 ?s\<rparr>" for i ad p
    using assms(8) by (simp add: mio_worker_start_def listener limits arc_deref_def listening_def)
  have uring: "uring_worker_start C T os [?s] i ad cfg 0 p = Inr
      \<lparr>sv_listener = listening ad False, sv_storage = 0, sv_protocol = p, sv_max_value_size = cf_max_value_size cfg,
       sv_worker = w\<rparr>" for i ad p
    using assms(8,10) by (simp add: uring_worker_start_def listener limits arc_deref_def w)
  show ?thesis
    by (cases "cf_runtime cfg")
      (simp_all add: main_def run_mio_def run_uring_def assms(1) run run_result_def arc_new_def mio uring w
        map_replicate_const num_workers_def)
qed

text \<open>An example: two workers asked for, everything else as by default.\<close>

definition two_workers :: cli_given where
  "two_workers =
     \<lparr>cg_config = None, cg_listen = None, cg_max_memory = None, cg_default_ttl = None, cg_workers = Some 2,
      cg_log_level = None, cg_protocol = None, cg_runtime = None, cg_max_value_size = None\<rparr>"

lemma two_workers_load:
  "\<exists>cfg. config_load rd fs two_workers = Inr cfg \<and> cf_host cfg = dotted 127 0 0 1 \<and> cf_port cfg = 11211
    \<and> cf_workers cfg = 2 \<and> cf_runtime cfg = RtMio \<and> cf_max_memory cfg = 67108864 \<and> cf_default_ttl cfg = 0
    \<and> cf_protocol cfg = PtMemcached \<and> cf_max_value_size cfg = 8388608"
proof -
  have "dotted 127 0 0 1 = ''127.0.0.1''" by (simp add: dotted_def rust_eval)
  then show ?thesis
    by (simp add: two_workers_def config_load_def load_toml_def parse_cli_def toml_default_def
        server_default_def storage_default_def default_listen_def default_max_memory_def default_max_value_size_def protocol_default_def parse_listen_address_def
        rsplit_once_def merge_def rust_eval)
qed

theorem server_starts_witness:
  "let rd = \<lambda>_ :: bytes. Inl () :: unit + bytes; fs = \<lambda>_ :: bytes. Inl () :: unit + toml_given;
       os = \<lparr>os_call = \<lambda>_ _. None, os_spawn = \<lambda>_. None, os_ring = \<lambda>_. (True, True, True, True), os_handle = 24\<rparr> :: unit os;
       s = storage_new length 67108864 0;
       w = \<lparr>sv_listener = listening (V4 [127, 0, 0, 1] 11211) True, sv_storage = 0, sv_protocol = ProtoMemcached,
            sv_max_value_size = 8388608, sv_worker = worker_new vec_slab 10000 65536 s\<rparr>
   in main vec_slab vec_slab vec_slab length rd fs os 4 two_workers = (Returned (Inr ()), [s], Inl [Inr w, Inr w])"
proof -
  let ?rd = "\<lambda>_ :: bytes. Inl () :: unit + bytes" and ?fs = "\<lambda>_ :: bytes. Inl () :: unit + toml_given"
  let ?os = "\<lparr>os_call = \<lambda>_ _. None, os_spawn = \<lambda>_. None, os_ring = \<lambda>_. (True, True, True, True), os_handle = 24\<rparr> :: unit os"
  obtain cfg where cfg: "config_load ?rd ?fs two_workers = Inr cfg" "cf_host cfg = dotted 127 0 0 1"
    "cf_port cfg = 11211" "cf_workers cfg = 2" "cf_runtime cfg = RtMio" "cf_max_memory cfg = 67108864"
    "cf_default_ttl cfg = 0" "cf_protocol cfg = PtMemcached" "cf_max_value_size cfg = 8388608"
    using two_workers_load by blast
  have fits: "num_workers 4 cfg * os_handle ?os \<le> i64_max" by (simp add: num_workers_def cfg(4) i64_max_def)
  note r = server_starts [OF cfg(1,2) _ _ _ _ fits, of length vec_slab vec_slab vec_slab]
  have two: "replicate 2 x = [x, x]" for x :: 'x by (simp add: numeral_2_eq_2)
  show ?thesis
    using r cfg(3-9) unfolding Let_def
    by (cases "main vec_slab vec_slab vec_slab length ?rd ?fs ?os 4 two_workers") (auto simp: two split: sum.splits)
qed

text \<open>
  A host that is a name passes the configuration, which only looks for a colon and a port, and is
  refused by \<^verbatim>\<open>run\<close>: no worker starts. The same holds for an IPv6 address without brackets.
\<close>

lemma host_name_refused:
  assumes "config_load rd fs given = Inr cfg" "\<not> list_all addr_char (cf_host cfg)"
  shows "fst (main S C T h rd fs os cpus given) = Returned (Inl (RunFailed InvalidInput))
    \<and> (case snd (snd (main S C T h rd fs os cpus given)) of Inl ws \<Rightarrow> ws = [] | Inr ws \<Rightarrow> ws = [])"
proof -
  have "parse_socket_addr (cf_host cfg @ '':'' @ show_nat (unat (cf_port cfg))) = None"
    using parse_socket_addr_chars [of "cf_host cfg @ '':'' @ show_nat (unat (cf_port cfg))"] assms(2)
    by (cases "parse_socket_addr (cf_host cfg @ '':'' @ show_nat (unat (cf_port cfg)))") auto
  then show ?thesis
    by (cases "cf_runtime cfg")
      (simp_all add: main_def assms(1) run_mio_def run_uring_def run_server_def run_result_def arc_new_def)
qed

text \<open>
  C38. A start that fails unnoticed. When no worker can bind the address (the port is in use, say), every
  worker ends with the error, which is only logged; \<^verbatim>\<open>run\<close> waits for them and returns \<^verbatim>\<open>Ok\<close>, and so does \<^verbatim>\<open>main\<close>: the
  process serves nobody and exits as if all was well. This holds for both backends, and whenever the
  configuration loads, the address is well-formed and the threads can be spawned. The one exception is
  a number of workers whose handles do not fit a vector: \<^verbatim>\<open>run\<close> then panics before it starts any.
\<close>

theorem startup_failure_ignored:
  assumes "config_load rd fs given = Inr cfg"
    "parse_socket_addr (cf_host cfg @ '':'' @ show_nat (unat (cf_port cfg))) = Some addr"
    "\<And>i. os_spawn os i = None" "\<And>i. os_call os i (Bind addr) = Some e"
  shows "let (r, hp, started) = main S C T h rd fs os cpus given;
             n = num_workers cpus cfg
    in if n * os_handle os \<le> i64_max
       then r = Returned (Inr ())
         \<and> (case started of
               Inl ws \<Rightarrow> list_all isl ws \<and> length ws = n
             | Inr ws \<Rightarrow> list_all isl ws \<and> length ws = n)
       else r = Panicked \<and> (started = Inl [] \<or> started = Inr [])"
proof -
  have "isl (mio_worker_start S os hp i addr cfg s p)" for hp s p i
    using listener_fails [of "os_call os i" addr e, OF assms(4)]
    by (auto simp: mio_worker_start_def Let_def split: option.split sum.splits)
  moreover have "isl (uring_worker_start C T os hp i addr cfg s p)" for hp s p i
    using listener_fails [of "os_call os i" addr e, OF assms(4)]
    by (auto simp: uring_worker_start_def Let_def split: option.split sum.splits)
  moreover have "spawn_workers (os_spawn os) s ids = (None, map (\<lambda>i. (i, s)) ids)" for s ids
    using assms(3) by (rule spawn_all)
  ultimately show ?thesis
    using assms(1,2)
    by (cases "cf_runtime cfg"; cases "num_workers cpus cfg * os_handle os \<le> i64_max")
      (simp_all add: main_def run_mio_def run_uring_def run_server_def run_result_def arc_new_def list_all_iff Let_def)
qed

theorem startup_failure_ignored_witness:
  "let rd = \<lambda>_ :: bytes. Inl () :: unit + bytes; fs = \<lambda>_ :: bytes. Inl () :: unit + toml_given;
       os = \<lparr>os_call = \<lambda>_ c. case c of Bind _ \<Rightarrow> Some () | _ \<Rightarrow> None, os_spawn = \<lambda>_. None,
             os_ring = \<lambda>_. (True, True, True, True), os_handle = 24\<rparr> :: unit os
   in fst (main vec_slab vec_slab vec_slab length rd fs os 4 two_workers) = Returned (Inr ())"
proof -
  let ?rd = "\<lambda>_ :: bytes. Inl () :: unit + bytes" and ?fs = "\<lambda>_ :: bytes. Inl () :: unit + toml_given"
  let ?os = "\<lparr>os_call = \<lambda>_ c. case c of Bind _ \<Rightarrow> Some () | _ \<Rightarrow> None, os_spawn = \<lambda>_. None,
    os_ring = \<lambda>_. (True, True, True, True), os_handle = 24\<rparr> :: unit os"
  obtain cfg where cfg: "config_load ?rd ?fs two_workers = Inr cfg" "cf_host cfg = dotted 127 0 0 1" "cf_workers cfg = 2"
    using two_workers_load by blast
  have fits: "num_workers 4 cfg * os_handle ?os \<le> i64_max" by (simp add: num_workers_def cfg(3) i64_max_def)
  have "parse_socket_addr (cf_host cfg @ '':'' @ show_nat (unat (cf_port cfg))) = Some (V4 [127, 0, 0, 1] (cf_port cfg))"
    unfolding cfg(2) by (rule parse_dotted) simp_all
  from startup_failure_ignored [OF cfg(1) this, of ?os "()" vec_slab vec_slab vec_slab length 4] fits
  show ?thesis
    by (cases "main vec_slab vec_slab vec_slab length ?rd ?fs ?os 4 two_workers") (simp add: Let_def)
qed

end
