(* ===== verification/Storage_Tests.thy ===== *)
theory Storage_Tests
  imports Storage_Correct
begin

text \<open>
  The unit tests of \<^verbatim>\<open>src/src/storage.rs\<close>, evaluated on the model. Each test is a definition that
  makes the calls of the test function, in its order, and is the conjunction of its assertions. The
  tests are stated for every hash function \<open>h\<close>; consecutive calls read the clock at 0, 1, 2 and so
  on, in nanoseconds.
\<close>

section \<open>The tests\<close>

text \<open>\<^verbatim>\<open>storage.get(key).unwrap()\<close> followed by an assertion on the item.\<close>

definition some_item :: "(cache_item \<Rightarrow> bool) \<Rightarrow> cache_item option \<Rightarrow> bool" where
  "some_item P r = (case r of Some item \<Rightarrow> P item | None \<Rightarrow> False)"

definition test_basic_set_get :: "(bytes \<Rightarrow> nat) \<Rightarrow> bool" where
  "test_basic_set_get h =
     (let s = storage_new h (1024 * 1024) 0;
          (s1, result) = set_item 0 ''key1'' ''value1'' 0 0 s;
          (s2, item) = get 1 ''key1'' s1
      in result = Returned Stored \<and>
         some_item (\<lambda>item. ci_value item = ''value1'' \<and> ci_flags item = 0) item)"

definition test_get_nonexistent :: "(bytes \<Rightarrow> nat) \<Rightarrow> bool" where
  "test_get_nonexistent h =
     (let s = storage_new h (1024 * 1024) 0 in snd (get 0 ''nonexistent'' s) = None)"

definition test_delete :: "(bytes \<Rightarrow> nat) \<Rightarrow> bool" where
  "test_delete h =
     (let s = storage_new h (1024 * 1024) 0;
          (s1, _) = set_item 0 ''key1'' ''value1'' 0 0 s;
          (s2, item) = get 1 ''key1'' s1;
          (s3, result) = delete ''key1'' s2;
          (s4, item') = get 3 ''key1'' s3;
          (s5, result') = delete ''key1'' s4
      in item \<noteq> None \<and> result = Returned Deleted \<and> item' = None \<and> result' = Returned NotFound)"

definition test_add_existing :: "(bytes \<Rightarrow> nat) \<Rightarrow> bool" where
  "test_add_existing h =
     (let s = storage_new h (1024 * 1024) 0;
          (s1, _) = set_item 0 ''key1'' ''value1'' 0 0 s;
          (s2, result) = add 1 ''key1'' ''value2'' 0 0 s1;
          (s3, item) = get 2 ''key1'' s2
      in result = Returned NotStored \<and> some_item (\<lambda>item. ci_value item = ''value1'') item)"

definition test_add_new :: "(bytes \<Rightarrow> nat) \<Rightarrow> bool" where
  "test_add_new h =
     (let s = storage_new h (1024 * 1024) 0;
          (s1, result) = add 0 ''key1'' ''value1'' 0 0 s;
          (s2, item) = get 1 ''key1'' s1
      in result = Returned Stored \<and> some_item (\<lambda>item. ci_value item = ''value1'') item)"

definition test_replace_existing :: "(bytes \<Rightarrow> nat) \<Rightarrow> bool" where
  "test_replace_existing h =
     (let s = storage_new h (1024 * 1024) 0;
          (s1, _) = set_item 0 ''key1'' ''value1'' 0 0 s;
          (s2, result) = replace 1 ''key1'' ''value2'' 0 0 s1;
          (s3, item) = get 2 ''key1'' s2
      in result = Returned Stored \<and> some_item (\<lambda>item. ci_value item = ''value2'') item)"

definition test_replace_nonexistent :: "(bytes \<Rightarrow> nat) \<Rightarrow> bool" where
  "test_replace_nonexistent h =
     (let s = storage_new h (1024 * 1024) 0
      in snd (replace 0 ''key1'' ''value1'' 0 0 s) = Returned NotStored)"

definition test_cas_success :: "(bytes \<Rightarrow> nat) \<Rightarrow> bool" where
  "test_cas_success h =
     (let s = storage_new h (1024 * 1024) 0;
          (s1, _) = set_item 0 ''key1'' ''value1'' 0 0 s;
          (s2, item) = get 1 ''key1'' s1
      in some_item (\<lambda>item.
           let (s3, result) = cas 2 ''key1'' ''value2'' 0 0 (ci_cas_unique item) s2;
               (s4, item') = get 3 ''key1'' s3
           in result = Returned Stored \<and> some_item (\<lambda>item. ci_value item = ''value2'') item') item)"

definition test_cas_mismatch :: "(bytes \<Rightarrow> nat) \<Rightarrow> bool" where
  "test_cas_mismatch h =
     (let s = storage_new h (1024 * 1024) 0;
          (s1, _) = set_item 0 ''key1'' ''value1'' 0 0 s;
          (s2, item) = get 1 ''key1'' s1;
          (s3, _) = set_item 2 ''key1'' ''value2'' 0 0 s2
      in some_item (\<lambda>item.
           let (s4, result) = cas 3 ''key1'' ''value3'' 0 0 (ci_cas_unique item) s3;
               (s5, item') = get 4 ''key1'' s4
           in result = Returned CasMismatch \<and> some_item (\<lambda>item. ci_value item = ''value2'') item') item)"

definition test_cas_not_found :: "(bytes \<Rightarrow> nat) \<Rightarrow> bool" where
  "test_cas_not_found h =
     (let s = storage_new h (1024 * 1024) 0
      in snd (cas 0 ''nonexistent'' ''value'' 0 0 1 s) = Returned NotFound)"

text \<open>The test sleeps for 1100 milliseconds before its last call.\<close>

definition test_expiration :: "(bytes \<Rightarrow> nat) \<Rightarrow> bool" where
  "test_expiration h =
     (let s = storage_new h (1024 * 1024) 0;
          (s1, _) = set_item 0 ''key1'' ''value1'' 0 1 s;
          (s2, item) = get 1 ''key1'' s1;
          (s3, item') = get (1 + 1100 * 10 ^ 6) ''key1'' s2
      in item \<noteq> None \<and> item' = None)"

text \<open>The loop of the test, as the operations it makes.\<close>

definition test_memory_limit :: "(bytes \<Rightarrow> nat) \<Rightarrow> bool" where
  "test_memory_limit h =
     (let s = storage_new h 500 0;
          s1 = fst (run storage_step
                 (map (\<lambda>i. OSet i (''key'' @ show_nat i) (replicate 50 (CHR 0x00)) 0 0) [0..<20]) s)
      in (case stats s1 of Returned st \<Rightarrow> ss_memory_used st \<le> 500 | Panicked \<Rightarrow> False))"

definition test_get_multi :: "(bytes \<Rightarrow> nat) \<Rightarrow> bool" where
  "test_get_multi h =
     (let s = storage_new h (1024 * 1024) 0;
          (s1, _) = set_item 0 ''key1'' ''value1'' 0 0 s;
          (s2, _) = set_item 1 ''key2'' ''value2'' 0 0 s1;
          (s3, _) = set_item 2 ''key3'' ''value3'' 0 0 s2
      in (case snd (get_multi 3 [''key1'', ''key2'', ''nonexistent''] s3) of
            Returned results \<Rightarrow> length results = 2
          | Panicked \<Rightarrow> False))"

definition test_append :: "(bytes \<Rightarrow> nat) \<Rightarrow> bool" where
  "test_append h =
     (let s = storage_new h (1024 * 1024) 0;
          (s1, _) = set_item 0 ''key1'' ''Hello'' 0 0 s;
          (s2, result) = append_item 1 ''key1'' '' World'' s1;
          (s3, item) = get 2 ''key1'' s2
      in result = Returned Stored \<and> some_item (\<lambda>item. ci_value item = ''Hello World'') item)"

definition test_prepend :: "(bytes \<Rightarrow> nat) \<Rightarrow> bool" where
  "test_prepend h =
     (let s = storage_new h (1024 * 1024) 0;
          (s1, _) = set_item 0 ''key1'' ''World'' 0 0 s;
          (s2, result) = prepend_item 1 ''key1'' ''Hello '' s1;
          (s3, item) = get 2 ''key1'' s2
      in result = Returned Stored \<and> some_item (\<lambda>item. ci_value item = ''Hello World'') item)"

definition test_flush_all :: "(bytes \<Rightarrow> nat) \<Rightarrow> bool" where
  "test_flush_all h =
     (let s = storage_new h (1024 * 1024) 0;
          (s1, _) = set_item 0 ''key1'' ''value1'' 0 0 s;
          (s2, _) = set_item 1 ''key2'' ''value2'' 0 0 s1;
          (s3, _) = flush_all s2;
          (s4, item1) = get 3 ''key1'' s3;
          (s5, item2) = get 4 ''key2'' s4
      in item1 = None \<and> item2 = None \<and>
         (case stats s5 of
            Returned st \<Rightarrow> ss_item_count st = 0 \<and> ss_memory_used st = 0
          | Panicked \<Rightarrow> False))"

section \<open>They pass\<close>

lemma set_run_usable:
  assumes "\<not> st_poisoned s" "st_default_ttl s = 0"
  shows "\<not> st_poisoned (fst (run storage_step (map (\<lambda>i. OSet i (k i) v 0 0) is) s))
    \<and> st_max_memory (fst (run storage_step (map (\<lambda>i. OSet i (k i) v 0 0) is) s)) = st_max_memory s"
  using assms
proof (induction "is" arbitrary: s)
  case (Cons i "is")
  have "calculate_expiry i 0 s = Returned None" using Cons.prems by (simp add: calculate_expiry_def)
  note ok = set_item_ok [OF Cons.prems(1) this, of "k i" v 0]
  with Cons show ?case by (simp add: run_Cons_fst del: run.simps(2))
qed simp

lemma admissible_sets:
  assumes "st_max_memory s = 500" "\<forall>i\<in>set is. length (k i) \<le> 100" "length v = 50"
  shows "admissible storage_step fits (map (\<lambda>i. OSet i (k i) v 0 0) is) s"
proof -
  have "st_max_memory (fst (set_item now k v f ttl s)) = st_max_memory s" for now k v f ttl s
    by (auto simp: set_item_def next_cas_unique_def Let_def split: outcome.split option.split)
  then show ?thesis
    using assms by (induction "is" arbitrary: s) (auto simp: size_of_cache_item_def)
qed

lemma short_numbers: "i < 20 \<Longrightarrow> length (show_nat i) \<le> 2"
  by (subst show_nat.simps) (auto simp: show_nat.simps)

lemma memory_limit_passes: "test_memory_limit h"
proof -
  let ?ops = "map (\<lambda>i. OSet i (''key'' @ show_nat i) (replicate 50 (CHR 0x00)) 0 0) [0..<20]"
  let ?s = "fst (run storage_step ?ops (storage_new h 500 0))"
  have "within_cap ?s"
    by (rule cap.inv_run)
      (use short_numbers storage_new_inv [of h 500 0] in
        \<open>auto simp: within_cap_def storage_new_def total_size_def intro!: admissible_sets\<close>,
       fastforce dest: short_numbers)
  then have "unat (st_memory_used ?s) \<le> st_max_memory ?s"
    using mem_exact_unat [of ?s] by (simp add: within_cap_def storage_inv_def)
  moreover have "\<not> st_poisoned ?s \<and> st_max_memory ?s = st_max_memory (storage_new h 500 0)"
    by (rule set_run_usable) (simp_all add: storage_new_def)
  moreover have "st_max_memory (storage_new h 500 0) = 500" by (simp add: storage_new_def)
  ultimately show ?thesis unfolding test_memory_limit_def Let_def stats_def by simp
qed

lemma storage_tests_pass:
  "test_basic_set_get h" "test_get_nonexistent h" "test_delete h" "test_add_existing h" "test_add_new h"
  "test_replace_existing h" "test_replace_nonexistent h" "test_cas_success h" "test_cas_mismatch h"
  "test_cas_not_found h" "test_expiration h" "test_get_multi h" "test_append h" "test_prepend h"
  "test_flush_all h"
  by (simp_all add: test_basic_set_get_def test_get_nonexistent_def test_delete_def test_add_existing_def
      test_add_new_def test_replace_existing_def test_replace_nonexistent_def test_cas_success_def
      test_cas_mismatch_def test_cas_not_found_def test_expiration_def test_get_multi_def test_append_def
      test_prepend_def test_flush_all_def some_item_def stats_def storage_eval)

end
