(* ===== verification/Protocol_Tests.thy ===== *)
theory Protocol_Tests
  imports Memcached Resp Ping Echo
begin

text \<open>
  The unit tests of the four protocols, \<^verbatim>\<open>src/src/protocols/*/parser.rs\<close>, evaluated on the model. Each
  definition is one test function: the input it parses or the value it prints, and the conjunction of
  its assertions; a match that the test ends with \<^verbatim>\<open>panic!\<close> is \<open>False\<close>. They are stated for every Unicode
  case table \<open>U\<close> and every size \<open>fsz\<close> of a frame.
\<close>

section \<open>Memcached\<close>

definition test_parse_get :: "unicode \<Rightarrow> bool" where
  "test_parse_get U =
     (case mc_parse U (''get key1 key2 key3'' @ crlf) of
        Complete (Get keys) bytes \<Rightarrow> keys = [''key1'', ''key2'', ''key3''] \<and> bytes = 20
      | _ \<Rightarrow> False)"

definition test_parse_gets :: "unicode \<Rightarrow> bool" where
  "test_parse_gets U =
     (case mc_parse U (''gets key1'' @ crlf) of Complete (Gets keys) _ \<Rightarrow> keys = [''key1''] | _ \<Rightarrow> False)"

definition test_parse_set :: "unicode \<Rightarrow> bool" where
  "test_parse_set U =
     (case mc_parse U (''set mykey 0 3600 5'' @ crlf) of
        NeedData command_bytes data_bytes \<Rightarrow> command_bytes = 20 \<and> data_bytes = 5
      | _ \<Rightarrow> False)"

definition test_parse_set_with_data :: "unicode \<Rightarrow> bool" where
  "test_parse_set_with_data U =
     (case parse_with_data U (''set mykey 0 3600 5'' @ crlf @ ''hello'' @ crlf) of
        Returned (Complete (Set key flags exptime bytes noreply) total_bytes) \<Rightarrow>
          key = ''mykey'' \<and> flags = 0 \<and> exptime = 3600 \<and> bytes = 5 \<and> \<not> noreply \<and> total_bytes = 27
      | _ \<Rightarrow> False)"

definition test_parse_set_noreply :: "unicode \<Rightarrow> bool" where
  "test_parse_set_noreply U =
     (case parse_with_data U (''set mykey 0 3600 5 noreply'' @ crlf @ ''hello'' @ crlf) of
        Returned (Complete (Set key flags exptime bytes noreply) _) \<Rightarrow> noreply
      | _ \<Rightarrow> False)"

definition test_parse_cas :: "unicode \<Rightarrow> bool" where
  "test_parse_cas U =
     (case parse_with_data U (''cas mykey 0 3600 5 12345'' @ crlf @ ''hello'' @ crlf) of
        Returned (Complete (Cas key flags exptime bytes cas_unique noreply) _) \<Rightarrow>
          key = ''mykey'' \<and> cas_unique = 12345
      | _ \<Rightarrow> False)"

definition test_parse_delete :: "unicode \<Rightarrow> bool" where
  "test_parse_delete U =
     (case mc_parse U (''delete mykey'' @ crlf) of
        Complete (Delete key noreply) _ \<Rightarrow> key = ''mykey'' \<and> \<not> noreply | _ \<Rightarrow> False)"

definition test_parse_delete_noreply :: "unicode \<Rightarrow> bool" where
  "test_parse_delete_noreply U =
     (case mc_parse U (''delete mykey noreply'' @ crlf) of
        Complete (Delete key noreply) _ \<Rightarrow> key = ''mykey'' \<and> noreply | _ \<Rightarrow> False)"

definition test_parse_flush_all :: "unicode \<Rightarrow> bool" where
  "test_parse_flush_all U =
     (case mc_parse U (''flush_all'' @ crlf) of
        Complete (FlushAll delay noreply) _ \<Rightarrow> delay = 0 \<and> \<not> noreply | _ \<Rightarrow> False)"

definition test_parse_flush_all_with_delay :: "unicode \<Rightarrow> bool" where
  "test_parse_flush_all_with_delay U =
     (case mc_parse U (''flush_all 30'' @ crlf) of
        Complete (FlushAll delay noreply) _ \<Rightarrow> delay = 30 | _ \<Rightarrow> False)"

definition test_parse_stats :: "unicode \<Rightarrow> bool" where
  "test_parse_stats U = (case mc_parse U (''stats'' @ crlf) of Complete Stats _ \<Rightarrow> True | _ \<Rightarrow> False)"

definition test_parse_version :: "unicode \<Rightarrow> bool" where
  "test_parse_version U = (case mc_parse U (''version'' @ crlf) of Complete Version _ \<Rightarrow> True | _ \<Rightarrow> False)"

definition test_parse_quit :: "unicode \<Rightarrow> bool" where
  "test_parse_quit U = (case mc_parse U (''quit'' @ crlf) of Complete Quit _ \<Rightarrow> True | _ \<Rightarrow> False)"

definition test_parse_incomplete :: "unicode \<Rightarrow> bool" where
  "test_parse_incomplete U = (case mc_parse U ''get key'' of Error Incomplete \<Rightarrow> True | _ \<Rightarrow> False)"

definition test_parse_unknown_command :: "unicode \<Rightarrow> bool" where
  "test_parse_unknown_command U =
     (case mc_parse U (''unknown command'' @ crlf) of
        Error (UnknownCommand cmd) \<Rightarrow> cmd = ''unknown'' | _ \<Rightarrow> False)"

definition test_response_value :: bool where
  "test_response_value =
     (response_value ''key1'' 0 ''hello'' None = ''VALUE key1 0 5'' @ crlf @ ''hello'' @ crlf)"

definition test_response_value_with_cas :: bool where
  "test_response_value_with_cas =
     (response_value ''key1'' 0 ''hello'' (Some 12345) = ''VALUE key1 0 5 12345'' @ crlf @ ''hello'' @ crlf)"

definition test_key_too_long :: "unicode \<Rightarrow> bool" where
  "test_key_too_long U =
     (let long_key = replicate (max_key_length + 1) (CHR ''k'')
      in (case mc_parse U (''get '' @ long_key @ crlf) of Error (KeyTooLong _) \<Rightarrow> True | _ \<Rightarrow> False))"

definition test_parse_incr :: "unicode \<Rightarrow> bool" where
  "test_parse_incr U =
     (case mc_parse U (''incr counter 5'' @ crlf) of
        Complete (Incr key value noreply) _ \<Rightarrow> key = ''counter'' \<and> value = 5 \<and> \<not> noreply | _ \<Rightarrow> False)"

definition test_parse_decr :: "unicode \<Rightarrow> bool" where
  "test_parse_decr U =
     (case mc_parse U (''decr counter 3 noreply'' @ crlf) of
        Complete (Decr key value noreply) _ \<Rightarrow> key = ''counter'' \<and> value = 3 \<and> noreply | _ \<Rightarrow> False)"

section \<open>RESP\<close>

definition test_parse_simple_string :: "nat \<Rightarrow> bool" where
  "test_parse_simple_string fsz =
     (case resp_parse fsz (''+OK'' @ crlf) of
        RespComplete (Simple s) consumed \<Rightarrow> s = ''OK'' \<and> consumed = 5 | _ \<Rightarrow> False)"

definition test_parse_error :: "nat \<Rightarrow> bool" where
  "test_parse_error fsz =
     (case resp_parse fsz (''-ERR unknown command'' @ crlf) of
        RespComplete (ErrorF s) consumed \<Rightarrow> s = ''ERR unknown command'' \<and> consumed = 22 | _ \<Rightarrow> False)"

definition test_parse_integer :: "nat \<Rightarrow> bool" where
  "test_parse_integer fsz =
     (case resp_parse fsz ('':1000'' @ crlf) of
        RespComplete (Integer n) consumed \<Rightarrow> n = 1000 \<and> consumed = 7 | _ \<Rightarrow> False)"

definition test_parse_negative_integer :: "nat \<Rightarrow> bool" where
  "test_parse_negative_integer fsz =
     (case resp_parse fsz ('':-42'' @ crlf) of RespComplete (Integer n) _ \<Rightarrow> n = -42 | _ \<Rightarrow> False)"

definition test_parse_bulk_string :: "nat \<Rightarrow> bool" where
  "test_parse_bulk_string fsz =
     (case resp_parse fsz (''$5'' @ crlf @ ''hello'' @ crlf) of
        RespComplete (Bulk (Some data)) consumed \<Rightarrow> data = ''hello'' \<and> consumed = 11 | _ \<Rightarrow> False)"

definition test_parse_null_bulk_string :: "nat \<Rightarrow> bool" where
  "test_parse_null_bulk_string fsz =
     (case resp_parse fsz (''$-1'' @ crlf) of RespComplete (Bulk None) consumed \<Rightarrow> consumed = 5 | _ \<Rightarrow> False)"

definition test_parse_empty_bulk_string :: "nat \<Rightarrow> bool" where
  "test_parse_empty_bulk_string fsz =
     (case resp_parse fsz (''$0'' @ crlf @ crlf) of
        RespComplete (Bulk (Some data)) consumed \<Rightarrow> length data = 0 \<and> consumed = 6 | _ \<Rightarrow> False)"

definition test_parse_array :: "nat \<Rightarrow> bool" where
  "test_parse_array fsz =
     (case resp_parse fsz (''*2'' @ crlf @ ''$3'' @ crlf @ ''foo'' @ crlf @ ''$3'' @ crlf @ ''bar'' @ crlf) of
        RespComplete (Array (Some frames)) consumed \<Rightarrow>
          length frames = 2 \<and> consumed = 22 \<and>
          frames ! 0 = Bulk (Some ''foo'') \<and> frames ! 1 = Bulk (Some ''bar'')
      | _ \<Rightarrow> False)"

definition test_parse_null_array :: "nat \<Rightarrow> bool" where
  "test_parse_null_array fsz =
     (case resp_parse fsz (''*-1'' @ crlf) of RespComplete (Array None) consumed \<Rightarrow> consumed = 5 | _ \<Rightarrow> False)"

definition test_parse_empty_array :: "nat \<Rightarrow> bool" where
  "test_parse_empty_array fsz =
     (case resp_parse fsz (''*0'' @ crlf) of
        RespComplete (Array (Some frames)) consumed \<Rightarrow> length frames = 0 \<and> consumed = 4 | _ \<Rightarrow> False)"

definition test_parse_incomplete_resp :: "nat \<Rightarrow> bool" where
  "test_parse_incomplete_resp fsz =
     (resp_parse fsz ''+OK'' = RespIncomplete \<and>
      resp_parse fsz (''$5'' @ crlf @ ''hel'') = RespIncomplete \<and>
      resp_parse fsz (''*2'' @ crlf @ ''$3'' @ crlf @ ''foo'' @ crlf) = RespIncomplete)"

definition test_encode_simple_string :: bool where
  "test_encode_simple_string = (encode (Simple ''OK'') = ''+OK'' @ crlf)"

definition test_encode_error :: bool where
  "test_encode_error = (encode (ErrorF ''ERR unknown'') = ''-ERR unknown'' @ crlf)"

definition test_encode_integer :: bool where
  "test_encode_integer = (encode (Integer 42) = '':42'' @ crlf)"

definition test_encode_bulk_string :: bool where
  "test_encode_bulk_string = (encode (Bulk (Some ''hello'')) = ''$5'' @ crlf @ ''hello'' @ crlf)"

definition test_encode_null :: bool where
  "test_encode_null = (encode (Bulk None) = ''$-1'' @ crlf)"

definition test_encode_array :: bool where
  "test_encode_array =
     (encode (Array (Some [Bulk (Some ''foo''), Bulk (Some ''bar'')]))
      = ''*2'' @ crlf @ ''$3'' @ crlf @ ''foo'' @ crlf @ ''$3'' @ crlf @ ''bar'' @ crlf)"

section \<open>Ping and echo\<close>

definition test_parse_ping :: bool where
  "test_parse_ping =
     (ping_parse (''PING'' @ crlf) = PingComplete PingCmd 6 \<and>
      ping_parse (''ping'' @ crlf) = PingComplete PingCmd 6)"

definition test_parse_ping_msg :: bool where
  "test_parse_ping_msg =
     (case ping_parse (''PING hello'' @ crlf) of
        PingComplete (PingMsg msg) n \<Rightarrow> n = 12 \<and> msg = ''hello'' | _ \<Rightarrow> False)"

definition test_parse_quit_ping :: bool where
  "test_parse_quit_ping = (ping_parse (''QUIT'' @ crlf) = PingComplete PingQuit 6)"

definition test_incomplete_ping :: bool where
  "test_incomplete_ping = (ping_parse ''PING'' = PingIncomplete)"

definition test_unknown_command :: bool where
  "test_unknown_command = (ping_parse (''FOO'' @ crlf) = PingError)"

definition test_parse_echo :: bool where
  "test_parse_echo =
     (case echo_parse (''100'' @ crlf) of
        EchoComplete (EchoCmd len header_len) \<Rightarrow> len = 100 \<and> header_len = 5 | _ \<Rightarrow> False)"

definition test_parse_quit_echo :: bool where
  "test_parse_quit_echo = (echo_parse (''QUIT'' @ crlf) = EchoComplete EchoQuit)"

definition test_incomplete_echo :: bool where
  "test_incomplete_echo = (echo_parse ''100'' = EchoIncomplete)"

definition test_invalid_length :: bool where
  "test_invalid_length = (echo_parse (''abc'' @ crlf) = EchoInvalidLength)"

definition test_response_header :: bool where
  "test_response_header =
     (let (buf, len) = echo_response_header 12345 (replicate 20 (CHR 0x00))
      in take len buf = ''12345'' @ crlf)"

section \<open>They pass\<close>

lemmas mc_eval = mc_parse_def parse_with_data_def command_line_def parse_get_def parse_storage_def parse_cas_def
  parse_delete_def parse_incr_decr_def parse_flush_all_def data_size_def build_command_def noreply_at_def
  max_key_length_def crlf_def uadd_def response_value_def

lemma memcached_tests_pass:
  "test_parse_get U" "test_parse_gets U" "test_parse_set U" "test_parse_set_with_data U"
  "test_parse_set_noreply U" "test_parse_cas U" "test_parse_delete U" "test_parse_delete_noreply U"
  "test_parse_flush_all U" "test_parse_flush_all_with_delay U" "test_parse_stats U" "test_parse_version U"
  "test_parse_quit U" "test_parse_incomplete U" "test_parse_unknown_command U"
  "test_parse_incr U" "test_parse_decr U"
  by (simp_all add: test_parse_get_def test_parse_gets_def test_parse_set_def test_parse_set_with_data_def
      test_parse_set_noreply_def test_parse_cas_def test_parse_delete_def test_parse_delete_noreply_def
      test_parse_flush_all_def test_parse_flush_all_with_delay_def test_parse_stats_def test_parse_version_def
      test_parse_quit_def test_parse_incomplete_def test_parse_unknown_command_def
      test_parse_incr_def test_parse_decr_def mc_eval rust_eval)

lemma response_tests_pass: "test_response_value" "test_response_value_with_cas"
  by (simp_all add: test_response_value_def test_response_value_with_cas_def mc_eval rust_eval)

lemma key_too_long_passes: "test_key_too_long U"
proof -
  let ?k = "replicate (max_key_length + 1) (CHR ''k'')"
  have "list_all is_word [''get'', ?k]" by (auto simp: max_key_length_def intro!: ascii_word)
  from command_line_print [OF this, of "[]"]
  have "command_line (''get '' @ ?k @ crlf) = Inr (4 + length ?k, [''get'', ?k])" by simp
  then show ?thesis
    unfolding test_key_too_long_def Let_def mc_parse_def by (simp add: parse_get_def max_key_length_def)
qed

lemmas resp_eval = resp_parse.simps parse_array.simps parse_elements.simps parse_simple_string_def
  parse_error_string_def parse_integer_def parse_bulk_string_def crlf_def

lemma resp_parse_tests_pass:
  "test_parse_simple_string fsz" "test_parse_error fsz" "test_parse_integer fsz"
  "test_parse_negative_integer fsz" "test_parse_bulk_string fsz" "test_parse_null_bulk_string fsz"
  "test_parse_empty_bulk_string fsz" "test_parse_null_array fsz" "test_parse_empty_array fsz"
  by (simp_all add: test_parse_simple_string_def test_parse_error_def test_parse_integer_def
      test_parse_negative_integer_def test_parse_bulk_string_def test_parse_null_bulk_string_def
      test_parse_empty_bulk_string_def test_parse_null_array_def test_parse_empty_array_def
      resp_eval rust_eval)

lemma resp_array_tests_pass:
  "fsz \<le> 1024 \<Longrightarrow> test_parse_array fsz" "fsz \<le> 1024 \<Longrightarrow> test_parse_incomplete_resp fsz"
  by (simp_all add: test_parse_array_def test_parse_incomplete_resp_def resp_eval rust_eval)

lemma encode_tests_pass:
  "test_encode_simple_string" "test_encode_error" "test_encode_integer" "test_encode_bulk_string"
  "test_encode_null" "test_encode_array"
  by (simp_all add: test_encode_simple_string_def test_encode_error_def test_encode_integer_def
      test_encode_bulk_string_def test_encode_null_def test_encode_array_def crlf_def rust_eval)

lemma ping_tests_pass:
  "test_parse_ping" "test_parse_ping_msg" "test_parse_quit_ping" "test_incomplete_ping" "test_unknown_command"
  by (simp_all add: test_parse_ping_def test_parse_ping_msg_def test_parse_quit_ping_def
      test_incomplete_ping_def test_unknown_command_def ping_parse_def crlf_def rust_eval Let_def)

lemma echo_tests_pass:
  "test_parse_echo" "test_parse_quit_echo" "test_incomplete_echo" "test_invalid_length" "test_response_header"
  by (simp_all add: test_parse_echo_def test_parse_quit_echo_def test_incomplete_echo_def
      test_invalid_length_def test_response_header_def echo_parse_def echo_response_header_def blit_0
      crlf_def rust_eval Let_def)

end
