(* ===== verification/Runtime_Tests.thy ===== *)
theory Runtime_Tests
  imports Buffer Config
begin

text \<open>
  The unit tests of \<^verbatim>\<open>src/src/runtime/buffer.rs\<close>, \<^verbatim>\<open>connection.rs\<close>, \<^verbatim>\<open>uring/token.rs\<close> and
  \<^verbatim>\<open>src/src/config.rs\<close>, evaluated on the model, one definition per test function. The slab is the
  concrete \<^const>\<open>vec_slab\<close>. Whether \<^verbatim>\<open>as_contiguous\<close> borrows or copies is not part of the model, and
  the tables of the TOML text stand for that text.
\<close>

section \<open>Buffers\<close>

definition test_buffer_pool_basic :: bool where
  "test_buffer_pool_basic =
     (let pool = pool_new 4 1024 in
      pool_capacity pool = 4 \<and> pool_available pool = 4 \<and> bp_buffer_size pool = 1024 \<and>
      (case alloc_many 4 pool of
         Returned (p1, Some [b0, b1, b2, b3]) \<Rightarrow>
           pool_available p1 = 0 \<and> snd (pool_alloc p1) = None \<and>
           (let p2 = pool_free b1 p1 in
            pool_available p2 = 1 \<and>
            (case pool_alloc p2 of
               (p3, Some b4) \<Rightarrow>
                 b4 = b1 \<and>
                 (case pool_get p3 b0 of
                    Returned buf \<Rightarrow>
                      (let p4 = pool_set b0 (buf[0 := char_of (42 :: nat)]) p3 in
                       (case pool_get p4 b0 of
                          Returned buf' \<Rightarrow> buf' ! 0 = char_of (42 :: nat)
                        | Panicked \<Rightarrow> False) \<and>
                       pool_available (pool_free b4 (pool_free b3 (pool_free b2 (pool_free b0 p4)))) = 4)
                  | Panicked \<Rightarrow> False)
             | (p3, None) \<Rightarrow> False))
       | _ \<Rightarrow> False))"

text \<open>\<^verbatim>\<open>chain.append(data, &mut pool).unwrap()\<close>, then the rest of the test.\<close>

definition appended :: "bytes \<Rightarrow> buffer_chain \<Rightarrow> buffer_pool \<Rightarrow> (buffer_chain \<Rightarrow> buffer_pool \<Rightarrow> bool) \<Rightarrow> bool" where
  "appended data chain pool rest =
     (case chain_append data chain pool of Returned (chain', pool', None) \<Rightarrow> rest chain' pool' | _ \<Rightarrow> False)"

definition test_buffer_chain_single_buffer :: bool where
  "test_buffer_chain_single_buffer =
     (let pool = pool_new 4 1024; data = ''hello world'' in
      appended data (chain_new (bp_buffer_size pool)) pool (\<lambda>chain pool.
        bc_len chain = 11 \<and> length (bc_buffers chain) = 1 \<and> pool_available pool = 3 \<and>
        as_contiguous chain pool = Returned data \<and>
        (let (chain', pool') = chain_release chain pool
         in pool_available pool' = 4 \<and> bc_len chain' = 0)))"

definition test_buffer_chain_multi_buffer :: bool where
  "test_buffer_chain_multi_buffer =
     (let pool = pool_new 10 100; data = map char_of [0 :: nat..<250] in
      appended data (chain_new (bp_buffer_size pool)) pool (\<lambda>chain pool.
        bc_len chain = 250 \<and> length (bc_buffers chain) = 3 \<and> pool_available pool = 7 \<and>
        as_contiguous chain pool = Returned data \<and>
        (case chain_chunks chain pool of
           Returned chunks \<Rightarrow>
             length chunks = 3 \<and> length (chunks ! 0) = 100 \<and> length (chunks ! 1) = 100 \<and> length (chunks ! 2) = 50
         | Panicked \<Rightarrow> False) \<and>
        pool_available (snd (chain_release chain pool)) = 10))"

definition test_buffer_chain_append_incremental :: bool where
  "test_buffer_chain_append_incremental =
     (let pool = pool_new 10 100 in
      appended ''hello '' (chain_new (bp_buffer_size pool)) pool (\<lambda>chain pool.
        appended ''world'' chain pool (\<lambda>chain pool.
          bc_len chain = 11 \<and> length (bc_buffers chain) = 1 \<and>
          as_contiguous chain pool = Returned ''hello world'')))"

definition test_buffer_chain_pool_exhausted :: bool where
  "test_buffer_chain_pool_exhausted =
     (let pool = pool_new 2 100 in
      appended (replicate 200 (CHR 0x00)) (chain_new (bp_buffer_size pool)) pool (\<lambda>chain pool.
        pool_available pool = 0 \<and>
        (case chain_append (replicate 10 (CHR 0x00)) chain pool of
           Returned (chain', pool', e) \<Rightarrow> e = Some PoolExhausted
         | Panicked \<Rightarrow> False)))"

definition test_buffer_chain_first_n_bytes :: bool where
  "test_buffer_chain_first_n_bytes =
     (let pool = pool_new 4 100 in
      appended ''HEADER:value data here'' (chain_new (bp_buffer_size pool)) pool (\<lambda>chain pool.
        first_n_bytes 7 chain pool = Returned (Some ''HEADER:'') \<and>
        first_n_bytes 100 chain pool = Returned None))"

definition test_buffer_chain_clear_reuse :: bool where
  "test_buffer_chain_clear_reuse =
     (let pool = pool_new 4 100 in
      appended ''first request'' (chain_new (bp_buffer_size pool)) pool (\<lambda>chain pool.
        length (bc_buffers chain) = 1 \<and>
        (let first_buf = bc_buffers chain ! 0; chain' = chain_clear chain in
         bc_len chain' = 0 \<and> length (bc_buffers chain') = 1 \<and>
         appended ''second request'' chain' pool (\<lambda>chain pool. bc_buffers chain ! 0 = first_buf))))"

section \<open>Connections and tokens\<close>

definition test_data_state_creation :: bool where
  "test_data_state_creation =
     (ds_reading = Reading 0 \<and> ds_reading_with 100 = Reading 100 \<and> ds_writing 5 200 = Writing 5 0 200)"

definition test_conn_phase_transitions :: bool where
  "test_conn_phase_transitions =
     (\<not> is_established Accepting \<and> is_established phase_established \<and>
      data_state_of phase_established \<noteq> None \<and> is_closing Closing)"

definition test_connection_state_transitions :: bool where
  "test_connection_state_transitions =
     (let conn = connection_new 42 ProtoMemcached in
      is_reading conn \<and> \<not> is_writing conn \<and>
      (case start_writing 1 100 conn of
         Returned conn \<Rightarrow>
           is_writing conn \<and> \<not> is_reading conn \<and> write_state conn = Some (1, 0, 100) \<and>
           (let (conn1, complete1) = advance_write 50 conn; (conn2, complete2) = advance_write 50 conn1 in
            \<not> complete1 \<and> write_state conn1 = Some (1, 50, 100) \<and> complete2 \<and>
            (case start_reading conn2 of
               Returned conn3 \<Rightarrow> is_reading conn3 \<and> cn_phase (connection_close conn3) = Closing
             | Panicked \<Rightarrow> False))
       | Panicked \<Rightarrow> False))"

definition test_connection_accepting_to_established :: bool where
  "test_connection_accepting_to_established =
     (let conn = connection_new_accepting 42 ProtoResp
      in cn_phase conn = Accepting \<and> is_reading (establish conn))"

definition test_connection_registry :: bool where
  "test_connection_registry =
     (let registry = registry_new vec_slab 2;
          (r1, id1) = registry_insert vec_slab (connection_new 10 ProtoMemcached) registry;
          (r2, id2) = registry_insert vec_slab (connection_new 11 ProtoResp) r1;
          (r3, id3) = registry_insert vec_slab (connection_new 12 ProtoMemcached) r2
      in (case (id1, id2) of
            (Some i1, Some i2) \<Rightarrow>
              id3 = None \<and> registry_len vec_slab r3 = 2 \<and>
              map_option cn_fd (registry_get vec_slab i1 r3) = Some 10 \<and>
              map_option cn_protocol (registry_get vec_slab i2 r3) = Some ProtoResp \<and>
              (let (r4, _) = registry_remove vec_slab i1 r3
               in \<not> registry_contains vec_slab i1 r4 \<and> registry_len vec_slab r4 = 1)
          | _ \<Rightarrow> False))"

definition test_token_allocator :: bool where
  "test_token_allocator =
     (let (ops1, t1) = token_alloc vec_slab OpAccept (sl_new vec_slab);
          (ops2, t2) = token_alloc vec_slab (OpRead 1) ops1;
          (ops3, _) = token_free vec_slab t1 ops2;
          (ops4, t3) = token_alloc vec_slab OpAccept ops3
      in token_len vec_slab ops2 = 2 \<and> token_get vec_slab t1 ops2 = Some OpAccept \<and>
         token_get vec_slab t2 ops2 = Some (OpRead 1) \<and> token_get vec_slab t1 ops3 = None \<and>
         token_len vec_slab ops3 = 1 \<and> t3 = t1)"

section \<open>Configuration\<close>

definition test_default_config :: bool where
  "test_default_config =
     (let config = toml_default in
      sc_listen (tm_server config) = ''127.0.0.1:11211'' \<and>
      tc_max_memory (tm_storage config) = 64 * 1024 * 1024 \<and> tc_default_ttl (tm_storage config) = 0)"

definition test_toml_parsing :: bool where
  "test_toml_parsing =
     (let config = toml_of
        \<lparr>mg_server = Some \<lparr>sg_listen = Some ''0.0.0.0:11211'', sg_workers = Some 4, sg_protocol = None\<rparr>,
         mg_storage = Some \<lparr>tg_max_memory = Some 134217728, tg_default_ttl = Some 3600,
                            tg_cleanup_interval = None, tg_max_value_size = None\<rparr>,
         mg_logging = Some (Some ''debug'')\<rparr>
      in sc_listen (tm_server config) = ''0.0.0.0:11211'' \<and> sc_workers (tm_server config) = Some 4 \<and>
         tc_max_memory (tm_storage config) = 134217728 \<and> tc_default_ttl (tm_storage config) = 3600 \<and>
         lc_level (tm_logging config) = ''debug'')"

section \<open>They pass\<close>

text \<open>A new pool, its buffers opaque.\<close>

lemma pool_new_4: "pool_new 4 n =
    \<lparr>bp_buffers = [replicate n (CHR 0x00), replicate n (CHR 0x00), replicate n (CHR 0x00), replicate n (CHR 0x00)],
     bp_free_list = [0, 1, 2, 3], bp_buffer_size = n\<rparr>"
  by (simp add: pool_new_def numeral_eq_Suc)

lemmas pool_eval = pool_capacity_def pool_available_def pool_alloc_def pool_free_def pool_get_def pool_set_def
  alloc_many_def

lemma pool_test_passes: "test_buffer_pool_basic"
proof -
  have "alloc_loop 4 p [] = alloc_loop (Suc (Suc (Suc (Suc 0)))) p []" for p by (simp add: numeral_eq_Suc)
  then show ?thesis
    unfolding test_buffer_pool_basic_def pool_new_4 by (simp add: pool_eval)
qed

lemmas chain_eval = appended_def chain_append_def append_loop.simps current_buffer_and_offset_def chain_new_def
  as_contiguous_def chain_assemble_def chain_chunks_def chain_release_def Let_def slice_def pool_eval

lemma single_buffer_passes: "test_buffer_chain_single_buffer"
proof -
  let ?z = "replicate 1024 (CHR 0x00)"
  have "length (blit 0 ''hello world'' ?z) = 1024" by (subst length_blit) simp_all
  with take_blit_0 [of "''hello world''" ?z] show ?thesis
    unfolding test_buffer_chain_single_buffer_def pool_new_4 by (simp add: chain_eval)
qed

text \<open>Data that fills two buffers and half of a third, in any bytes.\<close>

lemma three_buffers:
  assumes "length a = 100" "length b = 100" "length c = 50" "length z = 100"
  defines "pool \<equiv> \<lparr>bp_buffers = replicate 10 z, bp_free_list = [0..<10], bp_buffer_size = 100\<rparr>"
  shows "chain_append (a @ b @ c) (chain_new 100) pool =
    Returned (\<lparr>bc_buffers = [9, 8, 7], bc_len = 250, bc_buffer_size = 100\<rparr>,
      \<lparr>bp_buffers = (replicate 10 z)[9 := a, 8 := b, 7 := c @ drop 50 z], bp_free_list = [0..<7], bp_buffer_size = 100\<rparr>,
      None)"
proof -
  have "[0..<10] = [0, 1, 2, 3, 4, 5, 6, 7, 8, 9 :: nat]" "[0..<7] = [0, 1, 2, 3, 4, 5, 6 :: nat]"
    by (simp_all add: upt_rec)
  moreover have "a \<noteq> []" "b \<noteq> []" "c \<noteq> []" "a @ b @ c \<noteq> []" using assms by auto
  ultimately show ?thesis
    using assms(1-4)
    by (simp add: chain_append_def chain_new_def append_loop.simps current_buffer_and_offset_def pool_def pool_eval
        blit_0)
qed

lemma multi_buffer_passes: "test_buffer_chain_multi_buffer"
proof -
  define a b c z where d: "a = map (char_of :: nat \<Rightarrow> char) [0..<100]" "b = map (char_of :: nat \<Rightarrow> char) [100..<200]"
    "c = map (char_of :: nat \<Rightarrow> char) [200..<250]" "z = replicate 100 (CHR 0x00)"
  then have l: "length a = 100" "length b = 100" "length c = 50" "length z = 100" by simp_all
  have "[0..<250] = [0..<100] @ [100..<200] @ [200..<(250::nat)]"
    using upt_add_eq_append [of 0 100 150] upt_add_eq_append [of 100 200 50] by simp
  then have data: "map char_of [0 :: nat..<250] = a @ b @ c" by (simp add: d)
  show ?thesis
    unfolding test_buffer_chain_multi_buffer_def Let_def data appended_def pool_new_def
    using three_buffers [OF l] l
    by (simp add: d(4) [symmetric] as_contiguous_def chain_assemble_def chain_chunks_def chain_release_def pool_eval Let_def
        free_many_list)
qed

lemma small_chain_tests_pass:
  "test_buffer_chain_append_incremental" "test_buffer_chain_pool_exhausted"
  "test_buffer_chain_first_n_bytes" "test_buffer_chain_clear_reuse"
  by code_simp+

lemma connection_tests_pass:
  "test_data_state_creation" "test_conn_phase_transitions" "test_connection_state_transitions"
  "test_connection_accepting_to_established" "test_connection_registry" "test_token_allocator"
  by (simp_all add: test_data_state_creation_def test_conn_phase_transitions_def
      test_connection_state_transitions_def test_connection_accepting_to_established_def
      test_connection_registry_def test_token_allocator_def ds_reading_def ds_reading_with_def ds_writing_def
      is_established_def is_closing_def phase_established_def data_state_of_def connection_new_def
      connection_new_accepting_def establish_def is_reading_def is_writing_def start_writing_def start_reading_def
      write_state_def advance_write_def connection_close_def registry_new_def registry_insert_def registry_get_def
      registry_len_def registry_remove_def registry_contains_def token_alloc_def token_get_def token_free_def
      token_len_def vec_slab_def vec_get_def uadd_def Let_def)

lemma config_tests_pass: "test_default_config" "test_toml_parsing"
  by (simp_all add: test_default_config_def test_toml_parsing_def toml_default_def toml_of_def server_default_def
      storage_default_def server_of_def storage_of_def default_listen_def default_max_memory_def)

end
