(* ===== verification/Unit_Tests.thy ===== *)
theory Unit_Tests
  imports Storage_Tests Protocol_Tests Runtime_Tests
begin

text \<open>
  All unit tests of the repository together. They were written against the code, so that they pass
  on the definitions is evidence, independent of the theorems, that these behave like the code.
\<close>

text \<open>
  Every unit test of \<^verbatim>\<open>src/src\<close> holds of the model: the sixteen of the store for every hash function,
  those of the parsers for every Unicode case table and every size of a frame up to a kilobyte,
  and those of buffers, connections, tokens and configuration.
\<close>

lemma unit_tests_hold:
  assumes "fsz \<le> 1024"
  shows "list_all (\<lambda>t. t h)
          [test_basic_set_get, test_get_nonexistent, test_delete, test_add_existing, test_add_new,
           test_replace_existing, test_replace_nonexistent, test_cas_success, test_cas_mismatch, test_cas_not_found,
           test_expiration, test_memory_limit, test_get_multi, test_append, test_prepend, test_flush_all]
     \<and> list_all (\<lambda>t. t U)
          [test_parse_get, test_parse_gets, test_parse_set, test_parse_set_with_data, test_parse_set_noreply,
           test_parse_cas, test_parse_delete, test_parse_delete_noreply, test_parse_flush_all,
           test_parse_flush_all_with_delay, test_parse_stats, test_parse_version, test_parse_quit,
           test_parse_incomplete, test_parse_unknown_command, test_key_too_long, test_parse_incr, test_parse_decr]
     \<and> list_all (\<lambda>t. t fsz)
          [test_parse_simple_string, test_parse_error, test_parse_integer, test_parse_negative_integer,
           test_parse_bulk_string, test_parse_null_bulk_string, test_parse_empty_bulk_string, test_parse_array,
           test_parse_null_array, test_parse_empty_array, test_parse_incomplete_resp]
     \<and> list_all id
          [test_response_value, test_response_value_with_cas, test_encode_simple_string, test_encode_error,
           test_encode_integer, test_encode_bulk_string, test_encode_null, test_encode_array, test_parse_ping,
           test_parse_ping_msg, test_parse_quit_ping, test_incomplete_ping, test_unknown_command, test_parse_echo,
           test_parse_quit_echo, test_incomplete_echo, test_invalid_length, test_response_header]
     \<and> list_all id
          [test_buffer_pool_basic, test_buffer_chain_single_buffer, test_buffer_chain_multi_buffer,
           test_buffer_chain_append_incremental, test_buffer_chain_pool_exhausted, test_buffer_chain_first_n_bytes,
           test_buffer_chain_clear_reuse, test_data_state_creation, test_conn_phase_transitions,
           test_connection_state_transitions, test_connection_accepting_to_established, test_connection_registry,
           test_token_allocator, test_default_config, test_toml_parsing]"
  using assms
  by (simp add: storage_tests_pass memory_limit_passes memcached_tests_pass response_tests_pass key_too_long_passes
      resp_parse_tests_pass resp_array_tests_pass encode_tests_pass ping_tests_pass echo_tests_pass
      pool_test_passes single_buffer_passes multi_buffer_passes small_chain_tests_pass connection_tests_pass
      config_tests_pass)

end
