(* ===== verification/Spec2Isabelle.thy ===== *)
theory Spec2Isabelle
  imports Storage_History Locking Typing Backends Startup Unit_Tests
begin

text \<open>
  \<^bold>\<open>A verification of grow-a-cache\<close>, a multi-protocol cache server written in Rust (\<^verbatim>\<open>src/src\<close>).

  \<^bold>\<open>The program.\<close> Workers, one thread each, share one store. A worker accepts connections, reads bytes
  into buffers of a pool it owns, hands them to the handler of its protocol, which parses the
  request at the front of the bytes, runs it against the store and writes the answer into an output
  buffer, and sends the answer. There are two interchangeable event loops: one that polls for
  readiness (mio) and one that submits operations and handles their completions (io_uring).

  \<^bold>\<open>Theories and sources.\<close>
  \<^item> \<^verbatim>\<open>Prelude\<close>, \<^verbatim>\<open>Rust_Std\<close>: outcomes (\<open>Returned\<close> or \<open>Panicked\<close>), slices, runs of step functions with their
    invariants (locale \<open>stepwise_invariant\<close>); the parts of Rust's standard library that the program
    uses: number parsing and printing, UTF-8, ASCII case, trimming, splitting.
  \<^item> \<^verbatim>\<open>Storage\<close>, \<^verbatim>\<open>Storage_Spec\<close>, \<^verbatim>\<open>Storage_Correct\<close>: \<^verbatim>\<open>storage.rs\<close>. A record of the two hash maps, the
    counters and the limit; one function per operation. \<^verbatim>\<open>Storage_Spec\<close> states what a cache promises as an
    abstract machine, \<^verbatim>\<open>Storage_Correct\<close> that the store implements it, that its account of memory is
    exact, that eviction removes the least recently used key, and how \<^verbatim>\<open>cas\<close> behaves.
  \<^item> \<^verbatim>\<open>Locking\<close>: the two reader-writer locks of \<^verbatim>\<open>storage.rs\<close>, every operation as the sequence of its
    acquisitions and releases, and threads that interleave them as a step relation. Without
    eviction every state reached can run to its end; with it two threads can block each other.
  \<^item> \<^verbatim>\<open>Storage_Threads\<close>, \<^verbatim>\<open>Storage_Bound\<close>, \<^verbatim>\<open>Storage_History\<close>: the data of the store under threads that
    interleave. A call is a sequence of sections, cut where \<^verbatim>\<open>storage.rs\<close> releases its lock or touches a
    counter that others read without it; \<open>turn\<close> lets one thread run its next section. The sections of
    a call compose to the sequential operation; the account stays exact, the memory in use stays
    within the cap and one entry per other thread, and reads return the latest write in the order in
    which calls take effect. \<^verbatim>\<open>Storage_History\<close> ends with interleavings that are not atomic: of two \<^verbatim>\<open>cas\<close> with the
    same token, for every store and key, and of \<^verbatim>\<open>add\<close>, \<^verbatim>\<open>incr\<close> and a \<^verbatim>\<open>get\<close> of an expired item in examples.
  \<^item> \<^verbatim>\<open>Protocol_Base\<close> and \<^verbatim>\<open>Memcached\<close>, \<^verbatim>\<open>Resp\<close>, \<^verbatim>\<open>Ping\<close>, \<^verbatim>\<open>Echo\<close>: the parsers under \<^verbatim>\<open>protocols/\<close>. The contract
    of a stream parser is a locale, interpreted for each protocol: it reads back what was printed,
    says nothing before the last byte, and a reference consumer that keeps calling it (\<open>feed\<close>)
    recognises pipelined requests however they are cut. The event loops are not such consumers:
    they handle one request per read, and mio drops the bytes after it.
  \<^item> \<^verbatim>\<open>Request\<close>, \<^verbatim>\<open>Request_Correct\<close>: \<^verbatim>\<open>request.rs\<close>, the four handlers and the execution of commands, and
    what they answer over the wire. \<^verbatim>\<open>Typing\<close>: the values they pass on satisfy the types of the source
    (a \<^verbatim>\<open>String\<close> is valid UTF-8, a length fits its integer), and the keys of the store stay strings.
  \<^item> \<^verbatim>\<open>Dispatch\<close>: the choice of the handler, which both loops make; a handler stays within its output
    buffer, and what it sends does not depend on what the buffer held.
  \<^item> \<^verbatim>\<open>Buffer\<close>, \<^verbatim>\<open>Ledger\<close>: \<^verbatim>\<open>runtime/buffer.rs\<close>, the pool and the chains of buffers, and who owns which
    buffer: the ledger of a worker and the exchanges that keep it.
  \<^item> \<^verbatim>\<open>Connection\<close>: \<^verbatim>\<open>runtime/connection.rs\<close> and \<^verbatim>\<open>runtime/uring/token.rs\<close>, the state of a connection, the
    registry and the tokens of operations in flight.
  \<^item> \<^verbatim>\<open>Mio\<close>, \<^verbatim>\<open>Mio_Correct\<close>, \<^verbatim>\<open>Mio_Runs\<close>: \<^verbatim>\<open>runtime/mio/event_loop.rs\<close>. A worker is a record of its
    connections, buffers and store; \<open>worker_event\<close> is one round of its loop. \<open>handler_panics\<close> is exactly when an
    event of a connection ends the worker; pipelined requests are dropped.
  \<^item> \<^verbatim>\<open>Buf_Ring\<close>: \<^verbatim>\<open>runtime/uring/buf_ring.rs\<close>, the ring of buffers the kernel reads into. What a bounded
    queue promises is the locale \<open>fifo\<close>, interpreted for the ring. An entry carries address, length and
    identifier; the regions of memory the entries offer to the kernel never overlap.
  \<^item> \<^verbatim>\<open>Uring\<close>, \<^verbatim>\<open>Uring_Correct\<close>, \<^verbatim>\<open>Uring_Buffers\<close>, \<^verbatim>\<open>Uring_Runs\<close>, \<^verbatim>\<open>Uring_Delivery\<close>:
    \<^verbatim>\<open>runtime/uring/event_loop.rs\<close>. \<open>uring_event\<close> handles one completion; a handler returns what it
    submits, with the bytes of every write, and delivery is stated over these submissions.
  \<^item> \<^verbatim>\<open>Backends\<close>: the two loops against each other. \<^verbatim>\<open>Config\<close>: \<^verbatim>\<open>config.rs\<close>.
  \<^item> \<^verbatim>\<open>Startup\<close>: \<^verbatim>\<open>main.rs\<close>, \<^verbatim>\<open>runtime/mod.rs\<close>, and \<^verbatim>\<open>run\<close>, the listener and the set-up of \<^verbatim>\<open>worker_loop\<close> in both event loops: from
    the command line to running workers, with the parser of socket addresses and the errors of
    every call. The stores of the process are a list and an \<open>arc\<close> is an address in it, so that sharing is
    visible; a socket is a record that each granted call changes.
  \<^item> \<^verbatim>\<open>Storage_Tests\<close>, \<^verbatim>\<open>Protocol_Tests\<close>, \<^verbatim>\<open>Runtime_Tests\<close>, \<^verbatim>\<open>Unit_Tests\<close>: the 78 unit tests of the sources,
    one definition each, evaluated on the model: evidence that the model is the program, not a property
    of it.

  \<^bold>\<open>What is shown.\<close> From the wire to the store: the memcached handler implements the stream semantics
  of the protocol, what was set is what is got over memcached and RESP, and the store is a lossy
  cache, whatever operations were run, by one thread or by several that interleave. In the loops, for every state a worker can reach and every
  answer of the kernel: no buffer is lost or shared and connections do not disturb each other. A
  response that is not empty and fits its buffer reaches its client whole, byte for byte, and both
  loops deliver the same bytes for it, as long as no write of the connection fails and no event of
  another connection ends the worker, which a panic of its handler does. For io_uring the ledger needs
  that every write has a positive result (\<open>write_progresses\<close>): one that failed, or that had nothing to send
  because the request asked for no reply, returns its buffer twice, as \<^verbatim>\<open>Uring_Delivery\<close> shows. Where the
  code departs from what it means to do, a theorem states what it does.

  \<^bold>\<open>Modelling decisions.\<close>
  \<^item> A 64-bit Linux target and a release build: machine integers are words, or natural numbers with the
    wrap written out (\<open>uadd\<close>). Sums that cannot wrap, as of lengths of buffers that exist, are plain.
  \<^item> A panic is a value and ends the worker; a panic under the store's write lock poisons the store.
  \<^item> One reading of the clock per store operation, given as an argument. The order in which a hash map
    is iterated follows an arbitrary function of the keys, a parameter of the store.
  \<^item> Parameters for code that is not in the repository: Unicode case tables, the size of a RESP
    frame and of a join handle in memory, the \<^verbatim>\<open>slab\<close> crate (\<open>slab_ops\<close>, with its documented laws as the hypothesis
    \<open>slab_laws\<close> and a vector of options as an instance), the file system and the TOML parser. The
    results of system calls and completions are arguments of the steps.
  \<^item> Loops are structural recursion or recursion with a measure: the chain of buffers by the bytes
    left, eviction by the number of entries, frames by the length of the input. No fuel is used.

  \<^bold>\<open>Not modelled.\<close> Interleaving of workers inside a store operation is modelled for the store alone: in
  the event loops each operation runs as one step, and what other workers do between two requests of
  a worker is an argument of the event. Sockets beyond the results of their calls; the tokenising of
  the command line; log output and its filter; raw pointers, \<^verbatim>\<open>iovec\<close>s and deallocation; exhaustion of
  the stack by deeply nested frames; the \<^verbatim>\<open>Debug\<close> and most \<^verbatim>\<open>Display\<close> texts; the stubs for platforms
  without io_uring.
\<close>

end
